(* ===== verification/Prelude.thy ===== *)
theory Prelude
  imports Main "HOL-Library.Word"
begin

text \<open>
  Shared vocabulary of the development: the machine integer types of the C sources, unsigned
  64-bit arithmetic written out on natural numbers, power-of-two alignment, and the library of
  pointer chains that the free list, the heap block lists, the run queues and the wait queues
  all use.  A pointer is an option value whose \<open>None\<close> is the null pointer.
\<close>

unbundle bit_operations_syntax

type_synonym u8 = "8 word"
type_synonym u16 = "16 word"
type_synonym u32 = "32 word"
type_synonym u64 = "64 word"

named_theorems arith64 \<open>unsigned 64-bit arithmetic that does not wrap\<close>
named_theorems chain_simps \<open>pointer chains after an update of the links\<close>

section \<open>Unsigned long arithmetic on natural numbers\<close>

abbreviation two64 :: nat where
  "two64 \<equiv> 18446744073709551616"

text \<open>C's \<open>+\<close>, \<open>-\<close> and \<open>*\<close> on unsigned long: they wrap modulo \<open>2 ^ 64\<close>.\<close>

definition add64 :: "nat \<Rightarrow> nat \<Rightarrow> nat" where
  "add64 a b = (a + b) mod two64"

definition sub64 :: "nat \<Rightarrow> nat \<Rightarrow> nat" where
  "sub64 a b = (a + two64 - b mod two64) mod two64"

definition mul64 :: "nat \<Rightarrow> nat \<Rightarrow> nat" where
  "mul64 a b = (a * b) mod two64"

lemma add64_exact [arith64]: "a + b < two64 \<Longrightarrow> add64 a b = a + b"
  by (simp add: add64_def)

lemma mul64_exact [arith64]: "a * b < two64 \<Longrightarrow> mul64 a b = a * b"
  by (simp add: mul64_def)

lemma wrapped_diff: "b \<le> a \<Longrightarrow> a < c \<Longrightarrow> (a + c - b mod c) mod c = (a - b :: nat)"
proof -
  assume "b \<le> a" and "a < c"
  then have "a + c - b mod c = (a - b) + c" by simp
  with \<open>a < c\<close> show ?thesis by (simp only: mod_add_self2) simp
qed

lemma sub64_exact [arith64]: "b \<le> a \<Longrightarrow> a < two64 \<Longrightarrow> sub64 a b = a - b"
  unfolding sub64_def by (rule wrapped_diff)

lemma add64_less: "add64 a b < two64"
  by (simp add: add64_def)

lemma sub64_less: "sub64 a b < two64"
  by (simp add: sub64_def)

text \<open>The same on unsigned int.\<close>

abbreviation two32 :: nat where
  "two32 \<equiv> 4294967296"

definition add32 :: "nat \<Rightarrow> nat \<Rightarrow> nat" where
  "add32 a b = (a + b) mod two32"

definition sub32 :: "nat \<Rightarrow> nat \<Rightarrow> nat" where
  "sub32 a b = (a + two32 - b mod two32) mod two32"

lemma add32_exact [arith64]: "a + b < two32 \<Longrightarrow> add32 a b = a + b"
  by (simp add: add32_def)

lemma sub32_exact [arith64]: "b \<le> a \<Longrightarrow> a < two32 \<Longrightarrow> sub32 a b = a - b"
  unfolding sub32_def by (rule wrapped_diff)

text \<open>\<open>(value + alignment - 1UL) & ~(alignment - 1UL)\<close>, the rounding every component uses.\<close>

definition align_up64 :: "nat \<Rightarrow> nat \<Rightarrow> nat" where
  "align_up64 value alignment =
     unat ((word_of_nat value + word_of_nat alignment - 1 :: u64)
           AND NOT (word_of_nat alignment - 1))"

lemma unat_and_not_mask: "unat (w AND NOT (mask k) :: u64) = unat w div 2 ^ k * 2 ^ k"
proof -
  have "w AND NOT (mask k) = w AND NOT (w AND mask k)"
    by (rule bit_eqI) (auto simp: bit_simps)
  also have "\<dots> = w - (w AND mask k)"
    by (rule disjunctive_diff_eq_and_not [symmetric]) (rule bit_eqI, simp add: bit_simps)
  finally have "unat (w AND NOT (mask k)) = unat w - unat (w AND mask k)"
    by (simp add: unat_sub word_and_le2)
  also have "unat (w AND mask k) = take_bit k (unat w)"
    by (simp only: take_bit_eq_mask [symmetric] unsigned_take_bit_eq)
  also have "unat w - take_bit k (unat w) = unat w div 2 ^ k * 2 ^ k"
    by (simp add: take_bit_eq_mod minus_mod_eq_div_mult)
  finally show ?thesis .
qed

lemma align_up64_pow2:
  assumes "k < 64" and "value + 2 ^ k < two64"
  shows "align_up64 value (2 ^ k) = (value + 2 ^ k - 1) div 2 ^ k * 2 ^ k"
proof -
  have m: "(word_of_nat (2 ^ k) - 1 :: u64) = mask k"
    by (simp add: mask_eq_decr_exp)
  have one: "(1 :: nat) \<le> value + 2 ^ k" by (simp add: trans_le_add2)
  have "(word_of_nat value + word_of_nat (2 ^ k) - 1 :: u64) = word_of_nat (value + 2 ^ k - 1)"
    by (subst of_nat_diff [OF one]) simp
  moreover have "unat (word_of_nat (value + 2 ^ k - 1) :: u64) = value + 2 ^ k - 1"
    using assms by (simp add: unat_of_nat take_bit_eq_mod)
  ultimately show ?thesis
    unfolding align_up64_def m by (simp add: unat_and_not_mask)
qed

text \<open>The address test \<open>(a & (PAGE_SIZE - 1UL)) != 0UL\<close> is a divisibility test.\<close>

lemma and_pow2_minus_1: "a AND (2 ^ k - 1) = a mod (2 ^ k :: nat)"
proof -
  have "a AND (2 ^ k - 1) = take_bit k a"
    by (simp only: mask_eq_exp_minus_1 [symmetric] take_bit_eq_mask)
  then show ?thesis by (simp only: take_bit_eq_mod)
qed

section \<open>Pointer chains\<close>

text \<open>
  \<open>chain h p xs\<close>: starting at the pointer \<open>p\<close> and following the link field \<open>h\<close> visits exactly
  the nodes \<open>xs\<close> and ends at the null pointer.  \<open>seg h p xs q\<close> is the same for a chain that ends
  at \<open>q\<close>.
\<close>

primrec seg :: "('a \<Rightarrow> 'a option) \<Rightarrow> 'a option \<Rightarrow> 'a list \<Rightarrow> 'a option \<Rightarrow> bool" where
  "seg h p [] q = (p = q)"
| "seg h p (x # xs) q = (p = Some x \<and> seg h (h x) xs q)"

definition chain :: "('a \<Rightarrow> 'a option) \<Rightarrow> 'a option \<Rightarrow> 'a list \<Rightarrow> bool" where
  "chain h p xs = seg h p xs None"

lemma chain_Nil [simp]: "chain h p [] \<longleftrightarrow> p = None"
  by (simp add: chain_def)

lemma chain_Cons [simp]: "chain h p (x # xs) \<longleftrightarrow> p = Some x \<and> chain h (h x) xs"
  by (simp add: chain_def)

lemma chain_None [simp]: "chain h None xs \<longleftrightarrow> xs = []"
  by (cases xs) auto

lemma chain_Some: "chain h (Some x) xs \<longleftrightarrow> (\<exists>ys. xs = x # ys \<and> chain h (h x) ys)"
  by (cases xs) auto

lemma seg_append: "seg h p (xs @ ys) q \<longleftrightarrow> (\<exists>r. seg h p xs r \<and> seg h r ys q)"
  by (induction xs arbitrary: p) auto

lemma chain_append: "chain h p (xs @ ys) \<longleftrightarrow> (\<exists>r. seg h p xs r \<and> chain h r ys)"
  by (simp add: chain_def seg_append)

lemma seg_cong: "(\<And>x. x \<in> set xs \<Longrightarrow> h x = h' x) \<Longrightarrow> seg h p xs q = seg h' p xs q"
  by (induction xs arbitrary: p) auto

lemma chain_cong: "(\<And>x. x \<in> set xs \<Longrightarrow> h x = h' x) \<Longrightarrow> chain h p xs = chain h' p xs"
  unfolding chain_def by (rule seg_cong)

lemma seg_upd [chain_simps]: "x \<notin> set xs \<Longrightarrow> seg (h(x := v)) p xs q = seg h p xs q"
  by (rule seg_cong) auto

lemma chain_upd [chain_simps]: "x \<notin> set xs \<Longrightarrow> chain (h(x := v)) p xs = chain h p xs"
  by (rule chain_cong) auto

lemma chain_unique: "chain h p xs \<Longrightarrow> chain h p ys \<Longrightarrow> xs = ys"
proof (induction xs arbitrary: p ys)
  case (Cons x xs)
  then show ?case by (cases ys) auto
qed auto

text \<open>A chain visits no node twice: a repeated node would repeat for ever.\<close>

lemma chain_fresh: "chain h (h x) xs \<Longrightarrow> x \<notin> set xs"
proof
  assume c: "chain h (h x) xs" and "x \<in> set xs"
  then obtain as bs where xs: "xs = as @ x # bs" by (meson split_list)
  with c have "chain h (h x) bs" by (auto simp: chain_append)
  with c have "xs = bs" by (rule chain_unique)
  with xs show False by simp
qed

lemma chain_distinct: "chain h p xs \<Longrightarrow> distinct xs"
  by (induction xs arbitrary: p) (auto dest: chain_fresh)

lemma seg_distinct_chain: "seg h p xs q \<Longrightarrow> chain h q ys \<Longrightarrow> distinct (xs @ ys)"
  by (rule chain_distinct [of h p]) (auto simp: chain_append)

text \<open>The last node of a non-empty chain is the only one whose link is null.\<close>

lemma chain_snoc: "chain h p (xs @ [x]) \<longleftrightarrow> seg h p xs (Some x) \<and> h x = None"
  by (auto simp: chain_append)

text \<open>The pointer in front of a node of a segment: the node before it, or the start.\<close>

lemma seg_snoc: "seg h p (xs @ [x]) q \<longleftrightarrow> seg h p xs (Some x) \<and> h x = q"
  by (auto simp: seg_append)

text \<open>Unlinking one node from the middle of a chain.\<close>

lemma chain_unlink_mid:
  assumes "chain h p (as @ y # x # bs)"
  shows "chain (h(y := h x)) p (as @ y # bs)"
proof -
  have d: "distinct (as @ y # x # bs)" using assms by (rule chain_distinct)
  from assms have "seg h p as (Some y)" and "chain h (h x) bs"
    by (auto simp: chain_append)
  with d show ?thesis by (auto simp: chain_append chain_simps)
qed

text \<open>Appending a node behind the last one, as the intrusive queues do.\<close>

lemma chain_append_node:
  assumes "chain h p (xs @ [y])" and "x \<notin> set (xs @ [y])"
  shows "chain (h(x := None, y := Some x)) p (xs @ [y, x])"
proof -
  from assms have s: "seg h p xs (Some y)" by (auto simp: chain_append)
  have "y \<notin> set xs" using chain_distinct [OF assms(1)] by simp
  with s assms(2) have "seg (h(x := None, y := Some x)) p xs (Some y)"
    by (simp add: chain_simps)
  with assms(2) show ?thesis by (auto simp: chain_append)
qed

text \<open>Inserting a node behind another one and unlinking a node, in any segment, such as a ring.\<close>

lemma seg_insert:
  "seg h q (as @ p # bs) r \<Longrightarrow> distinct (as @ p # bs) \<Longrightarrow> t \<notin> set (as @ p # bs) \<Longrightarrow>
     seg (h(t := h p, p := Some t)) q (as @ p # t # bs) r"
  by (auto simp: seg_append chain_simps)

lemma seg_unlink: "seg h q (as @ p # v # bs) r \<Longrightarrow> distinct (as @ p # v # bs) \<Longrightarrow> seg (h(p := h v)) q (as @ p # bs) r"
  by (auto simp: seg_append chain_simps)

section \<open>First element with a property\<close>

text \<open>The scan \<open>for (i = 0; i < n; i++) if (P(i)) { r = i; break; }\<close>.\<close>

fun find_from :: "(nat \<Rightarrow> bool) \<Rightarrow> nat \<Rightarrow> nat \<Rightarrow> nat option" where
  "find_from P i 0 = None"
| "find_from P i (Suc n) = (if P i then Some i else find_from P (Suc i) n)"

lemma find_from_Some:
  "find_from P i n = Some k \<Longrightarrow> i \<le> k \<and> k < i + n \<and> P k \<and> (\<forall>j. i \<le> j \<and> j < k \<longrightarrow> \<not> P j)"
proof (induction n arbitrary: i)
  case (Suc n)
  show ?case
  proof (cases "P i")
    case False
    with Suc.prems have "find_from P (Suc i) n = Some k" by simp
    from Suc.IH [OF this] False show ?thesis
      by (metis Suc_leD Suc_leI add_Suc_right add_Suc_shift le_neq_implies_less)
  qed (use Suc.prems in auto)
qed simp

lemma find_from_None: "find_from P i n = None \<longleftrightarrow> (\<forall>k. i \<le> k \<and> k < i + n \<longrightarrow> \<not> P k)"
proof (induction n arbitrary: i)
  case (Suc n)
  have "(\<forall>k. i \<le> k \<and> k < i + Suc n \<longrightarrow> \<not> P k) \<longleftrightarrow>
        \<not> P i \<and> (\<forall>k. Suc i \<le> k \<and> k < Suc i + n \<longrightarrow> \<not> P k)"
    by (metis Suc_leD Suc_leI add_Suc_right add_Suc_shift le_add1 le_imp_less_Suc
        le_neq_implies_less order_refl)
  with Suc.IH [of "Suc i"] show ?case by simp
qed auto

lemma find_from_eqI:
  assumes "i \<le> k" "k < i + n" "P k" "\<And>j. i \<le> j \<Longrightarrow> j < k \<Longrightarrow> \<not> P j"
  shows "find_from P i n = Some k"
proof (cases "find_from P i n")
  case None
  with assms show ?thesis by (auto simp: find_from_None)
next
  case (Some j)
  with find_from_Some [OF Some] assms show ?thesis by (metis linorder_neqE_nat)
qed

section \<open>Loops that may fail\<close>

primrec foldM :: "('a \<Rightarrow> 's \<Rightarrow> 's option) \<Rightarrow> 'a list \<Rightarrow> 's \<Rightarrow> 's option" where
  "foldM f [] s = Some s"
| "foldM f (x # xs) s = Option.bind (f x s) (foldM f xs)"

lemma foldM_inv:
  assumes "P s" "\<And>x s. x \<in> set xs \<Longrightarrow> P s \<Longrightarrow> \<exists>s'. f x s = Some s' \<and> P s'"
  shows "\<exists>s'. foldM f xs s = Some s' \<and> P s'"
  using assms
proof (induction xs arbitrary: s)
  case (Cons x xs)
  then obtain s1 where "f x s = Some s1" "P s1" by (meson list.set_intros(1))
  moreover have "\<exists>s'. foldM f xs s1 = Some s' \<and> P s'" by (rule Cons.IH) (use Cons.prems \<open>P s1\<close> in auto)
  ultimately show ?case by simp
qed simp

end
