(* ===== verification/Page_Alloc.thy ===== *)
theory Page_Alloc
  imports Prelude
begin

text \<open>
  The physical page allocator, \<^verbatim>\<open>src/src/kernel/page_alloc.c\<close>.  The state is the allocator's static
  variables together with physical memory, one 64-bit cell for each 8-byte aligned physical
  address: the free list is threaded through the first cell of every free page, exactly as
  \<^verbatim>\<open>struct page_node\<close> does.  Every function works on the extensible record, so that the heap and
  the MMU, which own the same memory, can call it on their own larger states.
  Critical sections under \<^verbatim>\<open>page_lock\<close> are single steps; log output is not part of the state.
  Counters that can wrap are written with \<open>add64\<close> and \<open>sub64\<close>; loop cursors step over page
  addresses inside the RAM window, where 64-bit arithmetic is exact.
\<close>

section \<open>Constants and data\<close>

abbreviation PAGE_SIZE :: nat where "PAGE_SIZE \<equiv> 4096"
abbreviation QEMU_VIRT_RAM_BASE :: nat where "QEMU_VIRT_RAM_BASE \<equiv> 0x40000000"
abbreviation QEMU_VIRT_RAM_SIZE :: nat where "QEMU_VIRT_RAM_SIZE \<equiv> 0x08000000"
abbreviation QEMU_VIRT_RAM_END :: nat where "QEMU_VIRT_RAM_END \<equiv> 0x48000000"
abbreviation QEMU_VIRT_MAX_PAGES :: nat where "QEMU_VIRT_MAX_PAGES \<equiv> 32768"
abbreviation KERNEL_VA_OFFSET :: nat where "KERNEL_VA_OFFSET \<equiv> 0xFFFF000000000000"

abbreviation PAGE_STATE_UNUSED :: u8 where "PAGE_STATE_UNUSED \<equiv> 0"
abbreviation PAGE_STATE_FREE :: u8 where "PAGE_STATE_FREE \<equiv> 1"
abbreviation PAGE_STATE_ALLOCATED :: u8 where "PAGE_STATE_ALLOCATED \<equiv> 2"

record page =
  pg_state :: u8
  pg_ref_count :: u16

record palloc =
  mmu_enabled :: bool
  mem :: "nat \<Rightarrow> u64"
  page_free_list_pa :: nat
  total_pages :: nat
  free_pages :: nat
  reserved_bytes :: nat
  managed_start :: nat
  managed_end :: nat
  invalid_free_count :: nat
  double_free_count :: nat
  pages :: "nat \<Rightarrow> page"

section \<open>Addresses\<close>

definition pa_to_va :: "nat \<Rightarrow> nat" where
  "pa_to_va pa = add64 pa KERNEL_VA_OFFSET"

definition va_to_pa :: "nat \<Rightarrow> nat" where
  "va_to_pa va = (if KERNEL_VA_OFFSET \<le> va then va - KERNEL_VA_OFFSET else va)"

definition page_pa_to_ptr :: "'a palloc_scheme \<Rightarrow> nat \<Rightarrow> nat" where
  "page_pa_to_ptr s pa = (if mmu_enabled s then pa_to_va pa else pa)"

definition page_ptr_to_pa :: "'a palloc_scheme \<Rightarrow> nat \<Rightarrow> nat" where
  "page_ptr_to_pa s ptr =
     (if mmu_enabled s \<and> KERNEL_VA_OFFSET \<le> ptr then va_to_pa ptr else ptr)"

text \<open>
  A load or store by the CPU: with the MMU on, kernel pointers go through the linear TTBR1 map;
  with it off, a pointer is a physical address.
\<close>

definition cpu_pa :: "'a palloc_scheme \<Rightarrow> nat \<Rightarrow> nat" where
  "cpu_pa s ptr = (if mmu_enabled s then va_to_pa ptr else ptr)"

definition load64 :: "'a palloc_scheme \<Rightarrow> nat \<Rightarrow> u64" where
  "load64 s ptr = mem s (cpu_pa s ptr)"

definition store64 :: "nat \<Rightarrow> u64 \<Rightarrow> 'a palloc_scheme \<Rightarrow> 'a palloc_scheme" where
  "store64 ptr v s = s\<lparr>mem := (mem s)(cpu_pa s ptr := v)\<rparr>"

fun zero_words :: "nat \<Rightarrow> nat \<Rightarrow> nat \<Rightarrow> 'a palloc_scheme \<Rightarrow> 'a palloc_scheme" where
  "zero_words ptr index 0 s = s"
| "zero_words ptr index (Suc n) s = zero_words ptr (Suc index) n (store64 (ptr + 8 * index) 0 s)"

definition zero_page :: "nat \<Rightarrow> 'a palloc_scheme \<Rightarrow> 'a palloc_scheme" where
  "zero_page page_pa s = zero_words (page_pa_to_ptr s page_pa) 0 (PAGE_SIZE div 8) s"

definition page_index_from_address :: "nat \<Rightarrow> nat" where
  "page_index_from_address address = sub64 address QEMU_VIRT_RAM_BASE div PAGE_SIZE"

definition page_address_is_in_ram :: "nat \<Rightarrow> bool" where
  "page_address_is_in_ram address \<longleftrightarrow>
     QEMU_VIRT_RAM_BASE \<le> address \<and> address < QEMU_VIRT_RAM_BASE + QEMU_VIRT_RAM_SIZE"

definition page_state_name_from_value :: "u8 \<Rightarrow> string" where
  "page_state_name_from_value state =
     (if state = PAGE_STATE_UNUSED then ''unused''
      else if state = PAGE_STATE_FREE then ''free''
      else if state = PAGE_STATE_ALLOCATED then ''allocated''
      else ''unknown'')"

text \<open>Field updates of one entry of \<^verbatim>\<open>pages[]\<close>.\<close>

definition set_page_state :: "nat \<Rightarrow> u8 \<Rightarrow> 'a palloc_scheme \<Rightarrow> 'a palloc_scheme" where
  "set_page_state idx v s =
     s\<lparr>pages := (pages s)(idx := (pages s idx)\<lparr>pg_state := v\<rparr>)\<rparr>"

definition set_page_ref :: "nat \<Rightarrow> u16 \<Rightarrow> 'a palloc_scheme \<Rightarrow> 'a palloc_scheme" where
  "set_page_ref idx v s =
     s\<lparr>pages := (pages s)(idx := (pages s idx)\<lparr>pg_ref_count := v\<rparr>)\<rparr>"

text \<open>Pushing a page on the free list: the three statements every free path shares.\<close>

definition push_free_page :: "nat \<Rightarrow> 'a palloc_scheme \<Rightarrow> 'a palloc_scheme" where
  "push_free_page page_addr s =
     (store64 (page_pa_to_ptr s page_addr) (word_of_nat (page_free_list_pa s)) s)
       \<lparr>page_free_list_pa := page_addr\<rparr>"

section \<open>Operations\<close>

text \<open>The walk over the free list; a cyclic list would never end, so the result is optional.\<close>

partial_function (option) count_nodes_from :: "'a palloc_scheme \<Rightarrow> nat \<Rightarrow> nat \<Rightarrow> nat option" where
  "count_nodes_from s node_pa count =
     (if node_pa = 0 then Some count
      else count_nodes_from s
             (page_ptr_to_pa s (unat (load64 s (page_pa_to_ptr s node_pa)))) (add64 count 1))"

definition count_free_list_nodes :: "'a palloc_scheme \<Rightarrow> nat option" where
  "count_free_list_nodes s = count_nodes_from s (page_free_list_pa s) 0"

function rebuild_from :: "nat \<Rightarrow> nat \<Rightarrow> 'a palloc_scheme \<Rightarrow> 'a palloc_scheme" where
  "rebuild_from start page_addr s =
     (if start \<le> page_addr then
        (let s' = (if pg_state (pages s (page_index_from_address page_addr)) = PAGE_STATE_FREE
                   then push_free_page page_addr s else s)
         in if page_addr = start then s' else rebuild_from start (page_addr - PAGE_SIZE) s')
      else s)"
  by pat_completeness auto
termination
  by (relation "measure (\<lambda>(start, page_addr, s). page_addr)") auto

definition page_allocator_rebuild_free_list :: "'a palloc_scheme \<Rightarrow> 'a palloc_scheme" where
  "page_allocator_rebuild_free_list s =
     rebuild_from (managed_start s) (sub64 (managed_end s) PAGE_SIZE) (s\<lparr>page_free_list_pa := 0\<rparr>)"

function init_free_from :: "nat \<Rightarrow> nat \<Rightarrow> 'a palloc_scheme \<Rightarrow> 'a palloc_scheme" where
  "init_free_from end_pa page_addr s =
     (if page_addr + PAGE_SIZE \<le> end_pa then
        (let s1 = push_free_page page_addr s;
             s2 = set_page_state (page_index_from_address page_addr) PAGE_STATE_FREE s1
         in init_free_from end_pa (page_addr + PAGE_SIZE)
              (s2\<lparr>total_pages := add64 (total_pages s2) 1, free_pages := add64 (free_pages s2) 1\<rparr>))
      else s)"
  by pat_completeness auto
termination
  by (relation "measure (\<lambda>(end_pa, page_addr, s). end_pa - page_addr)") auto

text \<open>\<open>kernel_end\<close> is the linker symbol \<^verbatim>\<open>__kernel_end\<close>.\<close>

definition page_allocator_init :: "nat \<Rightarrow> 'a palloc_scheme \<Rightarrow> 'a palloc_scheme" where
  "page_allocator_init kernel_end s =
     (let ram_end = QEMU_VIRT_RAM_BASE + QEMU_VIRT_RAM_SIZE;
          start = align_up64 (va_to_pa kernel_end) PAGE_SIZE;
          s1 = s\<lparr>managed_start := start, managed_end := ram_end,
                 reserved_bytes := sub64 start QEMU_VIRT_RAM_BASE,
                 page_free_list_pa := 0, total_pages := 0, free_pages := 0,
                 invalid_free_count := 0, double_free_count := 0,
                 pages := (\<lambda>i. if i < QEMU_VIRT_MAX_PAGES
                               then (pages s i)\<lparr>pg_state := PAGE_STATE_UNUSED, pg_ref_count := 0\<rparr>
                               else pages s i)\<rparr>
      in init_free_from ram_end start s1)"

definition page_alloc :: "'a palloc_scheme \<Rightarrow> nat \<times> 'a palloc_scheme" where
  "page_alloc s =
     (let page_pa = page_free_list_pa s in
      if page_pa = 0 then (0, s)
      else
        (let s1 = s\<lparr>page_free_list_pa :=
                     page_ptr_to_pa s (unat (load64 s (page_pa_to_ptr s page_pa)))\<rparr>;
             idx = page_index_from_address page_pa;
             s2 = set_page_ref idx 1 (set_page_state idx PAGE_STATE_ALLOCATED s1);
             s3 = s2\<lparr>free_pages := sub64 (free_pages s2) 1\<rparr>
         in (page_pa, zero_page page_pa s3)))"

text \<open>The scan for the first run of \<open>page_count\<close> free pages.\<close>

function find_run :: "'a palloc_scheme \<Rightarrow> nat \<Rightarrow> nat \<Rightarrow> nat \<Rightarrow> nat \<Rightarrow> nat option" where
  "find_run s page_count page_addr run_start run_length =
     (if page_addr < managed_end s then
        (if pg_state (pages s (page_index_from_address page_addr)) = PAGE_STATE_FREE then
           (let run_start' = (if run_length = 0 then page_addr else run_start);
                run_length' = run_length + 1
            in if run_length' = page_count then Some run_start'
               else find_run s page_count (page_addr + PAGE_SIZE) run_start' run_length')
         else find_run s page_count (page_addr + PAGE_SIZE) run_start 0)
      else None)"
  by pat_completeness auto
termination
  by (relation "measure (\<lambda>(s, page_count, page_addr, run_start, run_length).
        managed_end s - page_addr)") auto

fun take_run :: "nat \<Rightarrow> nat \<Rightarrow> nat \<Rightarrow> 'a palloc_scheme \<Rightarrow> 'a palloc_scheme" where
  "take_run run_start offset 0 s = s"
| "take_run run_start offset (Suc n) s =
     (let alloc_addr = run_start + offset * PAGE_SIZE;
          alloc_idx = page_index_from_address alloc_addr
      in take_run run_start (Suc offset) n
           (zero_page alloc_addr
             (set_page_ref alloc_idx 1 (set_page_state alloc_idx PAGE_STATE_ALLOCATED s))))"

definition page_alloc_contiguous :: "nat \<Rightarrow> 'a palloc_scheme \<Rightarrow> nat \<times> 'a palloc_scheme" where
  "page_alloc_contiguous page_count s =
     (if page_count = 0 \<or> free_pages s < page_count then (0, s)
      else case find_run s page_count (managed_start s) 0 0 of
             None \<Rightarrow> (0, s)
           | Some run_start \<Rightarrow>
               (let s1 = take_run run_start 0 page_count s;
                    s2 = s1\<lparr>free_pages := sub64 (free_pages s1) page_count\<rparr>
                in (run_start, page_allocator_rebuild_free_list s2)))"

definition page_free :: "nat \<Rightarrow> 'a palloc_scheme \<Rightarrow> 'a palloc_scheme" where
  "page_free page_addr s =
     (if page_addr = 0 then s
      else if page_addr AND (PAGE_SIZE - 1) \<noteq> 0 then
        s\<lparr>invalid_free_count := add64 (invalid_free_count s) 1\<rparr>
      else if page_addr < managed_start s \<or> managed_end s \<le> page_addr then
        s\<lparr>invalid_free_count := add64 (invalid_free_count s) 1\<rparr>
      else
        (let idx = page_index_from_address page_addr in
         if pg_state (pages s idx) \<noteq> PAGE_STATE_ALLOCATED then
           s\<lparr>double_free_count := add64 (double_free_count s) 1\<rparr>
         else if 1 < pg_ref_count (pages s idx) then
           set_page_ref idx (pg_ref_count (pages s idx) - 1) s
         else
           (let s1 = push_free_page page_addr (set_page_ref idx 0 s);
                s2 = set_page_state idx PAGE_STATE_FREE s1
            in s2\<lparr>free_pages := add64 (free_pages s2) 1\<rparr>)))"

definition page_ref_inc :: "nat \<Rightarrow> 'a palloc_scheme \<Rightarrow> 'a palloc_scheme" where
  "page_ref_inc pa s =
     (if pa < managed_start s \<or> managed_end s \<le> pa then s
      else
        (let idx = page_index_from_address pa in
         if pg_state (pages s idx) \<noteq> PAGE_STATE_ALLOCATED \<or> pg_ref_count (pages s idx) = 0 \<or>
            pg_ref_count (pages s idx) = NOT 0
         then s
         else set_page_ref idx (pg_ref_count (pages s idx) + 1) s))"

definition page_ref_dec :: "nat \<Rightarrow> 'a palloc_scheme \<Rightarrow> bool \<times> 'a palloc_scheme" where
  "page_ref_dec pa s =
     (if pa < managed_start s \<or> managed_end s \<le> pa then (False, s)
      else
        (let idx = page_index_from_address pa in
         if pg_state (pages s idx) \<noteq> PAGE_STATE_ALLOCATED \<or> pg_ref_count (pages s idx) = 0
         then (False, s)
         else
           (let s1 = set_page_ref idx (pg_ref_count (pages s idx) - 1) s in
            if pg_ref_count (pages s1 idx) \<noteq> 0 then (False, s1)
            else
              (let s2 = set_page_state idx PAGE_STATE_FREE (push_free_page pa s1)
               in (True, s2\<lparr>free_pages := add64 (free_pages s2) 1\<rparr>)))))"

definition page_ref_get :: "'a palloc_scheme \<Rightarrow> nat \<Rightarrow> u32" where
  "page_ref_get s pa =
     (if pa < managed_start s \<or> managed_end s \<le> pa then 0
      else
        (let idx = page_index_from_address pa in
         if pg_state (pages s idx) \<noteq> PAGE_STATE_ALLOCATED then 0
         else ucast (pg_ref_count (pages s idx))))"

fun release_run :: "nat \<Rightarrow> nat \<Rightarrow> nat \<Rightarrow> 'a palloc_scheme \<Rightarrow> 'a palloc_scheme" where
  "release_run page_addr offset 0 s = s"
| "release_run page_addr offset (Suc n) s =
     release_run page_addr (Suc offset) n
       (set_page_state (page_index_from_address (page_addr + offset * PAGE_SIZE)) PAGE_STATE_FREE s)"

definition page_free_contiguous :: "nat \<Rightarrow> nat \<Rightarrow> 'a palloc_scheme \<Rightarrow> 'a palloc_scheme" where
  "page_free_contiguous page_addr page_count s =
     (if page_addr = 0 \<or> page_count = 0 then s
      else if page_addr AND (PAGE_SIZE - 1) \<noteq> 0 then
        s\<lparr>invalid_free_count := add64 (invalid_free_count s) 1\<rparr>
      else if page_addr < managed_start s \<or>
              managed_end s < add64 page_addr (mul64 page_count PAGE_SIZE) then
        s\<lparr>invalid_free_count := add64 (invalid_free_count s) 1\<rparr>
      else
        case find_from (\<lambda>offset.
               pg_state (pages s (page_index_from_address (page_addr + offset * PAGE_SIZE)))
                 \<noteq> PAGE_STATE_ALLOCATED) 0 page_count of
          Some _ \<Rightarrow> s\<lparr>double_free_count := add64 (double_free_count s) 1\<rparr>
        | None \<Rightarrow>
            (let s1 = release_run page_addr 0 page_count s;
                 s2 = s1\<lparr>free_pages := add64 (free_pages s1) page_count\<rparr>
             in page_allocator_rebuild_free_list s2))"

definition page_allocator_page_state_name :: "'a palloc_scheme \<Rightarrow> nat \<Rightarrow> string" where
  "page_allocator_page_state_name s address =
     (if address AND (PAGE_SIZE - 1) \<noteq> 0 then ''unaligned''
      else if \<not> page_address_is_in_ram address then ''out-of-range''
      else page_state_name_from_value (pg_state (pages s (page_index_from_address address))))"

text \<open>The consistency check: the scan over the managed pages counts free, allocated and other.\<close>

function scan_states :: "'a palloc_scheme \<Rightarrow> nat \<Rightarrow> nat \<times> nat \<times> nat \<Rightarrow> nat \<times> nat \<times> nat" where
  "scan_states s page_addr (state_free_pages, state_allocated_pages, mismatches) =
     (if page_addr < managed_end s then
        (let state = pg_state (pages s (page_index_from_address page_addr)) in
         scan_states s (page_addr + PAGE_SIZE)
           (if state = PAGE_STATE_FREE
            then (state_free_pages + 1, state_allocated_pages, mismatches)
            else if state = PAGE_STATE_ALLOCATED
            then (state_free_pages, state_allocated_pages + 1, mismatches)
            else (state_free_pages, state_allocated_pages, mismatches + 1)))
      else (state_free_pages, state_allocated_pages, mismatches))"
  by pat_completeness auto
termination
  by (relation "measure (\<lambda>(s, page_addr, c). managed_end s - page_addr)") auto

definition page_allocator_check_consistency :: "'a palloc_scheme \<Rightarrow> nat option" where
  "page_allocator_check_consistency s =
     (let (state_free_pages, state_allocated_pages, mismatches) =
            scan_states s (managed_start s) (0, 0, 0)
      in case count_free_list_nodes s of
           None \<Rightarrow> None
         | Some free_list_nodes \<Rightarrow>
             Some (mismatches
                   + (if state_free_pages + state_allocated_pages \<noteq> total_pages s then 1 else 0)
                   + (if state_free_pages \<noteq> free_pages s then 1 else 0)
                   + (if free_list_nodes \<noteq> free_pages s then 1 else 0)))"


section \<open>Specification\<close>

abbreviation pstate :: "'a palloc_scheme \<Rightarrow> nat \<Rightarrow> u8" where
  "pstate s pa \<equiv> pg_state (pages s (page_index_from_address pa))"

abbreviation pref :: "'a palloc_scheme \<Rightarrow> nat \<Rightarrow> u16" where
  "pref s pa \<equiv> pg_ref_count (pages s (page_index_from_address pa))"

text \<open>A page whose words are all cleared.\<close>

definition clear_page :: "nat \<Rightarrow> (nat \<Rightarrow> u64) \<Rightarrow> nat \<Rightarrow> u64" where
  "clear_page pa m a = (if pa \<le> a \<and> a < pa + PAGE_SIZE \<and> 8 dvd (a - pa) then 0 else m a)"

text \<open>The page-aligned addresses of the RAM window, and those the allocator manages.\<close>

definition ram_page :: "nat \<Rightarrow> bool" where
  "ram_page pa \<longleftrightarrow> QEMU_VIRT_RAM_BASE \<le> pa \<and> pa < QEMU_VIRT_RAM_END \<and> PAGE_SIZE dvd pa"

definition managed :: "'a palloc_scheme \<Rightarrow> nat set" where
  "managed s = {pa. managed_start s \<le> pa \<and> pa < managed_end s \<and> PAGE_SIZE dvd pa}"

definition free_set :: "'a palloc_scheme \<Rightarrow> nat set" where
  "free_set s = {pa \<in> managed s. pstate s pa = PAGE_STATE_FREE}"

text \<open>The contract: which managed pages are handed out, and with how many references.\<close>

definition owned :: "'a palloc_scheme \<Rightarrow> nat \<rightharpoonup> nat" where
  "owned s pa = (if pa \<in> managed s \<and> pstate s pa = PAGE_STATE_ALLOCATED
                 then Some (unat (pref s pa)) else None)"

definition nz :: "nat \<Rightarrow> nat option" where
  "nz a = (if a = 0 then None else Some a)"

definition free_link :: "'a palloc_scheme \<Rightarrow> nat \<Rightarrow> nat option" where
  "free_link s pa = nz (page_ptr_to_pa s (unat (load64 s (page_pa_to_ptr s pa))))"

definition free_list :: "'a palloc_scheme \<Rightarrow> nat list \<Rightarrow> bool" where
  "free_list s fl \<longleftrightarrow> chain (free_link s) (nz (page_free_list_pa s)) fl"

definition window_ok :: "'a palloc_scheme \<Rightarrow> bool" where
  "window_ok s \<longleftrightarrow> QEMU_VIRT_RAM_BASE \<le> managed_start s \<and> managed_start s \<le> managed_end s \<and>
     managed_end s \<le> QEMU_VIRT_RAM_END \<and> PAGE_SIZE dvd managed_start s \<and> PAGE_SIZE dvd managed_end s"

definition page_ok :: "'a palloc_scheme \<Rightarrow> nat \<Rightarrow> bool" where
  "page_ok s pa \<longleftrightarrow> pstate s pa = PAGE_STATE_FREE \<or> (pstate s pa = PAGE_STATE_ALLOCATED \<and> pref s pa \<noteq> 0)"

definition palloc_inv :: "'a palloc_scheme \<Rightarrow> bool" where
  "palloc_inv s \<longleftrightarrow> window_ok s \<and>
     (\<exists>fl. free_list s fl \<and> set fl = free_set s \<and> free_pages s = length fl) \<and>
     total_pages s = card (managed s) \<and> (\<forall>pa \<in> managed s. page_ok s pa)"

definition page_range :: "nat \<Rightarrow> nat \<Rightarrow> nat list" where
  "page_range start n = map (\<lambda>k. start + PAGE_SIZE * k) [0..<n]"

text \<open>A run of \<open>n\<close> free pages starting at \<open>r\<close>, and clearing a set of pages.\<close>

definition free_run :: "'a palloc_scheme \<Rightarrow> nat \<Rightarrow> nat \<Rightarrow> bool" where
  "free_run s n r \<longleftrightarrow> set (page_range r n) \<subseteq> free_set s"

definition clear_pages :: "nat set \<Rightarrow> (nat \<Rightarrow> u64) \<Rightarrow> nat \<Rightarrow> u64" where
  "clear_pages A m a = (if \<exists>pa \<in> A. pa \<le> a \<and> a < pa + PAGE_SIZE \<and> 8 dvd (a - pa) then 0 else m a)"

text \<open>The reference-count operations of the contract.\<close>

definition release :: "nat \<Rightarrow> (nat \<rightharpoonup> nat) \<Rightarrow> nat \<rightharpoonup> nat" where
  "release pa m = (case m pa of None \<Rightarrow> m
                   | Some n \<Rightarrow> if 1 < n then m(pa \<mapsto> n - 1) else m(pa := None))"

definition retain :: "nat \<Rightarrow> (nat \<rightharpoonup> nat) \<Rightarrow> nat \<rightharpoonup> nat" where
  "retain pa m = (case m pa of None \<Rightarrow> m
                  | Some n \<Rightarrow> if n < 65535 then m(pa \<mapsto> n + 1) else m)"

text \<open>What no operation but initialisation changes.\<close>

definition same_window :: "'a palloc_scheme \<Rightarrow> 'a palloc_scheme \<Rightarrow> bool" where
  "same_window s s' \<longleftrightarrow> mmu_enabled s' = mmu_enabled s \<and> managed_start s' = managed_start s \<and>
     managed_end s' = managed_end s \<and> total_pages s' = total_pages s \<and>
     palloc.more s' = palloc.more s"

text \<open>
  Everything that can happen to the allocator after boot: calls of its interface, stores by an
  owner to a page it holds, and the switch from physical to virtual pointers when the MMU is
  turned on.  Reference counts are taken on page addresses, and ranges do not wrap.
\<close>

inductive palloc_step :: "'a palloc_scheme \<Rightarrow> 'a palloc_scheme \<Rightarrow> bool" where
  alloc: "page_alloc s = (pa, s') \<Longrightarrow> palloc_step s s'"
| alloc_contiguous: "page_alloc_contiguous n s = (pa, s') \<Longrightarrow> palloc_step s s'"
| free: "palloc_step s (page_free pa s)"
| free_contiguous: "pa + n * PAGE_SIZE < two64 \<Longrightarrow> palloc_step s (page_free_contiguous pa n s)"
| ref_inc: "PAGE_SIZE dvd pa \<Longrightarrow> palloc_step s (page_ref_inc pa s)"
| ref_dec: "PAGE_SIZE dvd pa \<Longrightarrow> page_ref_dec pa s = (r, s') \<Longrightarrow> palloc_step s s'"
| owner_write: "owned s pa = Some n \<Longrightarrow> pa \<le> a \<Longrightarrow> a < pa + PAGE_SIZE \<Longrightarrow>
    palloc_step s (s\<lparr>mem := (mem s)(a := v)\<rparr>)"
| mmu_on: "palloc_step s (s\<lparr>mmu_enabled := True\<rparr>)"

text \<open>A machine whose kernel image leaves two pages of RAM to the allocator.\<close>

definition two_page_boot :: palloc where
  "two_page_boot = page_allocator_init (QEMU_VIRT_RAM_END - 2 * PAGE_SIZE)
     \<lparr>mmu_enabled = False, mem = (\<lambda>_. 7), page_free_list_pa = 0, total_pages = 0, free_pages = 0,
      reserved_bytes = 0, managed_start = 0, managed_end = 0, invalid_free_count = 0,
      double_free_count = 0, pages = (\<lambda>_. \<lparr>pg_state = 0, pg_ref_count = 0\<rparr>)\<rparr>"

definition two_pages_held :: palloc where
  "two_pages_held = snd (page_alloc_contiguous 2 two_page_boot)"

section \<open>Memory lemmas\<close>

lemma cpu_pa_ptr [simp]: "a < 2 ^ 48 \<Longrightarrow> cpu_pa s (page_pa_to_ptr s a) = a"
  by (simp add: cpu_pa_def page_pa_to_ptr_def pa_to_va_def va_to_pa_def add64_def)

lemma cpu_pa_ptr_offset: "a + k < 2 ^ 48 \<Longrightarrow> cpu_pa s (page_pa_to_ptr s a + k) = a + k"
  by (simp add: cpu_pa_def page_pa_to_ptr_def pa_to_va_def va_to_pa_def add64_def)

lemma page_ptr_to_pa_low [simp]: "a < 2 ^ 48 \<Longrightarrow> page_ptr_to_pa s a = a"
  by (simp add: page_ptr_to_pa_def)

lemma ptr_cong:
  assumes "mmu_enabled s' = mmu_enabled s"
  shows "cpu_pa s' = cpu_pa s" "page_pa_to_ptr s' = page_pa_to_ptr s" "page_ptr_to_pa s' = page_ptr_to_pa s"
  using assms by (simp_all add: fun_eq_iff cpu_pa_def page_pa_to_ptr_def page_ptr_to_pa_def)

lemma zero_words_mem:
  assumes "a + 8 * (i + n) \<le> 2 ^ 48" "ptr = page_pa_to_ptr s a"
  shows "zero_words ptr i n s = s\<lparr>mem := (\<lambda>x. if \<exists>k. i \<le> k \<and> k < i + n \<and> x = a + 8 * k then 0 else mem s x)\<rparr>"
  using assms
proof (induction n arbitrary: i s)
  case (Suc n)
  have st: "store64 (ptr + 8 * i) 0 s = s\<lparr>mem := (mem s)(a + 8 * i := 0)\<rparr>"
    using Suc.prems by (simp add: store64_def cpu_pa_ptr_offset)
  have ex: "(\<exists>k\<ge>i. k < Suc (i + n) \<and> x = a + 8 * k) \<longleftrightarrow>
      x = a + 8 * i \<or> (\<exists>k\<ge>Suc i. k < Suc (i + n) \<and> x = a + 8 * k)" for x
    by (metis Suc_le_eq le_neq_implies_less le_SucI less_Suc_eq_le order_refl le_add1)
  let ?t = "s\<lparr>mem := (mem s)(a + 8 * i := 0)\<rparr>"
  have "page_pa_to_ptr ?t = page_pa_to_ptr s"
    by (rule ptr_cong) simp
  with Suc.prems have "zero_words ptr (Suc i) n ?t =
      ?t\<lparr>mem := \<lambda>x. if \<exists>k\<ge>Suc i. k < Suc i + n \<and> x = a + 8 * k then 0 else mem ?t x\<rparr>"
    by (intro Suc.IH) simp_all
  then show ?case
    by (simp add: st ex fun_upd_def) (rule palloc.fold_congs; auto simp: fun_eq_iff)
next
  case 0
  have "(\<lambda>x. if \<exists>k\<ge>i. k < i + 0 \<and> x = a + 8 * k then 0 else mem s x) = mem s"
    by (auto simp: fun_eq_iff)
  then show ?case
    by (simp only: zero_words.simps) simp
qed

lemma zero_page_mem: "pa + PAGE_SIZE \<le> 2 ^ 48 \<Longrightarrow> zero_page pa s = s\<lparr>mem := clear_page pa (mem s)\<rparr>"
proof -
  assume pa: "pa + PAGE_SIZE \<le> 2 ^ 48"
  have "(\<exists>k. 0 \<le> k \<and> k < 0 + 512 \<and> x = pa + 8 * k) \<longleftrightarrow>
      pa \<le> x \<and> x < pa + PAGE_SIZE \<and> 8 dvd (x - pa)" for x
    by (auto simp: dvd_def intro!: exI [of _ "(x - pa) div 8"])
  with pa show ?thesis
    by (simp add: zero_page_def zero_words_mem [of pa 0 512] clear_page_def [abs_def])
qed

lemma clear_page_simps [simp]:
  "clear_page pa m pa = 0"
  "a < pa \<Longrightarrow> clear_page pa m a = m a"
  "pa + PAGE_SIZE \<le> a \<Longrightarrow> clear_page pa m a = m a"
  by (simp_all add: clear_page_def)

lemma clear_other_page:
  "PAGE_SIZE dvd pa \<Longrightarrow> PAGE_SIZE dvd a \<Longrightarrow> a \<noteq> pa \<Longrightarrow> clear_page pa m a = m a"
  by (auto simp: clear_page_def dvd_def)

section \<open>The page table of the allocator\<close>

lemma ram_page_bounds: "ram_page pa \<Longrightarrow> 0 < pa \<and> pa + PAGE_SIZE \<le> 2 ^ 48 \<and> pa < 2 ^ 48"
  by (auto simp: ram_page_def)

lemma index_ram: "QEMU_VIRT_RAM_BASE \<le> pa \<Longrightarrow> pa < 2 ^ 48 \<Longrightarrow>
    page_index_from_address pa = (pa - QEMU_VIRT_RAM_BASE) div PAGE_SIZE"
  by (simp add: page_index_from_address_def arith64)

lemma index_inj:
  "ram_page pa \<Longrightarrow> ram_page pb \<Longrightarrow> page_index_from_address pa = page_index_from_address pb \<longleftrightarrow> pa = pb"
  by (auto simp: ram_page_def index_ram dvd_def)

lemma index_bound: "ram_page pa \<Longrightarrow> page_index_from_address pa < QEMU_VIRT_MAX_PAGES"
  by (auto simp: ram_page_def index_ram)

lemma aligned_test: "a AND (PAGE_SIZE - 1) = 0 \<longleftrightarrow> PAGE_SIZE dvd a"
  using and_pow2_minus_1 [of a 12] by (simp add: dvd_eq_mod_eq_0)

lemma managed_ram: "window_ok s \<Longrightarrow> pa \<in> managed s \<Longrightarrow> ram_page pa"
  by (auto simp: window_ok_def managed_def ram_page_def)

lemma finite_managed [simp]: "finite (managed s)"
  by (rule finite_subset [of _ "{..<managed_end s}"]) (auto simp: managed_def)

lemma page_range_simps [simp]:
  "page_range start 0 = []" "length (page_range start n) = n"
  "page_range start (Suc n) = page_range start n @ [start + PAGE_SIZE * n]"
  by (simp_all add: page_range_def)

lemma set_page_range: "set (page_range start n) = {start + PAGE_SIZE * k |k. k < n}"
  by (auto simp: page_range_def)

lemma distinct_page_range: "distinct (page_range start n)"
  by (auto simp: page_range_def distinct_map inj_on_def)

lemma managed_page_range:
  "window_ok s \<Longrightarrow> managed s = set (page_range (managed_start s) ((managed_end s - managed_start s) div PAGE_SIZE))"
proof (intro set_eqI iffI)
  assume w: "window_ok s"
  then obtain ks ke where k: "managed_start s = 4096 * ks" "managed_end s = 4096 * ke" "ks \<le> ke"
    by (auto simp: window_ok_def elim!: dvdE)
  fix x
  show "x \<in> set (page_range (managed_start s) ((managed_end s - managed_start s) div 4096))"
    if "x \<in> managed s"
  proof -
    from that k obtain j where "x = 4096 * j" "ks \<le> j" "j < ke"
      by (auto simp: managed_def elim!: dvdE)
    with k show ?thesis
      by (auto simp: set_page_range intro!: exI [of _ "j - ks"])
  qed
  show "x \<in> managed s"
    if "x \<in> set (page_range (managed_start s) ((managed_end s - managed_start s) div 4096))"
    using that k by (auto simp: set_page_range managed_def)
qed

section \<open>Fields after an update\<close>

lemma set_page_simps [simp]:
  "set_page_state i v (set_page_ref i w s) = s\<lparr>pages := (pages s)(i := (pages s i)\<lparr>pg_state := v, pg_ref_count := w\<rparr>)\<rparr>"
  "set_page_ref i w (set_page_state i v s) = s\<lparr>pages := (pages s)(i := (pages s i)\<lparr>pg_state := v, pg_ref_count := w\<rparr>)\<rparr>"
  by (cases "pages s i"; simp add: set_page_state_def set_page_ref_def)+

lemma push_free_page_eq:
  "pa < 2 ^ 48 \<Longrightarrow> push_free_page pa s =
     s\<lparr>mem := (mem s)(pa := word_of_nat (page_free_list_pa s)), page_free_list_pa := pa\<rparr>"
  by (simp add: push_free_page_def store64_def)

lemma free_link_ram: "pa < 2 ^ 48 \<Longrightarrow> free_link s pa = nz (page_ptr_to_pa s (unat (mem s pa)))"
  by (simp add: free_link_def load64_def)

lemma free_list_cong:
  assumes "page_free_list_pa s' = page_free_list_pa s" "mmu_enabled s' = mmu_enabled s"
    and "\<And>pa. pa \<in> set fl \<Longrightarrow> pa < 2 ^ 48 \<and> mem s' pa = mem s pa"
  shows "free_list s' fl = free_list s fl"
  unfolding free_list_def assms(1)
proof (rule chain_cong)
  fix x assume "x \<in> set fl"
  from assms(3) [OF this] show "free_link s' x = free_link s x"
    by (simp add: free_link_ram page_ptr_to_pa_def assms(2))
qed

lemma free_list_push:
  assumes "free_list s fl" "pa \<notin> set fl" "ram_page pa" "\<And>x. x \<in> set fl \<Longrightarrow> ram_page x"
  shows "free_list (push_free_page pa s) (pa # fl)"
proof -
  note low = ram_page_bounds [OF assms(3)]
  let ?t = "push_free_page pa s"
  have t: "?t = s\<lparr>mem := (mem s)(pa := word_of_nat (page_free_list_pa s)), page_free_list_pa := pa\<rparr>"
    using low by (simp add: push_free_page_eq)
  have head: "page_free_list_pa s < 2 ^ 48"
    using assms(1,4) ram_page_bounds by (cases fl) (auto simp: free_list_def nz_def split: if_splits)
  have "free_link ?t pa = nz (page_free_list_pa s)"
    using low head by (simp add: free_link_ram t unat_of_nat take_bit_nat_eq_self)
  moreover have "chain (free_link ?t) (nz (page_free_list_pa s)) fl = chain (free_link s) (nz (page_free_list_pa s)) fl"
  proof (rule chain_cong)
    fix x assume "x \<in> set fl"
    with assms(2,4) ram_page_bounds have "x \<noteq> pa" "x < 2 ^ 48" by auto
    then show "free_link ?t x = free_link s x"
      by (simp add: free_link_ram t page_ptr_to_pa_def)
  qed
  ultimately show ?thesis
    using assms(1) low by (simp add: free_list_def t nz_def)
qed

lemma free_list_pop:
  "free_list s (pa # fl) \<longleftrightarrow> pa \<noteq> 0 \<and> page_free_list_pa s = pa \<and>
     free_list (s\<lparr>page_free_list_pa := page_ptr_to_pa s (unat (load64 s (page_pa_to_ptr s pa)))\<rparr>) fl"
proof -
  have "free_link (s\<lparr>page_free_list_pa := x\<rparr>) = free_link s" for x
    by (simp add: fun_eq_iff free_link_def load64_def page_ptr_to_pa_def page_pa_to_ptr_def cpu_pa_def)
  then show ?thesis
    by (auto simp: free_list_def nz_def free_link_def)
qed

section \<open>The invariant\<close>

lemma card_managed: "window_ok s \<Longrightarrow> card (managed s) = (managed_end s - managed_start s) div PAGE_SIZE"
  by (simp add: managed_page_range distinct_card distinct_page_range)

lemma card_managed_bound: "window_ok s \<Longrightarrow> card (managed s) \<le> QEMU_VIRT_MAX_PAGES"
proof -
  assume w: "window_ok s"
  then have "managed_end s - managed_start s \<le> 4096 * 32768" unfolding window_ok_def by linarith
  then have "(managed_end s - managed_start s) div 4096 \<le> (4096 * 32768) div 4096" by (rule div_le_mono)
  with w show ?thesis by (simp add: card_managed)
qed

lemma free_set_managed: "free_set s \<subseteq> managed s"
  by (auto simp: free_set_def)

lemma palloc_invE:
  assumes "palloc_inv s"
  obtains fl where "free_list s fl" "set fl = free_set s" "free_pages s = length fl" "distinct fl"
    "\<And>pa. pa \<in> set fl \<Longrightarrow> ram_page pa" "window_ok s" "length fl \<le> QEMU_VIRT_MAX_PAGES"
proof -
  from assms obtain fl where fl: "free_list s fl" "set fl = free_set s" "free_pages s = length fl" "window_ok s"
    by (auto simp: palloc_inv_def)
  from fl(1) have d: "distinct fl" by (auto simp: free_list_def dest: chain_distinct)
  with fl(2) have "length fl = card (free_set s)" by (metis distinct_card)
  also have "\<dots> \<le> QEMU_VIRT_MAX_PAGES"
    using card_mono [OF finite_managed free_set_managed] card_managed_bound [OF fl(4)] by (rule le_trans)
  finally show thesis
    using that fl d managed_ram free_set_managed by blast
qed

lemma free_pages_card: "palloc_inv s \<Longrightarrow> free_pages s = card (free_set s)"
  by (elim palloc_invE) (metis distinct_card)

lemma window_cong: "same_window s s' \<Longrightarrow> managed s' = managed s \<and> window_ok s' = window_ok s"
  by (simp add: same_window_def managed_def window_ok_def)

text \<open>One entry of the page table changes.\<close>

definition page_upd :: "'a palloc_scheme \<Rightarrow> 'a palloc_scheme \<Rightarrow> nat \<Rightarrow> page \<Rightarrow> bool" where
  "page_upd s s' pa p \<longleftrightarrow> window_ok s \<and> same_window s s' \<and> pa \<in> managed s \<and>
     pages s' = (pages s)(page_index_from_address pa := p)"

lemma pages_upd: "page_upd s s' pa p \<Longrightarrow> pb \<in> managed s \<Longrightarrow> pages s' (page_index_from_address pb) =
    (if pb = pa then p else pages s (page_index_from_address pb))"
  using index_inj [OF managed_ram managed_ram, of s pb s pa] by (auto simp: page_upd_def)

lemma page_upd_managed: "page_upd s s' pa p \<Longrightarrow> managed s' = managed s \<and> pa \<in> managed s \<and> window_ok s'"
  using window_cong by (auto simp: page_upd_def)

lemma free_set_upd: "page_upd s s' pa p \<Longrightarrow>
    free_set s' = (if pg_state p = PAGE_STATE_FREE then insert pa (free_set s) else free_set s - {pa})"
  using page_upd_managed [of s s' pa p] by (auto simp: free_set_def pages_upd split: if_splits)

lemma owned_upd: "page_upd s s' pa p \<Longrightarrow>
    owned s' = (owned s)(pa := if pg_state p = PAGE_STATE_ALLOCATED then Some (unat (pg_ref_count p)) else None)"
  using page_upd_managed [of s s' pa p] by (auto simp: owned_def fun_eq_iff pages_upd split: if_splits)

lemma palloc_inv_upd:
  assumes "page_upd s s' pa p" "palloc_inv s" "free_list s' fl" "set fl = free_set s'"
    "free_pages s' = length fl"
    "pg_state p = PAGE_STATE_FREE \<or> pg_state p = PAGE_STATE_ALLOCATED \<and> pg_ref_count p \<noteq> 0"
  shows "palloc_inv s'"
proof -
  have "total_pages s' = total_pages s" using assms(1) by (simp add: page_upd_def same_window_def)
  with assms page_upd_managed [OF assms(1)] pages_upd [OF assms(1)] show ?thesis
    by (auto simp: palloc_inv_def page_ok_def)
qed

section \<open>Single pages\<close>

lemma page_alloc_empty: "palloc_inv s \<Longrightarrow> free_set s = {} \<Longrightarrow> page_alloc s = (0, s)"
  by (elim palloc_invE) (auto simp: page_alloc_def free_list_def nz_def split: if_splits)

lemma page_alloc_nonempty:
  assumes "palloc_inv s" "free_set s \<noteq> {}"
  obtains pa s' where "page_alloc s = (pa, s')" "pa \<in> free_set s" "pa = page_free_list_pa s"
    "page_upd s s' pa \<lparr>pg_state = PAGE_STATE_ALLOCATED, pg_ref_count = 1\<rparr>" "palloc_inv s'"
    "mem s' = clear_page pa (mem s)"
proof -
  from assms(1) obtain fl0 where fl0: "free_list s fl0" "set fl0 = free_set s" "free_pages s = length fl0"
    "distinct fl0" "\<And>pa. pa \<in> set fl0 \<Longrightarrow> ram_page pa" and w: "window_ok s"
    and len: "length fl0 \<le> QEMU_VIRT_MAX_PAGES"
    by (rule palloc_invE) blast
  from assms(2) fl0(2) obtain pa fl where fl: "fl0 = pa # fl" by (cases fl0) auto
  let ?next = "page_ptr_to_pa s (unat (load64 s (page_pa_to_ptr s pa)))"
  let ?p = "\<lparr>pg_state = PAGE_STATE_ALLOCATED, pg_ref_count = 1\<rparr>"
  from fl0(1) fl have pop: "pa \<noteq> 0" "page_free_list_pa s = pa" "free_list (s\<lparr>page_free_list_pa := ?next\<rparr>) fl"
    by (auto simp: free_list_pop)
  have ram: "ram_page pa" "pa \<in> free_set s" using fl0(2,5) fl by auto
  define s' where "s' = s\<lparr>page_free_list_pa := ?next,
      pages := (pages s)(page_index_from_address pa := ?p),
      free_pages := length fl, mem := clear_page pa (mem s)\<rparr>"
  have "length fl0 < two64" using len by simp
  then have sub: "sub64 (length fl0) 1 = length fl" using fl sub64_exact [of 1 "length fl0"] by simp
  have p: "(pages s i)\<lparr>pg_state := 2, pg_ref_count := 1\<rparr> = ?p" for i by (cases "pages s i") simp
  have "page_alloc s = (pa, zero_page pa (s\<lparr>page_free_list_pa := ?next,
      pages := (pages s)(page_index_from_address pa := ?p), free_pages := length fl\<rparr>))"
    using pop(1,2) by (simp add: page_alloc_def Let_def fl0(3) sub p del: One_nat_def)
  then have res: "page_alloc s = (pa, s')"
    using ram_page_bounds [OF ram(1)] by (simp add: s'_def zero_page_mem)
  have upd: "page_upd s s' pa ?p"
    using w ram free_set_managed by (auto simp: page_upd_def same_window_def s'_def)
  have "free_list s' fl = free_list (s\<lparr>page_free_list_pa := ?next\<rparr>) fl"
  proof (rule free_list_cong)
    fix x assume "x \<in> set fl"
    then have "ram_page x" "x \<noteq> pa" using fl0(4,5) fl by auto
    with ram(1) show "x < 2 ^ 48 \<and> mem s' x = mem (s\<lparr>page_free_list_pa := ?next\<rparr>) x"
      by (simp add: s'_def ram_page_def clear_other_page)
  qed (simp_all add: s'_def)
  with pop(3) have "free_list s' fl" by simp
  moreover have "set fl = free_set s'"
    using fl fl0(2,4) by (auto simp: free_set_upd [OF upd])
  ultimately have "palloc_inv s'"
    by (intro palloc_inv_upd [OF upd assms(1)]) (auto simp: s'_def)
  with res ram(2) pop(2) upd show thesis
    by (intro that) (auto simp: s'_def)
qed

text \<open>The free path, shared by \<open>page_free\<close> and the last \<open>page_ref_dec\<close>.\<close>

lemma page_push_last:
  assumes inv: "palloc_inv s" and pa: "pa \<in> managed s" "pstate s pa = PAGE_STATE_ALLOCATED"
    and s1: "s1 = set_page_ref (page_index_from_address pa) 0 s"
    and s2: "s2 = set_page_state (page_index_from_address pa) PAGE_STATE_FREE (push_free_page pa s1)"
    and s': "s' = s2\<lparr>free_pages := add64 (free_pages s2) 1\<rparr>"
  shows "page_upd s s' pa \<lparr>pg_state = PAGE_STATE_FREE, pg_ref_count = 0\<rparr>" "palloc_inv s'"
    "mem s' = (mem s)(pa := mem s' pa)" "double_free_count s' = double_free_count s"
    "invalid_free_count s' = invalid_free_count s"
proof -
  from inv obtain fl where fl: "free_list s fl" "set fl = free_set s" "free_pages s = length fl"
    "\<And>pa. pa \<in> set fl \<Longrightarrow> ram_page pa" and w: "window_ok s" and len: "length fl \<le> QEMU_VIRT_MAX_PAGES"
    by (rule palloc_invE) blast
  have ram: "ram_page pa" using w pa(1) by (rule managed_ram)
  have fresh: "pa \<notin> set fl" using pa(2) by (simp add: fl(2) free_set_def)
  let ?i = "page_index_from_address pa"
  let ?p = "\<lparr>pg_state = PAGE_STATE_FREE, pg_ref_count = 0\<rparr>"
  have p: "(pages s ?i)\<lparr>pg_state := 1, pg_ref_count := 0\<rparr> = ?p" "(pages s ?i)\<lparr>pg_ref_count := 0, pg_state := 1\<rparr> = ?p"
    by (cases "pages s ?i"; simp)+
  have e: "s' = s\<lparr>pages := (pages s)(?i := ?p), mem := (mem s)(pa := word_of_nat (page_free_list_pa s)),
      page_free_list_pa := pa, free_pages := Suc (length fl)\<rparr>"
    using ram_page_bounds [OF ram] add64_exact [of "length fl" 1] len
    by (simp add: s' s2 s1 push_free_page_eq set_page_state_def set_page_ref_def p fl(3))
  show upd: "page_upd s s' pa ?p"
    using w pa by (auto simp: page_upd_def same_window_def e)
  have "free_list (push_free_page pa s) (pa # fl)"
    by (rule free_list_push [OF fl(1) fresh ram fl(4)])
  then have fl': "free_list s' (pa # fl)"
    using ram_page_bounds ram fl(4)
    by (subst free_list_cong [of _ "push_free_page pa s"]) (auto simp: e push_free_page_eq)
  have set': "set (pa # fl) = free_set s'"
    using fl(2) by (simp add: free_set_upd [OF upd])
  show "palloc_inv s'"
    by (rule palloc_inv_upd [OF upd inv fl' set']) (simp_all add: e)
  show "mem s' = (mem s)(pa := mem s' pa)" "double_free_count s' = double_free_count s"
    "invalid_free_count s' = invalid_free_count s"
    by (simp_all add: e)
qed

text \<open>Changing only the reference count of an allocated page.\<close>

lemma page_set_ref:
  assumes inv: "palloc_inv s" and pa: "pa \<in> managed s" "pstate s pa = PAGE_STATE_ALLOCATED" and n: "n \<noteq> 0"
    and s': "s' = set_page_ref (page_index_from_address pa) n s"
  shows "page_upd s s' pa \<lparr>pg_state = PAGE_STATE_ALLOCATED, pg_ref_count = n\<rparr>" "palloc_inv s'" "mem s' = mem s"
proof -
  from inv obtain fl where fl: "free_list s fl" "set fl = free_set s" "free_pages s = length fl"
    "\<And>pa. pa \<in> set fl \<Longrightarrow> ram_page pa" and w: "window_ok s"
    by (rule palloc_invE) blast
  let ?i = "page_index_from_address pa"
  have p: "(pages s ?i)\<lparr>pg_ref_count := n\<rparr> = \<lparr>pg_state = PAGE_STATE_ALLOCATED, pg_ref_count = n\<rparr>"
    using pa(2) by (cases "pages s ?i") simp
  show upd: "page_upd s s' pa \<lparr>pg_state = PAGE_STATE_ALLOCATED, pg_ref_count = n\<rparr>"
    using w pa by (auto simp: page_upd_def same_window_def s' set_page_ref_def p)
  have fl': "free_list s' fl"
    using fl(1,4) ram_page_bounds by (subst free_list_cong [of _ s]) (auto simp: s' set_page_ref_def)
  have set': "set fl = free_set s'"
    using fl(2) pa(2) by (auto simp: free_set_upd [OF upd]) (simp add: free_set_def)
  show "palloc_inv s'"
    using n fl(3) by (intro palloc_inv_upd [OF upd inv fl' set']) (simp_all add: s' set_page_ref_def)
qed (simp add: s' set_page_ref_def)

lemma owned_Some_iff:
  "palloc_inv s \<Longrightarrow> owned s pa = Some n \<longleftrightarrow>
     pa \<in> managed s \<and> pstate s pa = PAGE_STATE_ALLOCATED \<and> n = unat (pref s pa) \<and> 0 < n"
  by (auto simp: owned_def palloc_inv_def page_ok_def unat_gt_0 split: if_splits)

lemma owned_positive: "palloc_inv s \<Longrightarrow> owned s pa \<noteq> Some 0"
  by (simp add: owned_Some_iff)

lemma owned_bound: "owned s pa = Some n \<Longrightarrow> n < 65536"
  using unsigned_less [of "pref s pa", where ?'a = nat] by (auto simp: owned_def split: if_splits)

lemma owned_free_disjoint: "pa \<in> free_set s \<Longrightarrow> owned s pa = None"
  by (auto simp: owned_def free_set_def)

lemma pool_partition: "palloc_inv s \<Longrightarrow> managed s = free_set s \<union> dom (owned s)"
  by (auto simp: palloc_inv_def page_ok_def free_set_def owned_def split: if_splits)

text \<open>
  The invariant reads the allocator's own variables and the link words of the free pages only:
  clients may write to any page they own.
\<close>

definition same_alloc :: "'a palloc_scheme \<Rightarrow> 'b palloc_scheme \<Rightarrow> bool" where
  "same_alloc s s' \<longleftrightarrow> mmu_enabled s' = mmu_enabled s \<and> page_free_list_pa s' = page_free_list_pa s \<and>
     total_pages s' = total_pages s \<and> free_pages s' = free_pages s \<and> managed_start s' = managed_start s \<and>
     managed_end s' = managed_end s \<and> pages s' = pages s"

lemma same_alloc_sets:
  "same_alloc s s' \<Longrightarrow> managed s' = managed s" "same_alloc s s' \<Longrightarrow> free_set s' = free_set s"
  "same_alloc s s' \<Longrightarrow> owned s' = owned s"
  by (auto simp: same_alloc_def managed_def free_set_def owned_def fun_eq_iff)

lemma palloc_inv_cong:
  assumes same: "same_alloc s s'" and m: "\<And>pa. pa \<in> free_set s \<Longrightarrow> mem s' pa = mem s pa"
    and inv: "palloc_inv s"
  shows "palloc_inv s'"
proof -
  from inv obtain fl where fl: "free_list s fl" "set fl = free_set s" "free_pages s = length fl"
    "\<And>pa. pa \<in> set fl \<Longrightarrow> ram_page pa"
    by (rule palloc_invE) blast
  have "chain (free_link s') (nz (page_free_list_pa s)) fl = chain (free_link s) (nz (page_free_list_pa s)) fl"
  proof (rule chain_cong)
    fix x assume "x \<in> set fl"
    with fl(2,4) m ram_page_bounds have "x < 2 ^ 48" "mem s' x = mem s x" by auto
    with same show "free_link s' x = free_link s x"
      by (simp add: free_link_ram page_ptr_to_pa_def same_alloc_def)
  qed
  with fl(1) same have "free_list s' fl" by (simp add: free_list_def same_alloc_def)
  with fl(2,3) inv same show ?thesis
    unfolding palloc_inv_def page_ok_def window_ok_def
    by (simp add: same_alloc_sets [OF same]) (auto simp: same_alloc_def)
qed

lemma counter_upd [simp]:
  "palloc_inv s \<Longrightarrow> palloc_inv (s\<lparr>invalid_free_count := n\<rparr>)" "palloc_inv s \<Longrightarrow> palloc_inv (s\<lparr>double_free_count := n\<rparr>)"
  "owned (s\<lparr>invalid_free_count := n\<rparr>) = owned s" "owned (s\<lparr>double_free_count := n\<rparr>) = owned s"
  "same_window s (s\<lparr>invalid_free_count := n\<rparr>)" "same_window s (s\<lparr>double_free_count := n\<rparr>)"
  by (auto simp: same_window_def same_alloc_def intro!: same_alloc_sets(3) elim: palloc_inv_cong [rotated 2])

lemma same_window_refl [simp]: "same_window s s"
  by (simp add: same_window_def)

lemma page_upd_window: "page_upd s s' pa p \<Longrightarrow> same_window s s'"
  by (simp add: page_upd_def)

lemma page_free_rejects:
  assumes "owned s pa = None"
  shows "page_free pa s =
     (if pa = 0 then s else if pa \<in> managed s then s\<lparr>double_free_count := add64 (double_free_count s) 1\<rparr>
      else s\<lparr>invalid_free_count := add64 (invalid_free_count s) 1\<rparr>)"
  using assms aligned_test [of pa]
  by (auto simp: page_free_def owned_def managed_def Let_def split: if_splits)

lemma page_free_shared:
  assumes "palloc_inv s" "owned s pa = Some n" "1 < n"
  shows "page_free pa s = set_page_ref (page_index_from_address pa) (pref s pa - 1) s" "pref s pa - 1 \<noteq> 0"
    "unat (pref s pa - 1) = n - 1"
proof -
  from assms(1,2) have pa: "pa \<in> managed s" "pstate s pa = PAGE_STATE_ALLOCATED" "n = unat (pref s pa)"
    by (simp_all add: owned_Some_iff)
  with assms(3) have gt: "1 < pref s pa" by (simp add: word_less_nat_alt)
  have "pa \<noteq> 0" using assms(1) pa(1) by (auto simp: palloc_inv_def window_ok_def managed_def)
  with pa gt aligned_test [of pa] show "page_free pa s = set_page_ref (page_index_from_address pa) (pref s pa - 1) s"
    by (auto simp: page_free_def managed_def Let_def)
  show u: "unat (pref s pa - 1) = n - 1"
    using pa(3) assms(3) gt by (simp add: unat_sub word_less_nat_alt word_le_nat_alt)
  show "pref s pa - 1 \<noteq> 0"
    using gt by auto
qed

lemma page_free_last:
  assumes "palloc_inv s" "owned s pa = Some 1"
  shows "page_free pa s = (let s1 = push_free_page pa (set_page_ref (page_index_from_address pa) 0 s);
      s2 = set_page_state (page_index_from_address pa) PAGE_STATE_FREE s1
      in s2\<lparr>free_pages := add64 (free_pages s2) 1\<rparr>)"
proof -
  from assms have pa: "pa \<in> managed s" "pstate s pa = PAGE_STATE_ALLOCATED" "1 = unat (pref s pa)"
    by (simp_all only: owned_Some_iff)
  have "pa \<noteq> 0" using assms(1) pa(1) by (auto simp: palloc_inv_def window_ok_def managed_def)
  with pa aligned_test [of pa] show ?thesis
    by (auto simp: page_free_def managed_def Let_def word_less_nat_alt)
qed

lemma page_free_effect:
  assumes inv: "palloc_inv s"
  shows "palloc_inv (page_free pa s)" "same_window s (page_free pa s)"
    "owned (page_free pa s) = release pa (owned s)"
    "a \<noteq> pa \<or> owned s pa \<noteq> Some 1 \<Longrightarrow> mem (page_free pa s) a = mem s a"
proof -
  let ?s' = "page_free pa s"
  consider "owned s pa = None" | n where "owned s pa = Some n" "1 < n" | "owned s pa = Some 1"
    using owned_positive [OF inv, of pa] by (metis less_one linorder_neqE_nat option.exhaust)
  then have "palloc_inv ?s' \<and> same_window s ?s' \<and> owned ?s' = release pa (owned s) \<and>
      (a \<noteq> pa \<or> owned s pa \<noteq> Some 1 \<longrightarrow> mem ?s' a = mem s a)"
  proof cases
    case 1
    with inv show ?thesis by (simp add: page_free_rejects release_def)
  next
    case 2
    note sh = page_free_shared [OF inv this]
    from inv 2(1) have pa: "pa \<in> managed s" "pstate s pa = PAGE_STATE_ALLOCATED" by (simp_all add: owned_Some_iff)
    note r = page_set_ref [OF inv pa sh(2,1)]
    from 2 sh(3) show ?thesis
      using r(2,3) page_upd_window [OF r(1)] by (simp add: owned_upd [OF r(1)] release_def)
  next
    case 3
    from inv 3 have pa: "pa \<in> managed s" "pstate s pa = PAGE_STATE_ALLOCATED" by (simp_all add: owned_Some_iff)
    note r = page_push_last [OF inv pa refl refl page_free_last [OF inv 3, unfolded Let_def]]
    from r(3) have "a \<noteq> pa \<Longrightarrow> mem ?s' a = mem s a" by (metis fun_upd_other)
    with 3 r(2) page_upd_window [OF r(1)] show ?thesis
      by (simp add: owned_upd [OF r(1)] release_def)
  qed
  then show "palloc_inv ?s'" "same_window s ?s'" "owned ?s' = release pa (owned s)"
    "a \<noteq> pa \<or> owned s pa \<noteq> Some 1 \<Longrightarrow> mem ?s' a = mem s a"
    by simp_all
qed

lemma unat_max_u16: "unat (- 1 :: u16) = 65535"
  by (simp add: unsigned_minus_1_eq_mask mask_eq_exp_minus_1)

lemma page_ref_inc_effect:
  assumes inv: "palloc_inv s" and al: "PAGE_SIZE dvd pa"
  shows "palloc_inv (page_ref_inc pa s)" "same_window s (page_ref_inc pa s)"
    "owned (page_ref_inc pa s) = retain pa (owned s)" "mem (page_ref_inc pa s) = mem s"
proof -
  let ?s' = "page_ref_inc pa s" and ?r = "pref s pa"
  have max: "(NOT 0 :: u16) = - 1" by simp
  have "palloc_inv ?s' \<and> same_window s ?s' \<and> owned ?s' = retain pa (owned s) \<and> mem ?s' = mem s"
  proof (cases "owned s pa")
    case None
    then have "?s' = s" using al by (auto simp: page_ref_inc_def owned_def managed_def Let_def split: if_splits)
    with None inv show ?thesis by (simp add: retain_def)
  next
    case (Some n)
    with inv have pa: "pa \<in> managed s" "pstate s pa = PAGE_STATE_ALLOCATED" and n: "n = unat ?r" "0 < n"
      by (simp_all add: owned_Some_iff)
    show ?thesis
    proof (cases "?r = - 1")
      case True
      then have "?s' = s" by (simp add: page_ref_inc_def Let_def)
      moreover have "n = 65535" using n True by (simp add: unat_max_u16)
      ultimately show ?thesis using Some inv by (simp add: retain_def)
    next
      case False
      then have nz: "?r + 1 \<noteq> 0" by (metis add_eq_0_iff2)
      then have u: "unat (?r + 1) = n + 1" using n(1) unatSuc [of ?r] by (simp add: add.commute)
      have "n + 1 < 65536" using u unsigned_less [of "?r + 1", where ?'a = nat] by simp
      moreover have "?s' = set_page_ref (page_index_from_address pa) (?r + 1) s"
        using pa n False by (auto simp: page_ref_inc_def managed_def Let_def unat_gt_0)
      note r = page_set_ref [OF inv pa nz this]
      ultimately show ?thesis
        using r(2,3) u Some page_upd_window [OF r(1)] by (simp add: owned_upd [OF r(1)] retain_def)
    qed
  qed
  then show "palloc_inv ?s'" "same_window s ?s'" "owned ?s' = retain pa (owned s)" "mem ?s' = mem s"
    by simp_all
qed

lemma page_ref_dec_free:
  assumes inv: "palloc_inv s" and al: "PAGE_SIZE dvd pa"
  shows "page_ref_dec pa s = (owned s pa = Some 1, if owned s pa = None then s else page_free pa s)"
proof -
  consider "owned s pa = None" | n where "owned s pa = Some n" "1 < n" | "owned s pa = Some 1"
    using owned_positive [OF inv, of pa] by (metis less_one linorder_neqE_nat option.exhaust)
  then show ?thesis
  proof cases
    case 1
    then show ?thesis using al by (auto simp: page_ref_dec_def owned_def managed_def Let_def split: if_splits)
  next
    case 2
    note sh = page_free_shared [OF inv this]
    from inv 2(1) have pa: "pa \<in> managed s" "pstate s pa = PAGE_STATE_ALLOCATED" "pref s pa \<noteq> 0"
      by (auto simp: owned_Some_iff)
    with 2 sh show ?thesis
      by (simp add: page_ref_dec_def Let_def managed_def set_page_ref_def)
  next
    case 3
    from inv 3 have pa: "pa \<in> managed s" "pstate s pa = PAGE_STATE_ALLOCATED" "unat (pref s pa) = 1"
      by (auto simp: owned_Some_iff)
    then have "pref s pa = 1" by (metis word_unat_eq_iff unat_1)
    with 3 pa show ?thesis
      by (simp add: page_ref_dec_def page_free_last [OF inv 3] Let_def managed_def set_page_ref_def)
  qed
qed

section \<open>Rebuilding the free list\<close>

declare rebuild_from.simps [simp del] init_free_from.simps [simp del] find_run.simps [simp del]
  scan_states.simps [simp del]

text \<open>Only the list head and the link words of free pages change.\<close>

definition relinked :: "'a palloc_scheme \<Rightarrow> 'a palloc_scheme \<Rightarrow> nat set \<Rightarrow> bool" where
  "relinked s s' A \<longleftrightarrow> (\<exists>m h. s' = s\<lparr>mem := m, page_free_list_pa := h\<rparr> \<and> (\<forall>a. a \<notin> A \<longrightarrow> m a = mem s a))"

lemma relinked_refl: "relinked s s A"
  unfolding relinked_def by (intro exI [of _ "mem s"] exI [of _ "page_free_list_pa s"]) simp

lemma relinked_head: "relinked s (s\<lparr>page_free_list_pa := h\<rparr>) {}"
  unfolding relinked_def by (intro exI [of _ "mem s"] exI [of _ h]) simp

lemma relinked_trans: "relinked s t A \<Longrightarrow> relinked t u B \<Longrightarrow> relinked s u (A \<union> B)"
  unfolding relinked_def by (clarify, rule exI, rule exI) auto

lemma relinked_push: "pa < 2 ^ 48 \<Longrightarrow> relinked s (push_free_page pa s) {pa}"
  by (auto simp: relinked_def push_free_page_eq)

lemma relinked_fields:
  assumes "relinked s s' A"
  shows "pages s' = pages s" "same_window s s'" "free_pages s' = free_pages s"
    "invalid_free_count s' = invalid_free_count s" "double_free_count s' = double_free_count s"
    "reserved_bytes s' = reserved_bytes s" "a \<notin> A \<Longrightarrow> mem s' a = mem s a"
  using assms by (auto simp: relinked_def same_window_def)

text \<open>One iteration of the loop body, and the loop from the top page down.\<close>

abbreviation free_among :: "'a palloc_scheme \<Rightarrow> nat list \<Rightarrow> nat list" where
  "free_among s \<equiv> filter (\<lambda>p. pstate s p = PAGE_STATE_FREE)"

lemma rebuild_step:
  assumes "free_list s fl" "\<And>x. x \<in> set fl \<Longrightarrow> ram_page x \<and> pa < x" "ram_page pa"
    and "s' = (if pstate s pa = PAGE_STATE_FREE then push_free_page pa s else s)"
  shows "free_list s' (free_among s [pa] @ fl)" "relinked s s' (set (free_among s [pa]))"
  using assms free_list_push [of s fl pa] relinked_push [of pa s] ram_page_bounds [of pa] relinked_refl [of s]
  by auto

lemma rebuild_from_spec:
  assumes "free_list s fl" "\<And>x. x \<in> set fl \<Longrightarrow> ram_page x \<and> start + PAGE_SIZE * n < x"
    and "ram_page start" "ram_page (start + PAGE_SIZE * n)" "s' = rebuild_from start (start + PAGE_SIZE * n) s"
  shows "free_list s' (free_among s (page_range start (Suc n)) @ fl) \<and>
    relinked s s' (set (free_among s (page_range start (Suc n))))"
  using assms
proof (induction n arbitrary: s fl s')
  case 0
  have "s' = (if pstate s start = PAGE_STATE_FREE then push_free_page start s else s)"
    using 0(5) by (simp add: rebuild_from.simps [of start start] Let_def)
  then show ?case using rebuild_step [OF 0(1), of start s'] 0(2,3) by simp
next
  case (Suc n)
  let ?pa = "start + PAGE_SIZE * Suc n"
  define s1 where "s1 = (if pstate s ?pa = PAGE_STATE_FREE then push_free_page ?pa s else s)"
  have s': "s' = rebuild_from start (start + PAGE_SIZE * n) s1"
    using Suc.prems(5) rebuild_from.simps [of start ?pa s] by (simp add: Let_def s1_def)
  note st = rebuild_step [OF Suc.prems(1,2,4) s1_def]
  have below: "ram_page (start + PAGE_SIZE * n)"
    using Suc.prems(3,4) by (auto simp: ram_page_def)
  have above: "x \<in> set (free_among s [?pa] @ fl) \<Longrightarrow> ram_page x \<and> start + PAGE_SIZE * n < x" for x
    using Suc.prems(2) [of x] Suc.prems(4) by (auto split: if_splits)
  have p: "pages s1 = pages s" using st(2) by (rule relinked_fields)
  from Suc.IH [OF st(1) above Suc.prems(3) below s'] have ih:
    "free_list s' (free_among s (page_range start (Suc n)) @ free_among s [?pa] @ fl)"
    "relinked s1 s' (set (free_among s (page_range start (Suc n))))"
    by (simp_all only: p)
  have "free_among s (page_range start (Suc (Suc n))) =
      free_among s (page_range start (Suc n)) @ free_among s [?pa]"
    by (simp only: page_range_simps(3) [of _ "Suc n"] filter_append)
  with relinked_trans [OF st(2) ih(2)] ih(1) show ?case
    by (simp only: append_assoc set_append Un_commute simp_thms)
qed

lemma palloc_inv_rebuild:
  assumes w: "window_ok s" and c: "total_pages s = card (managed s)" "free_pages s = card (free_set s)"
    and ok: "\<And>pa. pa \<in> managed s \<Longrightarrow> page_ok s pa"
    and s': "s' = page_allocator_rebuild_free_list s"
  shows "palloc_inv s'" "relinked s s' (free_set s)"
proof -
  define n where "n = (managed_end s - managed_start s) div PAGE_SIZE"
  let ?t = "s\<lparr>page_free_list_pa := 0\<rparr>"
  let ?fl = "free_among s (page_range (managed_start s) n)"
  have set_fl: "set ?fl = free_set s"
    using w by (auto simp: free_set_def managed_page_range n_def)
  have t: "free_list ?t []" "relinked s ?t {}"
    by (simp_all add: free_list_def nz_def relinked_head)
  have "free_list s' ?fl \<and> relinked s s' (free_set s)"
  proof (cases n)
    case 0
    with w have "managed_end s = managed_start s"
      by (auto simp: n_def window_ok_def elim!: dvdE)
    with w have "s' = ?t"
      by (auto simp: s' page_allocator_rebuild_free_list_def rebuild_from.simps arith64 window_ok_def)
    with t 0 set_fl show ?thesis by auto
  next
    case (Suc m)
    with w have e: "managed_end s = managed_start s + PAGE_SIZE * Suc m"
      by (auto simp: n_def window_ok_def diff_mult_distrib2 [symmetric] elim!: dvdE)
    with w have ram: "ram_page (managed_start s)" "ram_page (managed_start s + PAGE_SIZE * m)"
      by (auto simp: window_ok_def ram_page_def)
    from e w have "s' = rebuild_from (managed_start s) (managed_start s + PAGE_SIZE * m) ?t"
      by (auto simp: s' page_allocator_rebuild_free_list_def arith64 window_ok_def)
    from rebuild_from_spec [OF t(1) _ ram this] Suc set_fl relinked_trans [OF t(2)] show ?thesis
      by auto
  qed
  then have fl: "free_list s' ?fl" and r: "relinked s s' (free_set s)" by auto
  show "relinked s s' (free_set s)" by (fact r)
  have same: "managed s' = managed s" "window_ok s'" "free_set s' = free_set s" "total_pages s' = total_pages s"
    using window_cong [OF relinked_fields(2) [OF r]] relinked_fields(1,2) [OF r] w
    by (auto simp: free_set_def same_window_def)
  have "distinct ?fl" by (simp add: distinct_page_range)
  then have "free_pages s' = length ?fl"
    using distinct_card [of ?fl] set_fl c(2) relinked_fields(3) [OF r] by simp
  with fl set_fl same c(1) ok show "palloc_inv s'"
    unfolding palloc_inv_def page_ok_def relinked_fields(1) [OF r] by auto
qed

section \<open>Contiguous pages\<close>

lemma find_run_spec:
  assumes "window_ok s" "rl < c" "PAGE_SIZE dvd pa" "managed_start s \<le> pa"
    and "rl \<noteq> 0 \<Longrightarrow> rs + PAGE_SIZE * rl = pa" "\<And>k. k < rl \<Longrightarrow> rs + PAGE_SIZE * k \<in> free_set s"
    and "\<And>r. free_run s c r \<Longrightarrow> pa \<le> r + PAGE_SIZE * rl"
  shows "case find_run s c pa rs rl of Some r \<Rightarrow> free_run s c r \<and> (\<forall>r'. free_run s c r' \<longrightarrow> r \<le> r')
         | None \<Rightarrow> \<not> (\<exists>r. free_run s c r)"
  using assms
proof (induction s c pa rs rl rule: find_run.induct)
  case (1 s c pa rs rl)
  note IH = 1(1,2) and w = 1(3) and rl = 1(4) and pa = 1(5,6) and rs = 1(7,8) and bound = 1(9)
  show ?case
  proof (cases "pa < managed_end s")
    case False
    have "\<not> free_run s c r" for r
    proof
      assume r: "free_run s c r"
      with rl have "r + PAGE_SIZE * rl \<in> free_set s" by (auto simp: free_run_def set_page_range)
      with bound [OF r] False show False by (auto simp: free_set_def managed_def)
    qed
    with False show ?thesis by (simp add: find_run.simps)
  next
    case less: True
    with pa have m: "pa \<in> managed s" by (simp add: managed_def)
    define rs' where "rs' = (if rl = 0 then pa else rs)"
    show ?thesis
    proof (cases "pstate s pa = PAGE_STATE_FREE")
      case True
      with m have "pa \<in> free_set s" by (simp add: free_set_def)
      moreover have rs'pa: "rs' + PAGE_SIZE * rl = pa" using rs(1) by (auto simp: rs'_def)
      ultimately have run: "k < Suc rl \<Longrightarrow> rs' + PAGE_SIZE * k \<in> free_set s" for k
        using rs(2) [of k] by (cases "k = rl") (auto simp: rs'_def)
      show ?thesis
      proof (cases "Suc rl = c")
        case found: True
        then have "free_run s c rs'" using run by (auto simp: free_run_def set_page_range)
        moreover have "rs' \<le> r" if "free_run s c r" for r
          using bound [OF that] rs'pa by simp
        ultimately show ?thesis
          using less True found by (simp add: find_run.simps [of s c pa rs rl] rs'_def [symmetric])
      next
        case False
        have "find_run s c pa rs rl = find_run s c (pa + PAGE_SIZE) rs' (rl + 1)"
          using less True False by (simp add: find_run.simps [of s c pa rs rl] rs'_def)
        moreover have "pa + PAGE_SIZE \<le> r + PAGE_SIZE * (rl + 1)" if "free_run s c r" for r
          using bound [OF that] by simp
        ultimately show ?thesis
          using IH(1) [OF less True rs'_def refl] False rl w pa rs'pa run by simp
      qed
    next
      case False
      have "pa + PAGE_SIZE \<le> r" if r: "free_run s c r" for r
      proof (rule ccontr)
        from rl r have "r \<in> free_set s" by (auto simp: free_run_def set_page_range)
        then have "PAGE_SIZE dvd r" by (simp add: free_set_def managed_def)
        moreover assume "\<not> pa + PAGE_SIZE \<le> r"
        ultimately obtain k where "pa = r + PAGE_SIZE * k" using pa(1) by (auto simp: dvd_def) (metis le_add_diff_inverse diff_mult_distrib2 linorder_not_le mult_le_mono2 Suc_leI mult_Suc_right add.commute)
        with bound [OF r] rl r have "pa \<in> free_set s" by (auto simp: free_run_def set_page_range)
        with False show False by (simp add: free_set_def)
      qed
      moreover have "find_run s c pa rs rl = find_run s c (pa + PAGE_SIZE) rs 0"
        using less False by (simp add: find_run.simps [of s c pa rs rl])
      ultimately show ?thesis
        using IH(2) [OF less False] rl w pa by simp
    qed
  qed
qed

text \<open>The two marking loops, described by the pages they touch.\<close>

definition marks :: "'a palloc_scheme \<Rightarrow> 'a palloc_scheme \<Rightarrow> nat set \<Rightarrow> (page \<Rightarrow> page) \<Rightarrow> bool" where
  "marks s s' A f \<longleftrightarrow> (\<exists>m p. s' = s\<lparr>mem := m, pages := p\<rparr> \<and>
     (\<forall>pb. ram_page pb \<longrightarrow> p (page_index_from_address pb) =
        (if pb \<in> A then f (pages s (page_index_from_address pb)) else pages s (page_index_from_address pb))))"

lemma marks_refl: "marks s s {} f"
  unfolding marks_def by (intro exI [of _ "mem s"] exI [of _ "pages s"]) simp

lemma marks_step:
  assumes "marks s t A f" "ram_page pa" "pa \<notin> A"
    and "u = t\<lparr>mem := m, pages := (pages t)(page_index_from_address pa := f (pages t (page_index_from_address pa)))\<rparr>"
  shows "marks s u (insert pa A) f"
proof -
  from assms(1) obtain m0 p0 where t: "t = s\<lparr>mem := m0, pages := p0\<rparr>"
    and p0: "\<And>pb. ram_page pb \<Longrightarrow> p0 (page_index_from_address pb) =
        (if pb \<in> A then f (pages s (page_index_from_address pb)) else pages s (page_index_from_address pb))"
    by (auto simp: marks_def)
  show ?thesis
    unfolding marks_def
    by (rule exI [of _ m], rule exI [of _ "pages u"]) (auto simp: assms(4) t p0 index_inj assms(2,3))
qed

lemma marks_fields:
  assumes "marks s s' A f"
  shows "same_window s s'" "free_pages s' = free_pages s" "page_free_list_pa s' = page_free_list_pa s"
    "invalid_free_count s' = invalid_free_count s" "double_free_count s' = double_free_count s"
    "ram_page pb \<Longrightarrow> pages s' (page_index_from_address pb) =
        (if pb \<in> A then f (pages s (page_index_from_address pb)) else pages s (page_index_from_address pb))"
  using assms by (auto simp: marks_def same_window_def)

definition run_from :: "nat \<Rightarrow> nat \<Rightarrow> nat \<Rightarrow> nat set" where
  "run_from start i n = {start + PAGE_SIZE * k |k. i \<le> k \<and> k < i + n}"

lemma run_from_0 [simp]: "run_from start i 0 = {}"
  by (auto simp: run_from_def)

lemma run_from_Suc: "run_from start i (Suc n) = insert (start + PAGE_SIZE * i) (run_from start (Suc i) n)"
  by (auto simp: run_from_def le_eq_less_or_eq Suc_le_eq)

lemma run_from_mem: "start + PAGE_SIZE * i \<notin> run_from start (Suc i) n"
  by (auto simp: run_from_def)

lemma run_from_page_range: "run_from start 0 n = set (page_range start n)"
  by (simp add: run_from_def set_page_range)

lemma clear_pages_insert: "clear_page pa (clear_pages A m) = clear_pages (insert pa A) m"
  by (auto simp: clear_page_def clear_pages_def fun_eq_iff)

lemma take_run_spec:
  assumes "marks s t A (\<lambda>_. \<lparr>pg_state = PAGE_STATE_ALLOCATED, pg_ref_count = 1\<rparr>)"
    and "mem t = clear_pages A (mem s)" "\<forall>pa \<in> run_from start i n. ram_page pa" "A \<inter> run_from start i n = {}"
  shows "marks s (take_run start i n t) (run_from start i n \<union> A) (\<lambda>_. \<lparr>pg_state = PAGE_STATE_ALLOCATED, pg_ref_count = 1\<rparr>) \<and>
    mem (take_run start i n t) = clear_pages (run_from start i n \<union> A) (mem s)"
  using assms
proof (induction n arbitrary: i t A)
  case 0
  then show ?case by simp
next
  case (Suc n)
  let ?pa = "start + PAGE_SIZE * i"
  let ?p = "\<lparr>pg_state = PAGE_STATE_ALLOCATED, pg_ref_count = 1\<rparr>"
  define u where "u = t\<lparr>pages := (pages t)(page_index_from_address ?pa := ?p), mem := clear_page ?pa (mem t)\<rparr>"
  from Suc.prems(3,4) have pa: "ram_page ?pa" "?pa \<notin> A" and rest: "\<forall>pa \<in> run_from start (Suc i) n. ram_page pa"
    "insert ?pa A \<inter> run_from start (Suc i) n = {}"
    using run_from_mem by (auto simp: run_from_Suc)
  have p: "(pages t j)\<lparr>pg_state := PAGE_STATE_ALLOCATED, pg_ref_count := 1\<rparr> = ?p" for j
    by (cases "pages t j") simp
  have e: "take_run start i (Suc n) t = take_run start (Suc i) n u"
    using ram_page_bounds [OF pa(1)] by (simp add: Let_def p zero_page_mem u_def mult.commute)
  have "marks s u (insert ?pa A) (\<lambda>_. ?p)"
    using Suc.prems(1) pa by (rule marks_step [where m = "mem u"]) (cases t, simp add: u_def)
  moreover have "mem u = clear_pages (insert ?pa A) (mem s)"
    by (simp add: u_def Suc.prems(2) clear_pages_insert)
  ultimately show ?case
    using Suc.IH [of u "insert ?pa A" "Suc i"] rest unfolding e run_from_Suc by simp
qed

lemma release_run_spec:
  assumes "marks s t A (\<lambda>p. p\<lparr>pg_state := PAGE_STATE_FREE\<rparr>)" "mem t = mem s"
    and "\<forall>pa \<in> run_from start i n. ram_page pa" "A \<inter> run_from start i n = {}"
  shows "marks s (release_run start i n t) (run_from start i n \<union> A) (\<lambda>p. p\<lparr>pg_state := PAGE_STATE_FREE\<rparr>) \<and>
    mem (release_run start i n t) = mem s"
  using assms
proof (induction n arbitrary: i t A)
  case 0
  then show ?case by simp
next
  case (Suc n)
  let ?pa = "start + PAGE_SIZE * i"
  define u where "u = set_page_state (page_index_from_address ?pa) PAGE_STATE_FREE t"
  from Suc.prems(3,4) have pa: "ram_page ?pa" "?pa \<notin> A" and rest: "\<forall>pa \<in> run_from start (Suc i) n. ram_page pa"
    "insert ?pa A \<inter> run_from start (Suc i) n = {}"
    using run_from_mem by (auto simp: run_from_Suc)
  have "marks s u (insert ?pa A) (\<lambda>p. p\<lparr>pg_state := PAGE_STATE_FREE\<rparr>)"
    using Suc.prems(1) pa by (rule marks_step [where m = "mem t"]) (simp add: u_def set_page_state_def)
  moreover have "mem u = mem s"
    by (simp add: u_def set_page_state_def Suc.prems(2))
  ultimately show ?case
    using Suc.IH [of u "insert ?pa A" "Suc i"] rest unfolding run_from_Suc by (simp add: u_def mult.commute)
qed

text \<open>A marking of managed pages, as seen by the contract.\<close>

lemma marks_sets:
  assumes "marks s s' A f" "window_ok s" "A \<subseteq> managed s"
  shows "managed s' = managed s" "window_ok s'"
    "pb \<in> managed s \<Longrightarrow> pages s' (page_index_from_address pb) =
        (if pb \<in> A then f (pages s (page_index_from_address pb)) else pages s (page_index_from_address pb))"
  using window_cong [OF marks_fields(1) [OF assms(1)]] assms(2) marks_fields(6) [OF assms(1), of pb]
    managed_ram [OF assms(2), of pb]
  by auto

text \<open>Marking managed pages and rebuilding the list re-establishes the invariant.\<close>

lemma mark_rebuild:
  assumes inv: "palloc_inv s" and mk: "marks s s1 A f" and A: "A \<subseteq> managed s"
    and f: "\<And>p. pg_state (f p) = PAGE_STATE_FREE \<or> pg_state (f p) = PAGE_STATE_ALLOCATED \<and> pg_ref_count (f p) \<noteq> 0"
    and s2: "s2 = s1\<lparr>free_pages := n\<rparr>" and n: "n = card (free_set s1)"
    and s': "s' = page_allocator_rebuild_free_list s2"
  shows "palloc_inv s'" "same_window s s'" "free_set s' = free_set s1"
    "\<And>pb. pb \<in> managed s \<Longrightarrow> pages s' (page_index_from_address pb) =
        (if pb \<in> A then f (pages s (page_index_from_address pb)) else pages s (page_index_from_address pb))"
    "\<And>a. a \<notin> free_set s' \<Longrightarrow> mem s' a = mem s1 a"
    "invalid_free_count s' = invalid_free_count s" "double_free_count s' = double_free_count s"
proof -
  from inv have w: "window_ok s" by (simp add: palloc_inv_def)
  note pg = marks_sets [OF mk w A] and fld = marks_fields [OF mk]
  have t: "window_ok s2" "managed s2 = managed s" "same_window s s2" "free_set s2 = free_set s1"
    using pg fld(1) by (auto simp: s2 window_ok_def managed_def same_window_def free_set_def)
  have "page_ok s2 pa" if "pa \<in> managed s2" for pa
    using that inv pg(3) [of pa] t(2) f by (auto simp: palloc_inv_def page_ok_def s2)
  moreover have "total_pages s2 = card (managed s2)"
    using inv t(2,3) by (simp add: palloc_inv_def same_window_def)
  moreover have "free_pages s2 = card (free_set s2)" using n t(4) by (simp add: s2)
  ultimately have r: "palloc_inv s'" "relinked s2 s' (free_set s2)"
    using palloc_inv_rebuild [OF t(1) _ _ _ s'] by auto
  note rl = relinked_fields [OF r(2)]
  show "palloc_inv s'" by (fact r(1))
  show "same_window s s'" using t(3) rl(2) by (simp add: same_window_def)
  show free: "free_set s' = free_set s1"
    using window_cong [OF rl(2)] t(4) by (auto simp: free_set_def rl(1))
  show "pages s' (page_index_from_address pb) =
      (if pb \<in> A then f (pages s (page_index_from_address pb)) else pages s (page_index_from_address pb))"
    if "pb \<in> managed s" for pb
    using pg(3) [OF that] by (simp add: rl(1) s2)
  show "mem s' a = mem s1 a" if "a \<notin> free_set s'" for a
    using that rl(7) [of a] free t(4) by (simp add: s2)
  show "invalid_free_count s' = invalid_free_count s" "double_free_count s' = double_free_count s"
    using rl(4,5) fld(4,5) by (simp_all add: s2)
qed

lemma find_run_top:
  assumes "window_ok s" "0 < n"
  shows "case find_run s n (managed_start s) 0 0 of Some r \<Rightarrow> free_run s n r \<and> (\<forall>r'. free_run s n r' \<longrightarrow> r \<le> r')
         | None \<Rightarrow> \<not> (\<exists>r. free_run s n r)"
proof (rule find_run_spec [OF assms])
  fix r assume "free_run s n r"
  with assms(2) have "r \<in> free_set s" by (auto simp: free_run_def set_page_range)
  then show "managed_start s \<le> r + PAGE_SIZE * 0" by (simp add: free_set_def managed_def)
qed (use assms(1) in \<open>auto simp: window_ok_def\<close>)

lemma page_alloc_contiguous_none:
  assumes "palloc_inv s" "n = 0 \<or> \<not> (\<exists>r. free_run s n r)"
  shows "page_alloc_contiguous n s = (0, s)"
proof (cases "n = 0 \<or> free_pages s < n")
  case False
  from assms(1) have w: "window_ok s" by (simp add: palloc_inv_def)
  with False assms(2) find_run_top [OF w, of n] show ?thesis
    by (auto simp: page_alloc_contiguous_def window_ok_def split: option.splits)
qed (simp add: page_alloc_contiguous_def)

lemma page_alloc_contiguous_some:
  assumes inv: "palloc_inv s" and n: "0 < n" and ex: "\<exists>r. free_run s n r"
  obtains r s' where "page_alloc_contiguous n s = (r, s')" "free_run s n r" "\<And>r'. free_run s n r' \<Longrightarrow> r \<le> r'"
    "palloc_inv s'" "same_window s s'" "owned s' = (\<lambda>pa. if pa \<in> set (page_range r n) then Some 1 else owned s pa)"
    "\<And>a. a \<notin> free_set s' \<Longrightarrow> mem s' a = clear_pages (set (page_range r n)) (mem s) a"
proof -
  from inv have w: "window_ok s" by (simp add: palloc_inv_def)
  from find_run_top [OF w n] ex obtain r where
    r: "find_run s n (managed_start s) 0 0 = Some r" "free_run s n r" "\<And>r'. free_run s n r' \<Longrightarrow> r \<le> r'"
    by (auto split: option.splits)
  let ?A = "set (page_range r n)" and ?p = "\<lparr>pg_state = PAGE_STATE_ALLOCATED, pg_ref_count = 1\<rparr>"
  define s1 where "s1 = take_run r 0 n s"
  define s2 where "s2 = s1\<lparr>free_pages := sub64 (free_pages s1) n\<rparr>"
  define s' where "s' = page_allocator_rebuild_free_list s2"
  have A: "?A \<subseteq> free_set s" "?A \<subseteq> managed s" using r(2) free_set_managed by (auto simp: free_run_def)
  have card: "card ?A = n" by (simp add: distinct_card distinct_page_range)
  have len: "n \<le> free_pages s"
    using card_mono [OF _ A(1)] finite_subset [OF free_set_managed finite_managed] card free_pages_card [OF inv] by metis
  have "clear_pages {} m = m" for m by (simp add: clear_pages_def fun_eq_iff)
  then have s1: "marks s s1 ?A (\<lambda>_. ?p)" "mem s1 = clear_pages ?A (mem s)"
    using take_run_spec [OF marks_refl, of s r 0 n] managed_ram [OF w] A(2)
    by (auto simp: s1_def run_from_page_range)
  have free: "free_set s1 = free_set s - ?A"
    using marks_sets [OF s1(1) w A(2)] A by (auto simp: free_set_def split: if_splits)
  have "sub64 (free_pages s1) n = free_pages s - n"
    using len card_managed_bound [OF w] card_mono [OF finite_managed free_set_managed, of s] free_pages_card [OF inv]
    by (simp add: marks_fields(2) [OF s1(1)] sub64_exact)
  also have "\<dots> = card (free_set s1)"
    using free A(1) card free_pages_card [OF inv] by (simp add: card_Diff_subset)
  finally have cnt: "sub64 (free_pages s1) n = card (free_set s1)" .
  note r' = mark_rebuild [OF inv s1(1) A(2) _ s2_def cnt s'_def]
  have res: "page_alloc_contiguous n s = (r, s')"
    using n len r(1) by (simp add: page_alloc_contiguous_def Let_def s1_def s2_def s'_def)
  have own: "owned s' = (\<lambda>pa. if pa \<in> ?A then Some 1 else owned s pa)"
    using window_cong [OF r'(2)] A(2) r'(4) by (auto simp: owned_def fun_eq_iff)
  show thesis
    by (rule that [OF res r(2,3) r'(1,2) own]) (use r'(5) s1(2) in auto)
qed

lemma page_free_contiguous_rejects:
  assumes inv: "palloc_inv s" and wrap: "pa + n * PAGE_SIZE < two64" and no: "\<not> set (page_range pa n) \<subseteq> dom (owned s)"
  shows "page_free_contiguous pa n s = s \<or>
    (\<exists>c. page_free_contiguous pa n s = s\<lparr>invalid_free_count := c\<rparr>) \<or>
    (\<exists>c. page_free_contiguous pa n s = s\<lparr>double_free_count := c\<rparr>)"
proof (cases "pa = 0 \<or> n = 0 \<or> pa AND (PAGE_SIZE - 1) \<noteq> 0 \<or> pa < managed_start s \<or> managed_end s < pa + n * PAGE_SIZE")
  case True
  with wrap show ?thesis
    by (auto simp: page_free_contiguous_def arith64)
next
  case False
  then have in_window: "set (page_range pa n) \<subseteq> managed s"
    using aligned_test [of pa] by (auto simp: managed_def set_page_range)
  with no obtain k where "k < n" "pstate s (pa + PAGE_SIZE * k) \<noteq> PAGE_STATE_ALLOCATED"
    by (fastforce simp: set_page_range owned_def split: if_splits)
  then have "find_from (\<lambda>offset. pstate s (pa + offset * PAGE_SIZE) \<noteq> PAGE_STATE_ALLOCATED) 0 n \<noteq> None"
    by (auto simp: find_from_None mult.commute)
  with False wrap show ?thesis
    by (auto simp: page_free_contiguous_def arith64)
qed

lemma page_free_contiguous_frees:
  assumes inv: "palloc_inv s" and n: "0 < n" and own: "set (page_range pa n) \<subseteq> dom (owned s)"
    and s': "s' = page_free_contiguous pa n s"
  shows "palloc_inv s'" "same_window s s'" "owned s' = owned s |` (- set (page_range pa n))"
    "a \<notin> free_set s' \<Longrightarrow> mem s' a = mem s a"
proof -
  from inv have w: "window_ok s" by (simp add: palloc_inv_def)
  let ?A = "set (page_range pa n)"
  have A: "?A \<subseteq> managed s" "\<And>pb. pb \<in> ?A \<Longrightarrow> pstate s pb = PAGE_STATE_ALLOCATED"
    using own by (auto simp: owned_def subset_iff split: if_splits)
  then have "pa \<in> managed s" "pa + PAGE_SIZE * (n - 1) \<in> managed s"
    using n by (auto simp: set_page_range subset_iff)
  then have b: "pa \<noteq> 0" "managed_start s \<le> pa" "pa AND (PAGE_SIZE - 1) = 0" "managed_end s < two64"
    and lt: "pa + PAGE_SIZE * (n - 1) < managed_end s" "PAGE_SIZE dvd pa" "PAGE_SIZE dvd managed_end s"
    using w aligned_test [of pa] by (auto simp: managed_def window_ok_def)
  from lt(2,3) obtain i j where ij: "pa = 4096 * i" "managed_end s = 4096 * j" by (elim dvdE)
  with lt(1) have "i + (n - 1) < j" by simp
  with n ij have b': "pa + n * PAGE_SIZE \<le> managed_end s" by simp
  define s1 where "s1 = release_run pa 0 n s"
  define s2 where "s2 = s1\<lparr>free_pages := add64 (free_pages s1) n\<rparr>"
  have none: "find_from (\<lambda>offset. pstate s (pa + offset * PAGE_SIZE) \<noteq> PAGE_STATE_ALLOCATED) 0 n = None"
    using A(2) by (auto simp: find_from_None set_page_range mult.commute)
  have e: "s' = page_allocator_rebuild_free_list s2"
    using b b' n none by (simp add: s' page_free_contiguous_def arith64 Let_def s1_def s2_def)
  have s1: "marks s s1 ?A (\<lambda>p. p\<lparr>pg_state := PAGE_STATE_FREE\<rparr>)" "mem s1 = mem s"
    using release_run_spec [OF marks_refl, of s pa 0 n] managed_ram [OF w] A(1)
    by (auto simp: s1_def run_from_page_range)
  have free: "free_set s1 = free_set s \<union> ?A" "free_set s \<inter> ?A = {}"
    using marks_sets [OF s1(1) w A(1)] A by (auto simp: free_set_def split: if_splits)
  have card: "card (free_set s \<union> ?A) = free_pages s + n"
    using card_Un_disjoint [OF _ _ free(2)] finite_subset [OF free_set_managed finite_managed, of s]
    by (simp add: distinct_card distinct_page_range free_pages_card [OF inv])
  have "card (free_set s \<union> ?A) \<le> QEMU_VIRT_MAX_PAGES"
    using card_mono [OF finite_managed, of "free_set s \<union> ?A" s] A(1) free_set_managed [of s] card_managed_bound [OF w]
    by auto
  then have cnt: "add64 (free_pages s1) n = card (free_set s1)"
    using card free(1) by (simp add: marks_fields(2) [OF s1(1)] add64_exact)
  note r = mark_rebuild [OF inv s1(1) A(1) _ s2_def cnt e]
  show "palloc_inv s'" "same_window s s'" using r(1,2) by auto
  show "owned s' = owned s |` (- ?A)"
    using window_cong [OF r(2)] A(1) r(4) by (auto simp: owned_def fun_eq_iff restrict_map_def)
  show "a \<notin> free_set s' \<Longrightarrow> mem s' a = mem s a" using r(5) s1(2) by simp
qed

section \<open>Initialisation and the consistency check\<close>

lemma page_range_Cons: "page_range pa (Suc n) = pa # page_range (pa + PAGE_SIZE) n"
  by (simp add: page_range_def upt_conv_Cons map_Suc_upt [symmetric] comp_def del: upt_Suc)

lemma init_free_from_spec:
  assumes "free_list s fl" "\<And>x. x \<in> set fl \<Longrightarrow> ram_page x \<and> x < pa" "\<And>x. x \<in> set (page_range pa n) \<Longrightarrow> ram_page x"
    and "total_pages s + n < two64" "free_pages s + n < two64" "s' = init_free_from (pa + PAGE_SIZE * n) pa s"
  shows "free_list s' (rev (page_range pa n) @ fl) \<and> total_pages s' = total_pages s + n \<and>
    free_pages s' = free_pages s + n \<and> mmu_enabled s' = mmu_enabled s \<and>
    managed_start s' = managed_start s \<and> managed_end s' = managed_end s \<and>
    (\<forall>pb. ram_page pb \<longrightarrow> pstate s' pb = (if pb \<in> set (page_range pa n) then PAGE_STATE_FREE else pstate s pb)) \<and>
    (\<forall>a. a \<notin> set (page_range pa n) \<longrightarrow> mem s' a = mem s a)"
  using assms
proof (induction n arbitrary: pa s fl)
  case 0
  then show ?case by (simp add: init_free_from.simps)
next
  case (Suc n)
  let ?i = "page_index_from_address pa"
  have range: "set (page_range pa (Suc n)) = insert pa (set (page_range (pa + PAGE_SIZE) n))"
    by (simp only: page_range_Cons list.set)
  then have ram: "ram_page pa" using Suc.prems(3) by blast
  define t where "t = (set_page_state ?i PAGE_STATE_FREE (push_free_page pa s))
    \<lparr>total_pages := Suc (total_pages s), free_pages := Suc (free_pages s)\<rparr>"
  have "push_free_page pa s = s\<lparr>mem := (mem s)(pa := word_of_nat (page_free_list_pa s)), page_free_list_pa := pa\<rparr>"
    using ram_page_bounds [OF ram] by (simp add: push_free_page_eq)
  then have t: "t = s\<lparr>mem := (mem s)(pa := word_of_nat (page_free_list_pa s)), page_free_list_pa := pa,
      pages := (pages s)(?i := (pages s ?i)\<lparr>pg_state := PAGE_STATE_FREE\<rparr>),
      total_pages := Suc (total_pages s), free_pages := Suc (free_pages s)\<rparr>"
    by (simp add: t_def set_page_state_def)
  have fl: "free_list t (pa # fl)"
  proof -
    have "free_list (push_free_page pa s) (pa # fl)"
      using Suc.prems(1,2) ram by (intro free_list_push) auto
    then show ?thesis
      using ram_page_bounds ram Suc.prems(2)
      by (subst free_list_cong [of _ "push_free_page pa s"]) (auto simp: t push_free_page_eq)
  qed
  have e: "s' = init_free_from (pa + PAGE_SIZE + PAGE_SIZE * n) (pa + PAGE_SIZE) t"
    using Suc.prems(4-6) add64_exact [of "total_pages s" 1] add64_exact [of "free_pages s" 1]
      init_free_from.simps [of "pa + PAGE_SIZE * Suc n" pa s]
    by (simp add: t_def Let_def push_free_page_def store64_def set_page_state_def add.assoc)
  have pst: "pstate t pb = (if pb = pa then PAGE_STATE_FREE else pstate s pb)" if "ram_page pb" for pb
    using that ram by (auto simp: t index_inj)
  have above: "x \<in> set (pa # fl) \<Longrightarrow> ram_page x \<and> x < pa + PAGE_SIZE" for x
    using Suc.prems(2) [of x] ram by auto
  have pa: "pa \<notin> set (page_range (pa + PAGE_SIZE) n)" by (auto simp: set_page_range)
  have rv: "rev (page_range pa (Suc n)) @ fl = rev (page_range (pa + PAGE_SIZE) n) @ pa # fl"
    by (simp only: page_range_Cons rev.simps append_assoc append.simps)
  have ih: "free_list s' (rev (page_range (pa + PAGE_SIZE) n) @ pa # fl) \<and> total_pages s' = total_pages t + n \<and>
    free_pages s' = free_pages t + n \<and> mmu_enabled s' = mmu_enabled t \<and>
    managed_start s' = managed_start t \<and> managed_end s' = managed_end t \<and>
    (\<forall>pb. ram_page pb \<longrightarrow> pstate s' pb = (if pb \<in> set (page_range (pa + PAGE_SIZE) n) then PAGE_STATE_FREE else pstate t pb)) \<and>
    (\<forall>a. a \<notin> set (page_range (pa + PAGE_SIZE) n) \<longrightarrow> mem s' a = mem t a)"
    by (rule Suc.IH [OF fl above _ _ _ e]) (use Suc.prems(3-5) range in \<open>auto simp: t\<close>)
  have "pstate s' pb = (if pb \<in> insert pa (set (page_range (pa + PAGE_SIZE) n)) then PAGE_STATE_FREE else pstate s pb)"
    if "ram_page pb" for pb
    using ih that pst [OF that] by auto
  moreover have "mem s' a = mem s a" if "a \<notin> insert pa (set (page_range (pa + PAGE_SIZE) n))" for a
    using ih that by (simp add: t)
  ultimately show ?case
    unfolding rv range using ih by (simp add: t)
qed

lemma round_up_page:
  fixes k :: nat
  defines "r \<equiv> (k + 4095) div 4096 * 4096"
  shows "k \<le> r" "r < k + 4096" "4096 dvd r" "k \<le> 4096 * e \<Longrightarrow> r \<le> 4096 * e"
proof -
  have "r + (k + 4095) mod 4096 = k + 4095" "(k + 4095) mod 4096 < 4096"
    by (simp_all add: r_def)
  then show "k \<le> r" "r < k + 4096" by linarith+
  show "4096 dvd r" by (simp add: r_def)
  assume "k \<le> 4096 * e"
  then have "(k + 4095) div 4096 \<le> (4096 * e + 4095) div 4096" by (intro div_le_mono) simp
  then show "r \<le> 4096 * e" by (simp add: r_def)
qed

lemma aligned_offset:
  "4096 dvd (a :: nat) \<Longrightarrow> 4096 dvd b \<Longrightarrow> a \<le> b \<Longrightarrow> b = a + 4096 * ((b - a) div 4096)"
  by (simp add: dvd_diff_nat)

lemma page_allocator_init_inv:
  assumes k: "va_to_pa kernel_end = k" "QEMU_VIRT_RAM_BASE \<le> k" "k \<le> QEMU_VIRT_RAM_END"
    and s': "s' = page_allocator_init kernel_end s"
  shows "palloc_inv s'" "owned s' = Map.empty" "managed s' = {pa. k \<le> pa \<and> ram_page pa}"
    "mmu_enabled s' = mmu_enabled s" "a \<notin> managed s' \<Longrightarrow> mem s' a = mem s a"
proof -
  define start where "start = (k + 4095) div 4096 * 4096"
  define n where "n = (QEMU_VIRT_RAM_END - start) div 4096"
  have al: "align_up64 k PAGE_SIZE = start"
    using align_up64_pow2 [of 12 k] k(3) by (simp add: start_def)
  have start: "k \<le> start" "start < k + 4096" "PAGE_SIZE dvd start" "start \<le> QEMU_VIRT_RAM_END"
    using round_up_page [of k] round_up_page(4) [of k "QEMU_VIRT_RAM_END div 4096"] k(3) by (simp_all add: start_def)
  have rend: "QEMU_VIRT_RAM_END = start + PAGE_SIZE * n"
    unfolding n_def by (rule aligned_offset) (use start in simp_all)
  define s1 where "s1 = s\<lparr>managed_start := start, managed_end := QEMU_VIRT_RAM_END,
      reserved_bytes := sub64 start QEMU_VIRT_RAM_BASE, page_free_list_pa := 0, total_pages := 0, free_pages := 0,
      invalid_free_count := 0, double_free_count := 0,
      pages := (\<lambda>i. if i < QEMU_VIRT_MAX_PAGES
                    then (pages s i)\<lparr>pg_state := PAGE_STATE_UNUSED, pg_ref_count := 0\<rparr> else pages s i)\<rparr>"
  have range: "set (page_range start n) = {pa. k \<le> pa \<and> ram_page pa}"
  proof (intro set_eqI iffI)
    fix x assume "x \<in> set (page_range start n)"
    then show "x \<in> {pa. k \<le> pa \<and> ram_page pa}" using start k(2) rend by (auto simp: set_page_range ram_page_def)
  next
    fix x assume x: "x \<in> {pa. k \<le> pa \<and> ram_page pa}"
    then have "start \<le> x" using round_up_page(4) [of k "x div 4096"] by (simp add: ram_page_def start_def)
    then have "x = start + 4096 * ((x - start) div 4096)"
      using x start(3) by (intro aligned_offset) (simp_all add: ram_page_def)
    moreover from this x rend have "(x - start) div 4096 < n" by (simp add: ram_page_def)
    ultimately show "x \<in> set (page_range start n)" by (auto simp: set_page_range)
  qed
  have e: "s' = init_free_from (start + PAGE_SIZE * n) start s1"
    unfolding rend [symmetric] by (simp add: s' page_allocator_init_def s1_def k(1) al Let_def)
  have s1: "free_list s1 []" "total_pages s1 = 0" "free_pages s1 = 0" "mem s1 = mem s" "managed_start s1 = start"
    "managed_end s1 = QEMU_VIRT_RAM_END" "mmu_enabled s1 = mmu_enabled s"
    by (simp_all add: s1_def free_list_def nz_def)
  have "n < two64" using rend by simp
  moreover have "\<And>x. x \<in> set (page_range start n) \<Longrightarrow> ram_page x" using range by blast
  ultimately have "free_list s' (rev (page_range start n) @ []) \<and> total_pages s' = total_pages s1 + n \<and>
    free_pages s' = free_pages s1 + n \<and> mmu_enabled s' = mmu_enabled s1 \<and>
    managed_start s' = managed_start s1 \<and> managed_end s' = managed_end s1 \<and>
    (\<forall>pb. ram_page pb \<longrightarrow> pstate s' pb = (if pb \<in> set (page_range start n) then PAGE_STATE_FREE else pstate s1 pb)) \<and>
    (\<forall>a. a \<notin> set (page_range start n) \<longrightarrow> mem s' a = mem s1 a)"
    by (intro init_free_from_spec [OF s1(1) _ _ _ _ e]) (simp_all only: s1 add_0 list.set empty_iff)
  then have r: "free_list s' (rev (page_range start n))" "total_pages s' = n" "free_pages s' = n"
    "mmu_enabled s' = mmu_enabled s" "managed_start s' = start" "managed_end s' = QEMU_VIRT_RAM_END"
    "\<forall>pb. ram_page pb \<longrightarrow> pstate s' pb = (if pb \<in> set (page_range start n) then PAGE_STATE_FREE else pstate s1 pb)"
    "\<forall>a. a \<notin> set (page_range start n) \<longrightarrow> mem s' a = mem s a"
    unfolding s1 by simp_all
  have w: "window_ok s'" using start k(2) r(5,6) by (simp add: window_ok_def)
  have "(managed_end s' - managed_start s') div PAGE_SIZE = n" by (simp add: r n_def)
  then have m: "managed s' = set (page_range start n)" using managed_page_range [OF w] r(5) by simp
  with range show "managed s' = {pa. k \<le> pa \<and> ram_page pa}" by simp
  have st: "pstate s' pa = PAGE_STATE_FREE" if "pa \<in> managed s'" for pa
    using that r(7) managed_ram [OF w that] m by simp
  then have "free_set s' = managed s'" by (auto simp: free_set_def)
  with st r(1-3) w m show "palloc_inv s'"
    by (auto simp: palloc_inv_def page_ok_def distinct_card distinct_page_range intro!: exI [of _ "rev (page_range start n)"])
  show "owned s' = Map.empty" using st by (auto simp: owned_def)
  show "mmu_enabled s' = mmu_enabled s" by (fact r(4))
  show "a \<notin> managed s' \<Longrightarrow> mem s' a = mem s a" using r(8) m by simp
qed

lemma count_nodes_chain:
  "chain (free_link s) (nz p) fl \<Longrightarrow> c + length fl < two64 \<Longrightarrow> count_nodes_from s p c = Some (c + length fl)"
proof (induction fl arbitrary: p c)
  case Nil
  then show ?case by (subst count_nodes_from.simps) (auto simp: nz_def split: if_splits)
next
  case (Cons x fl)
  let ?q = "page_ptr_to_pa s (unat (load64 s (page_pa_to_ptr s x)))"
  from Cons.prems(1) have x: "p = x" "x \<noteq> 0" and "chain (free_link s) (nz ?q) fl"
    by (auto simp: nz_def free_link_def [of s x] split: if_splits)
  with Cons.IH [of ?q "add64 c 1"] Cons.prems(2)
  show ?case
    by (subst count_nodes_from.simps) (simp add: add64_exact)
qed

lemma scan_states_range:
  "managed_end s = pa + PAGE_SIZE * n \<Longrightarrow> scan_states s pa (f, a, m) =
     (f + length (free_among s (page_range pa n)),
      a + length (filter (\<lambda>p. pstate s p = PAGE_STATE_ALLOCATED) (page_range pa n)),
      m + length (filter (\<lambda>p. pstate s p \<noteq> PAGE_STATE_FREE \<and> pstate s p \<noteq> PAGE_STATE_ALLOCATED) (page_range pa n)))"
proof (induction n arbitrary: pa f a m)
  case 0
  then show ?case by (simp add: scan_states.simps)
next
  case (Suc n)
  then have "managed_end s = pa + PAGE_SIZE + PAGE_SIZE * n" by simp
  note ih = Suc.IH [OF this]
  show ?case
    using Suc.prems unfolding page_range_Cons
    by (subst scan_states.simps) (simp add: ih Let_def)
qed

lemma check_consistency_inv:
  assumes inv: "palloc_inv s"
  shows "page_allocator_check_consistency s = Some 0"
proof -
  from inv obtain fl where fl: "free_list s fl" "free_pages s = length fl" and w: "window_ok s"
    and len: "length fl \<le> QEMU_VIRT_MAX_PAGES"
    by (rule palloc_invE) blast
  define n where "n = (managed_end s - managed_start s) div PAGE_SIZE"
  have e: "managed_end s = managed_start s + PAGE_SIZE * n"
    unfolding n_def by (rule aligned_offset) (use w in \<open>simp_all add: window_ok_def\<close>)
  let ?r = "page_range (managed_start s) n"
  have m: "managed s = set ?r" using managed_page_range [OF w] by (simp add: n_def)
  have ok: "pstate s p = PAGE_STATE_FREE \<or> pstate s p = PAGE_STATE_ALLOCATED" if "p \<in> set ?r" for p
    using that inv m by (auto simp: palloc_inv_def page_ok_def)
  have bad: "filter (\<lambda>p. pstate s p \<noteq> PAGE_STATE_FREE \<and> pstate s p \<noteq> PAGE_STATE_ALLOCATED) ?r = []"
    using ok by (auto simp: filter_empty_conv)
  have free: "length (free_among s ?r) = free_pages s"
    using distinct_card [of "free_among s ?r"] free_pages_card [OF inv] m
    by (simp add: distinct_page_range free_set_def conj_commute)
  have "length (filter (\<lambda>p. pstate s p = PAGE_STATE_ALLOCATED) ?r) = length (filter (\<lambda>p. pstate s p \<noteq> PAGE_STATE_FREE) ?r)"
    using ok by (intro arg_cong [where f = length] filter_cong) auto
  then have total: "length (free_among s ?r) + length (filter (\<lambda>p. pstate s p = PAGE_STATE_ALLOCATED) ?r) = total_pages s"
    using sum_length_filter_compl [of "\<lambda>p. pstate s p = PAGE_STATE_FREE" ?r] inv m
    by (simp add: palloc_inv_def distinct_card distinct_page_range)
  have "count_free_list_nodes s = Some (free_pages s)"
    using count_nodes_chain [of s "page_free_list_pa s" fl 0] fl len
    by (simp add: count_free_list_nodes_def free_list_def)
  with total free show ?thesis
    by (simp add: page_allocator_check_consistency_def scan_states_range [OF e] bad)
qed

section \<open>The contract of the allocator\<close>

text \<open>
  What the owners of pages (address spaces, the heap, the process loader) rely on: a reference
  counted store of pages.  \<open>pool\<close> is the set of addresses the store manages.
\<close>

locale ref_pages =
  fixes inv :: "'s \<Rightarrow> bool" and pool :: "'s \<Rightarrow> nat set" and refs :: "'s \<Rightarrow> nat \<rightharpoonup> nat"
    and get :: "'s \<Rightarrow> nat \<times> 's" and put :: "nat \<Rightarrow> 's \<Rightarrow> 's"
  assumes pool_nonzero: "inv s \<Longrightarrow> 0 \<notin> pool s"
    and refs_pool: "inv s \<Longrightarrow> dom (refs s) \<subseteq> pool s"
    and refs_pos: "inv s \<Longrightarrow> refs s pa \<noteq> Some 0"
    and get_law: "inv s \<Longrightarrow> get s = (pa, s') \<Longrightarrow> inv s' \<and> pool s' = pool s \<and>
       (if pool s \<subseteq> dom (refs s) then pa = 0 \<and> s' = s
        else pa \<in> pool s \<and> refs s pa = None \<and> refs s' = (refs s)(pa \<mapsto> 1))"
    and put_law: "inv s \<Longrightarrow> inv (put pa s) \<and> pool (put pa s) = pool s \<and> refs (put pa s) = release pa (refs s)"
begin

lemma put_get: "inv s \<Longrightarrow> get s = (pa, s') \<Longrightarrow> pa \<noteq> 0 \<Longrightarrow> refs (put pa s') = refs s"
  using get_law [of s pa s'] put_law [of s' pa] by (auto simp: release_def fun_eq_iff split: if_splits)

text \<open>Releasing a list of pages takes one reference for each occurrence.\<close>

lemma put_all:
  "inv s \<Longrightarrow> inv (fold put ps s) \<and> pool (fold put ps s) = pool s \<and>
     refs (fold put ps s) pa = (case refs s pa of None \<Rightarrow> None
       | Some n \<Rightarrow> if count_list ps pa < n then Some (n - count_list ps pa) else None)"
proof (induction ps arbitrary: s)
  case Nil
  then show ?case using refs_pos [of s pa] by (auto split: option.splits)
next
  case (Cons p ps)
  with put_law [of s p] refs_pos [of s pa] show ?case
    by (auto simp: release_def split: option.splits)
qed

text \<open>A page is never handed out twice while it is held.\<close>

lemma get_fresh:
  "inv s \<Longrightarrow> get s = (pa, s1) \<Longrightarrow> get s1 = (pb, s2) \<Longrightarrow> pb \<noteq> 0 \<Longrightarrow> pa \<noteq> 0 \<and> pb \<noteq> pa \<and> refs s pb = None"
  using get_law [of s pa s1] get_law [of s1 pb s2] pool_nonzero [of s] by (auto split: if_splits)

end

lemma page_alloc_law:
  assumes inv: "palloc_inv s" and "page_alloc s = (pa, s')"
  shows "palloc_inv s' \<and> managed s' = managed s \<and>
       (if managed s \<subseteq> dom (owned s) then pa = 0 \<and> s' = s
        else pa \<in> managed s \<and> owned s pa = None \<and> owned s' = (owned s)(pa \<mapsto> 1))"
proof (cases "free_set s = {}")
  case True
  then show ?thesis using assms page_alloc_empty [OF inv] pool_partition [OF inv] by auto
next
  case False
  with inv obtain p t where r: "page_alloc s = (p, t)" "p \<in> free_set s" "palloc_inv t"
    "page_upd s t p \<lparr>pg_state = PAGE_STATE_ALLOCATED, pg_ref_count = 1\<rparr>"
    by (rule page_alloc_nonempty)
  from r(2) have "p \<in> managed s" "owned s p = None" by (auto simp: free_set_def owned_def)
  with r assms(2) show ?thesis
    using page_upd_managed [OF r(4)] by (auto simp: owned_upd [OF r(4)])
qed

interpretation kernel_pages: ref_pages palloc_inv managed owned page_alloc page_free
proof
  fix s s' :: "'a palloc_scheme" and pa
  assume inv: "palloc_inv s"
  show "0 \<notin> managed s" using inv by (auto simp: palloc_inv_def window_ok_def managed_def)
  show "dom (owned s) \<subseteq> managed s" by (auto simp: owned_def split: if_splits)
  show "owned s pa \<noteq> Some 0" using inv by (rule owned_positive)
  show "palloc_inv s' \<and> managed s' = managed s \<and>
       (if managed s \<subseteq> dom (owned s) then pa = 0 \<and> s' = s
        else pa \<in> managed s \<and> owned s pa = None \<and> owned s' = (owned s)(pa \<mapsto> 1))"
    if "page_alloc s = (pa, s')" using inv that by (rule page_alloc_law)
  show "palloc_inv (page_free pa s) \<and> managed (page_free pa s) = managed s \<and> owned (page_free pa s) = release pa (owned s)"
    using page_free_effect [OF inv, of pa] window_cong [of s "page_free pa s"] by simp
qed

section \<open>Preservation\<close>

lemma palloc_inv_mmu_on:
  assumes inv: "palloc_inv s"
  shows "palloc_inv (s\<lparr>mmu_enabled := True\<rparr>)"
proof -
  let ?t = "s\<lparr>mmu_enabled := True\<rparr>"
  from inv obtain fl where fl: "free_list s fl" "set fl = free_set s" "free_pages s = length fl"
    "\<And>pa. pa \<in> set fl \<Longrightarrow> ram_page pa"
    by (rule palloc_invE) blast
  have c: "chain (free_link ?t) p xs" if "chain (free_link s) p xs" "\<And>pa. pa \<in> set xs \<Longrightarrow> ram_page pa" for p xs
    using that
  proof (induction xs arbitrary: p)
    case (Cons x xs)
    then have x: "x < 2 ^ 48" "chain (free_link s) (free_link s x) xs" "p = Some x" using ram_page_bounds by auto
    have "free_link s x = None \<or> (\<exists>y. free_link s x = Some y \<and> y < 2 ^ 48)"
      using x(2) Cons.prems(2) ram_page_bounds by (cases xs) auto
    then have "free_link ?t x = free_link s x"
      using x(1) by (auto simp: free_link_ram page_ptr_to_pa_def va_to_pa_def nz_def split: if_splits)
    with x Cons show ?case by auto
  qed auto
  have "free_list ?t fl" using c [OF fl(1) [unfolded free_list_def] fl(4)] by (simp add: free_list_def)
  with fl(2,3) inv show ?thesis
    by (auto simp: palloc_inv_def window_ok_def managed_def free_set_def page_ok_def)
qed

lemma page_free_contiguous_inv:
  assumes inv: "palloc_inv s" and wrap: "pa + n * PAGE_SIZE < two64"
  shows "palloc_inv (page_free_contiguous pa n s)"
proof (cases "n = 0")
  case True
  with inv show ?thesis by (simp add: page_free_contiguous_def)
next
  case False
  show ?thesis
  proof (cases "set (page_range pa n) \<subseteq> dom (owned s)")
    case True
    with False show ?thesis using page_free_contiguous_frees(1) [OF inv _ _ refl] by simp
  next
    case False
    from page_free_contiguous_rejects [OF inv wrap this] inv show ?thesis by auto
  qed
qed

lemma palloc_step_inv: "palloc_step s s' \<Longrightarrow> palloc_inv s \<Longrightarrow> palloc_inv s'"
proof (induction rule: palloc_step.induct)
  case (alloc s pa s')
  then show ?case using page_alloc_law by blast
next
  case (alloc_contiguous n s pa s')
  then show ?case
    by (cases "n = 0 \<or> \<not> (\<exists>r. free_run s n r)")
       (auto simp: page_alloc_contiguous_none elim: page_alloc_contiguous_some [of s n])
next
  case (free s pa)
  then show ?case by (rule page_free_effect)
next
  case (free_contiguous pa n s)
  then show ?case by (intro page_free_contiguous_inv)
next
  case (ref_inc pa s)
  then show ?case by (intro page_ref_inc_effect)
next
  case (ref_dec pa s r s')
  then show ?case using page_free_effect(1) by (auto simp: page_ref_dec_free split: if_splits)
next
  case (owner_write s pa n a v)
  have "a \<notin> free_set s"
  proof
    assume "a \<in> free_set s"
    then have "a \<noteq> pa" "PAGE_SIZE dvd a" using owner_write(1) by (auto simp: free_set_def owned_def managed_def)
    moreover have "PAGE_SIZE dvd pa" using owner_write(1) by (auto simp: owned_def managed_def split: if_splits)
    ultimately show False using owner_write(2,3) by (auto elim!: dvdE)
  qed
  with owner_write(4) show ?case
    by (auto intro!: palloc_inv_cong [of s] simp: same_alloc_def)
next
  case (mmu_on s)
  then show ?case by (rule palloc_inv_mmu_on)
qed

lemma two_page_init:
  assumes e: "s = page_allocator_init (QEMU_VIRT_RAM_END - 2 * PAGE_SIZE) s0"
  shows "palloc_inv s" "owned s = Map.empty" "managed s = {0x47FFE000, 0x47FFF000}" "free_set s = {0x47FFE000, 0x47FFF000}"
proof -
  have k: "va_to_pa (QEMU_VIRT_RAM_END - 2 * PAGE_SIZE) = 0x47FFE000" by (simp add: va_to_pa_def)
  note r = page_allocator_init_inv [OF k _ _ e]
  show i: "palloc_inv s" "owned s = Map.empty" by (rule r; simp)+
  have "managed s = {pa. 0x47FFE000 \<le> pa \<and> ram_page pa}" by (rule r) simp_all
  also have "\<dots> = {0x47FFE000, 0x47FFF000}"
  proof (intro set_eqI iffI)
    fix x :: nat assume "x \<in> {pa. 0x47FFE000 \<le> pa \<and> ram_page pa}"
    then obtain k where "x = 4096 * k" "294910 \<le> k" "k < 294912" by (auto simp: ram_page_def elim!: dvdE)
    then have "k = 294910 \<or> k = 294911" by linarith
    with \<open>x = 4096 * k\<close> show "x \<in> {0x47FFE000, 0x47FFF000}" by auto
  qed (auto simp: ram_page_def)
  finally show "managed s = {0x47FFE000, 0x47FFF000}" .
  then show "free_set s = {0x47FFE000, 0x47FFF000}" using pool_partition [OF i(1)] i(2) by simp
qed

lemmas two_page_boot_inv = two_page_init [OF two_page_boot_def]

lemma ucast_u16_u32: "unat (ucast (w :: u16) :: u32) = unat w"
  by (simp add: unsigned_ucast_eq) (rule take_bit_nat_eq_self, rule less_trans [OF unsigned_less], simp)

lemma two_pages_held_inv:
  "palloc_inv two_pages_held" "owned two_pages_held = [0x47FFE000 \<mapsto> 1, 0x47FFF000 \<mapsto> 1]"
  "managed two_pages_held = {0x47FFE000, 0x47FFF000}" "free_set two_pages_held = {}"
proof -
  note f = two_page_boot_inv(4)
  have run: "free_run two_page_boot 2 q \<longleftrightarrow> q = 0x47FFE000" for q
    by (auto simp: free_run_def f page_range_def upt_conv_Cons)
  obtain r s' where e: "page_alloc_contiguous 2 two_page_boot = (r, s')" and r: "free_run two_page_boot 2 r"
    and inv: "palloc_inv s'" and w: "same_window two_page_boot s'"
    and own: "owned s' = (\<lambda>pa. if pa \<in> set (page_range r 2) then Some 1 else owned two_page_boot pa)"
    by (rule page_alloc_contiguous_some [OF two_page_boot_inv(1), of 2]) (simp, use run in blast, blast)
  have s': "two_pages_held = s'" by (simp add: two_pages_held_def e)
  show i: "palloc_inv two_pages_held" by (simp add: s' inv)
  show o: "owned two_pages_held = [0x47FFE000 \<mapsto> 1, 0x47FFF000 \<mapsto> 1]"
    using r by (auto simp: s' own run two_page_boot_inv(2) page_range_def upt_conv_Cons fun_eq_iff)
  show m: "managed two_pages_held = {0x47FFE000, 0x47FFF000}"
    using window_cong [OF w] two_page_boot_inv(3) by (simp add: s')
  have "pa \<notin> free_set two_pages_held" for pa
    using owned_free_disjoint [of pa two_pages_held] free_set_managed [of two_pages_held] m
    by (auto simp: o split: if_splits)
  then show "free_set two_pages_held = {}" by blast
qed

section \<open>Properties\<close>



text \<open>C2: \<open>page_alloc\<close> returns a page that was free, now held with one reference and all zero, and
  touches nothing else; it fails, changing nothing, exactly when no managed page is free.\<close>

theorem page_alloc_correct:
  assumes "palloc_inv s" "page_alloc s = (pa, s')"
  shows "palloc_inv s' \<and> same_window s s' \<and>
    (if free_set s = {} then pa = 0 \<and> s' = s
     else pa \<in> free_set s \<and> owned s' = (owned s)(pa \<mapsto> 1) \<and> mem s' = clear_page pa (mem s))"
proof (cases "free_set s = {}")
  case True
  with assms show ?thesis by (auto simp: page_alloc_empty)
next
  case False
  with assms(1) obtain p t where r: "page_alloc s = (p, t)" "p \<in> free_set s" "palloc_inv t"
    "page_upd s t p \<lparr>pg_state = PAGE_STATE_ALLOCATED, pg_ref_count = 1\<rparr>" "mem t = clear_page p (mem s)"
    by (rule page_alloc_nonempty)
  have "owned t = (owned s)(p \<mapsto> 1)" by (simp add: owned_upd [OF r(4)])
  with r assms(2) False show ?thesis by (simp add: page_upd_window [OF r(4)])
qed

theorem page_alloc_correct_witness:
  "\<exists>pa s'. page_alloc two_page_boot = (pa, s') \<and> palloc_inv s' \<and> pa \<in> {0x47FFE000, 0x47FFF000} \<and>
     owned s' = [pa \<mapsto> 1] \<and> mem s' pa = 0"
proof -
  obtain pa s' where r: "page_alloc two_page_boot = (pa, s')" by (rule prod.exhaust)
  note f = two_page_boot_inv(4)
  from page_alloc_correct [OF two_page_boot_inv(1) r] r show ?thesis
    by (simp add: f two_page_boot_inv(2))
qed

text \<open>C3: \<open>page_free\<close> drops one reference and returns the page to the pool with the last one; a
  misaligned, foreign or already free address is refused and counted, and no call damages the
  free list or any word but the link of the page that becomes free.\<close>

theorem page_free_correct:
  assumes "palloc_inv s"
  shows "palloc_inv (page_free pa s) \<and> owned (page_free pa s) = release pa (owned s) \<and>
    (\<forall>a. mem (page_free pa s) a = mem s a \<or> a = pa \<and> owned s pa = Some 1) \<and>
    (owned s pa = None \<and> pa \<noteq> 0 \<longrightarrow> page_free pa s =
       (if pa \<in> managed s then s\<lparr>double_free_count := add64 (double_free_count s) 1\<rparr>
        else s\<lparr>invalid_free_count := add64 (invalid_free_count s) 1\<rparr>))"
  using page_free_effect(1,3) [OF assms, where pa = pa] page_free_rejects [of s pa]
    page_free_effect(4) [OF assms, where pa = pa]
  by (intro conjI allI impI) (simp_all, blast)

theorem page_free_correct_witness:
  "owned (page_free 0x47FFE000 two_pages_held) = [0x47FFF000 \<mapsto> 1] \<and>
   page_free 0x1234 two_pages_held =
     two_pages_held\<lparr>invalid_free_count := add64 (invalid_free_count two_pages_held) 1\<rparr>"
  using page_free_correct [OF two_pages_held_inv(1), of "0x47FFE000"]
    page_free_correct [OF two_pages_held_inv(1), of "0x1234"]
  by (simp add: two_pages_held_inv(2,3) release_def fun_eq_iff)

text \<open>C4: on page addresses, \<open>page_ref_inc\<close> adds a reference unless the 16-bit count is at its
  maximum, and \<open>page_ref_dec\<close> drops one and reports exactly the release of the last one; both
  leave pages that are not handed out alone, and \<open>page_ref_get\<close> reads the count.\<close>

theorem page_refs_correct:
  assumes "palloc_inv s" "PAGE_SIZE dvd pa"
  shows "palloc_inv (page_ref_inc pa s) \<and> owned (page_ref_inc pa s) = retain pa (owned s) \<and>
    (case page_ref_dec pa s of (freed, s') \<Rightarrow> palloc_inv s' \<and> freed = (owned s pa = Some 1) \<and>
       owned s' = release pa (owned s)) \<and>
    unat (page_ref_get s pa) = (case owned s pa of None \<Rightarrow> 0 | Some n \<Rightarrow> n)"
proof -
  have "unat (page_ref_get s pa) = (case owned s pa of None \<Rightarrow> 0 | Some n \<Rightarrow> n)"
    using assms(2) by (simp add: page_ref_get_def owned_def managed_def Let_def ucast_u16_u32)
  with page_ref_inc_effect [OF assms] page_free_effect(1,3) [OF assms(1), where pa = pa] assms(1) show ?thesis
    unfolding page_ref_dec_free [OF assms] by (simp add: release_def)
qed

theorem page_refs_correct_witness:
  "owned (page_ref_inc 0x47FFE000 two_pages_held) = [0x47FFE000 \<mapsto> 2, 0x47FFF000 \<mapsto> 1] \<and>
   fst (page_ref_dec 0x47FFE000 two_pages_held)"
  using page_refs_correct [OF two_pages_held_inv(1), of "0x47FFE000"] two_pages_held_inv(2)
  by (simp add: retain_def fun_eq_iff split: prod.splits)

text \<open>C5: \<open>page_alloc_contiguous\<close> finds the lowest run of free pages of the requested length
  whenever one exists, hands every page of it out once and zeroed, and keeps every other page and
  every word outside the free pages; otherwise it fails and changes nothing.\<close>

theorem page_alloc_contiguous_correct:
  assumes "palloc_inv s" "page_alloc_contiguous n s = (r, s')"
  shows "palloc_inv s' \<and>
    (if 0 < n \<and> (\<exists>r. free_run s n r)
     then free_run s n r \<and> (\<forall>r'. free_run s n r' \<longrightarrow> r \<le> r') \<and>
       owned s' = (\<lambda>pa. if pa \<in> set (page_range r n) then Some 1 else owned s pa) \<and>
       (\<forall>a. a \<notin> free_set s' \<longrightarrow> mem s' a = clear_pages (set (page_range r n)) (mem s) a)
     else r = 0 \<and> s' = s)"
proof (cases "0 < n \<and> (\<exists>r. free_run s n r)")
  case True
  then have n: "0 < n" "\<exists>r. free_run s n r" by auto
  obtain p t where "page_alloc_contiguous n s = (p, t)" "free_run s n p"
    "\<And>r'. free_run s n r' \<Longrightarrow> p \<le> r'" "palloc_inv t" "same_window s t"
    "owned t = (\<lambda>pa. if pa \<in> set (page_range p n) then Some 1 else owned s pa)"
    "\<And>a. a \<notin> free_set t \<Longrightarrow> mem t a = clear_pages (set (page_range p n)) (mem s) a"
    by (rule page_alloc_contiguous_some [OF assms(1) n]) blast
  with assms(2) True show ?thesis by simp
next
  case False
  then have "page_alloc_contiguous n s = (0, s)" by (intro page_alloc_contiguous_none [OF assms(1)]) auto
  with assms False show ?thesis by auto
qed

theorem page_alloc_contiguous_correct_witness:
  "palloc_inv two_pages_held \<and> fst (page_alloc_contiguous 1 two_pages_held) = 0"
proof -
  obtain r s' where e: "page_alloc_contiguous 1 two_pages_held = (r, s')" by (rule prod.exhaust)
  have "\<not> free_run two_pages_held 1 q" for q
    by (simp add: free_run_def two_pages_held_inv(4))
  with page_alloc_contiguous_correct [OF two_pages_held_inv(1) e] e two_pages_held_inv(1) show ?thesis by simp
qed

text \<open>C6: \<open>page_free_contiguous\<close> on a range that does not wrap is all or nothing: if every page of the
  range is handed out, all of them become free, whatever their reference counts; otherwise only
  an error counter moves.\<close>

theorem page_free_contiguous_correct:
  assumes "palloc_inv s" "pa + n * PAGE_SIZE < two64" "0 < n"
  shows "palloc_inv (page_free_contiguous pa n s) \<and>
    owned (page_free_contiguous pa n s) =
      (if set (page_range pa n) \<subseteq> dom (owned s) then owned s |` (- set (page_range pa n)) else owned s)"
proof (cases "set (page_range pa n) \<subseteq> dom (owned s)")
  case True
  from page_free_contiguous_frees(1,3) [OF assms(1,3) True refl] True show ?thesis by simp
next
  case False
  have "owned (page_free_contiguous pa n s) = owned s"
    using page_free_contiguous_rejects [OF assms(1,2) False] by (elim disjE exE) simp_all
  with False page_free_contiguous_inv [OF assms(1,2)] show ?thesis by simp
qed

theorem page_free_contiguous_correct_witness:
  "owned (page_free_contiguous 0x47FFE000 2 two_pages_held) = Map.empty \<and>
   owned (page_free_contiguous 0x47FFF000 2 two_pages_held) = owned two_pages_held"
proof -
  have r: "set (page_range a 2) = {a, a + 4096}" for a by (auto simp: page_range_def upt_conv_Cons)
  show ?thesis
    using page_free_contiguous_correct [OF two_pages_held_inv(1), of "0x47FFE000" 2]
      page_free_contiguous_correct [OF two_pages_held_inv(1), of "0x47FFF000" 2]
    by (simp add: r two_pages_held_inv(2) restrict_map_def fun_eq_iff)
qed

end
