(* ===== verification/Heap.thy ===== *)
theory Heap
  imports Page_Alloc
begin

text \<open>
  The kernel heap, \<^verbatim>\<open>src/src/kernel/heap.c\<close>: arenas of contiguous pages taken from the page
  allocator, each tiled by blocks that split on allocation and coalesce on free.  Block and arena
  headers are kept in two typed stores indexed by the address of the structure, a null pointer is
  the address 0, and every walk over a linked list is a partial function whose undefined value is a
  walk that never ends.  The state extends the allocator's.
\<close>

section \<open>Data\<close>

abbreviation KERNEL_HEAP_PAGE_MAGIC :: nat where "KERNEL_HEAP_PAGE_MAGIC \<equiv> 0x4b48454150414745"
abbreviation KERNEL_HEAP_ALIGNMENT :: nat where "KERNEL_HEAP_ALIGNMENT \<equiv> 16"

text \<open>\<open>sizeof(struct kernel_heap_block)\<close> and \<open>sizeof(struct kernel_heap_page)\<close> on AArch64.\<close>

abbreviation sizeof_block :: nat where "sizeof_block \<equiv> 32"
abbreviation sizeof_page_header :: nat where "sizeof_page_header \<equiv> 40"

record kernel_heap_block =
  blk_size :: nat
  blk_is_free :: bool
  blk_next :: nat
  blk_prev :: nat

record kernel_heap_page =
  ar_magic :: nat
  ar_page_count :: nat
  ar_next :: nat
  ar_usable_bytes :: nat
  ar_first_block :: nat

record kheap = palloc +
  hblock :: "nat \<Rightarrow> kernel_heap_block"
  harena :: "nat \<Rightarrow> kernel_heap_page"
  kernel_heap_pages :: nat
  kernel_heap_pages_used :: nat
  kernel_heap_free_space :: nat
  kernel_heap_used_space :: nat
  kernel_heap_allocations :: nat
  kernel_heap_failed :: nat

definition set_block :: "nat \<Rightarrow> (kernel_heap_block \<Rightarrow> kernel_heap_block) \<Rightarrow> 'a kheap_scheme \<Rightarrow> 'a kheap_scheme" where
  "set_block b f s = s\<lparr>hblock := (hblock s)(b := f (hblock s b))\<rparr>"

section \<open>Operations\<close>

definition kernel_heap_align_up :: "nat \<Rightarrow> nat \<Rightarrow> nat" where
  "kernel_heap_align_up value alignment = align_up64 value alignment"

definition kernel_heap_min_split_size :: nat where
  "kernel_heap_min_split_size = sizeof_block + KERNEL_HEAP_ALIGNMENT"

definition kernel_heap_debug_min_page_count :: "nat \<Rightarrow> nat" where
  "kernel_heap_debug_min_page_count min_page_count = (if min_page_count = 0 then 1 else min_page_count)"

definition kernel_heap_pages_for_size :: "nat \<Rightarrow> nat" where
  "kernel_heap_pages_for_size sz =
     (let aligned_size = kernel_heap_align_up sz KERNEL_HEAP_ALIGNMENT;
          block_start = kernel_heap_align_up sizeof_page_header KERNEL_HEAP_ALIGNMENT;
          required_bytes = add64 (add64 block_start sizeof_block) aligned_size
      in kernel_heap_align_up required_bytes PAGE_SIZE div PAGE_SIZE)"

partial_function (option) page_from_pointer_walk :: "'a kheap_scheme \<Rightarrow> nat \<Rightarrow> nat \<Rightarrow> nat option" where
  "page_from_pointer_walk s ptr page =
     (if page = 0 then Some 0
      else if page \<le> ptr \<and> ptr < add64 page (mul64 (ar_page_count (harena s page)) PAGE_SIZE) then
        (if ar_magic (harena s page) = KERNEL_HEAP_PAGE_MAGIC then Some page else Some 0)
      else page_from_pointer_walk s ptr (ar_next (harena s page)))"

definition kernel_heap_page_from_pointer :: "'a kheap_scheme \<Rightarrow> nat \<Rightarrow> nat option" where
  "kernel_heap_page_from_pointer s ptr = page_from_pointer_walk s ptr (kernel_heap_pages s)"

partial_function (option) find_arena_walk ::
    "'a kheap_scheme \<Rightarrow> nat \<Rightarrow> nat \<Rightarrow> nat \<Rightarrow> nat \<Rightarrow> nat option" where
  "find_arena_walk s arena_index min_page_count current_index page =
     (if page = 0 then Some 0
      else if min_page_count \<le> ar_page_count (harena s page) then
        (if current_index = arena_index then Some page
         else find_arena_walk s arena_index min_page_count (add64 current_index 1) (ar_next (harena s page)))
      else find_arena_walk s arena_index min_page_count current_index (ar_next (harena s page)))"

definition kernel_heap_debug_find_arena :: "'a kheap_scheme \<Rightarrow> nat \<Rightarrow> nat \<Rightarrow> nat option" where
  "kernel_heap_debug_find_arena s arena_index min_page_count =
     find_arena_walk s arena_index (kernel_heap_debug_min_page_count min_page_count) 0 (kernel_heap_pages s)"

partial_function (option) arena_usage_walk ::
    "'a kheap_scheme \<Rightarrow> nat \<Rightarrow> nat \<Rightarrow> nat \<Rightarrow> (nat \<times> nat) option" where
  "arena_usage_walk s block free_bytes largest_free_block =
     (if block = 0 then Some (free_bytes, largest_free_block)
      else if blk_is_free (hblock s block) then
        arena_usage_walk s (blk_next (hblock s block)) (add64 free_bytes (blk_size (hblock s block)))
          (max largest_free_block (blk_size (hblock s block)))
      else arena_usage_walk s (blk_next (hblock s block)) free_bytes largest_free_block)"

definition kernel_heap_debug_arena_usage :: "'a kheap_scheme \<Rightarrow> nat \<Rightarrow> (nat \<times> nat) option" where
  "kernel_heap_debug_arena_usage s page = arena_usage_walk s (ar_first_block (harena s page)) 0 0"

definition kernel_heap_add_arena :: "nat \<Rightarrow> 'a kheap_scheme \<Rightarrow> nat \<times> 'a kheap_scheme" where
  "kernel_heap_add_arena page_count s =
     (let (raw_pa, s1) = page_alloc_contiguous page_count s in
      if raw_pa = 0 then (0, s1\<lparr>kernel_heap_failed := add64 (kernel_heap_failed s1) 1\<rparr>)
      else
        (let page = pa_to_va raw_pa;
             block_start = kernel_heap_align_up (add64 page sizeof_page_header) KERNEL_HEAP_ALIGNMENT;
             total_bytes = mul64 page_count PAGE_SIZE;
             usable_bytes = sub64 (sub64 total_bytes (sub64 block_start page)) sizeof_block;
             s2 = s1\<lparr>harena := (harena s1)(page :=
                        \<lparr>ar_magic = KERNEL_HEAP_PAGE_MAGIC, ar_page_count = page_count,
                         ar_next = kernel_heap_pages s1, ar_usable_bytes = usable_bytes,
                         ar_first_block = block_start\<rparr>),
                      kernel_heap_pages := page,
                      kernel_heap_pages_used := add64 (kernel_heap_pages_used s1) page_count,
                      kernel_heap_free_space := add64 (kernel_heap_free_space s1) usable_bytes,
                      hblock := (hblock s1)(block_start :=
                        \<lparr>blk_size = usable_bytes, blk_is_free = True, blk_next = 0, blk_prev = 0\<rparr>)\<rparr>
         in (page, s2)))"

definition kernel_heap_split_block :: "nat \<Rightarrow> nat \<Rightarrow> 'a kheap_scheme \<Rightarrow> 'a kheap_scheme" where
  "kernel_heap_split_block block sz s =
     (if blk_size (hblock s block) < add64 sz kernel_heap_min_split_size then s
      else
        (let remaining_size = sub64 (sub64 (blk_size (hblock s block)) sz) sizeof_block;
             new_block = add64 (add64 block sizeof_block) sz;
             s1 = set_block new_block (\<lambda>_. \<lparr>blk_size = remaining_size, blk_is_free = True,
                    blk_next = blk_next (hblock s block), blk_prev = block\<rparr>) s;
             s2 = (if blk_next (hblock s1 new_block) \<noteq> 0
                   then set_block (blk_next (hblock s1 new_block)) (\<lambda>b. b\<lparr>blk_prev := new_block\<rparr>) s1
                   else s1)
         in set_block block (\<lambda>b. b\<lparr>blk_size := sz, blk_next := new_block\<rparr>) s2))"

partial_function (option) first_fit :: "'a kheap_scheme \<Rightarrow> nat \<Rightarrow> nat \<Rightarrow> nat option" where
  "first_fit s sz block =
     (if block = 0 then Some 0
      else if blk_is_free (hblock s block) \<and> sz \<le> blk_size (hblock s block) then Some block
      else first_fit s sz (blk_next (hblock s block)))"

definition kernel_heap_allocate_from_arena ::
    "nat \<Rightarrow> nat \<Rightarrow> 'a kheap_scheme \<Rightarrow> (nat \<times> 'a kheap_scheme) option" where
  "kernel_heap_allocate_from_arena page sz s =
     Option.bind (first_fit s sz (ar_first_block (harena s page))) (\<lambda>block.
       if block = 0 then Some (0, s)
       else
         (let s1 = kernel_heap_split_block block sz s;
              s2 = set_block block (\<lambda>b. b\<lparr>blk_is_free := False\<rparr>) s1
          in Some (add64 block sizeof_block,
               s2\<lparr>kernel_heap_free_space := sub64 (kernel_heap_free_space s2) (blk_size (hblock s2 block)),
                  kernel_heap_used_space := add64 (kernel_heap_used_space s2) (blk_size (hblock s2 block)),
                  kernel_heap_allocations := add64 (kernel_heap_allocations s2) 1\<rparr>)))"

text \<open>The two merges of \<open>kernel_heap_coalesce\<close>, with the block behind and with the block in front.\<close>

definition coalesce_next :: "nat \<Rightarrow> 'a kheap_scheme \<Rightarrow> 'a kheap_scheme" where
  "coalesce_next block s =
     (let n = blk_next (hblock s block) in
      if n \<noteq> 0 \<and> blk_is_free (hblock s n) then
        (let t = set_block block (\<lambda>b. b\<lparr>blk_size := add64 (blk_size b) (add64 sizeof_block (blk_size (hblock s n))),
                    blk_next := blk_next (hblock s n)\<rparr>) s;
             n' = blk_next (hblock t block)
         in if n' \<noteq> 0 then set_block n' (\<lambda>b. b\<lparr>blk_prev := block\<rparr>) t else t)
      else s)"

definition coalesce_prev :: "nat \<Rightarrow> 'a kheap_scheme \<Rightarrow> 'a kheap_scheme" where
  "coalesce_prev block s =
     (let p = blk_prev (hblock s block) in
      if p \<noteq> 0 \<and> blk_is_free (hblock s p) then
        (let t = set_block p (\<lambda>b. b\<lparr>blk_size := add64 (blk_size b) (add64 sizeof_block (blk_size (hblock s block))),
                    blk_next := blk_next (hblock s block)\<rparr>) s;
             n' = blk_next (hblock t block)
         in if n' \<noteq> 0 then set_block n' (\<lambda>b. b\<lparr>blk_prev := p\<rparr>) t else t)
      else s)"

definition kernel_heap_coalesce :: "nat \<Rightarrow> 'a kheap_scheme \<Rightarrow> 'a kheap_scheme" where
  "kernel_heap_coalesce block s = coalesce_prev block (coalesce_next block s)"

definition kernel_heap_init :: "'a kheap_scheme \<Rightarrow> 'a kheap_scheme" where
  "kernel_heap_init s =
     snd (kernel_heap_add_arena 1
       (s\<lparr>kernel_heap_pages := 0, kernel_heap_pages_used := 0, kernel_heap_free_space := 0,
          kernel_heap_used_space := 0, kernel_heap_allocations := 0, kernel_heap_failed := 0\<rparr>))"

text \<open>The walk of \<open>kmalloc\<close> over the arenas, trying each.\<close>

partial_function (option) kmalloc_walk :: "nat \<Rightarrow> nat \<Rightarrow> 'a kheap_scheme \<Rightarrow> (nat \<times> 'a kheap_scheme) option" where
  "kmalloc_walk aligned_size page s =
     (if page = 0 then Some (0, s)
      else Option.bind (kernel_heap_allocate_from_arena page aligned_size s) (\<lambda>r.
        if fst r \<noteq> 0 then Some r else kmalloc_walk aligned_size (ar_next (harena (snd r) page)) (snd r)))"

definition kmalloc :: "nat \<Rightarrow> 'a kheap_scheme \<Rightarrow> (nat \<times> 'a kheap_scheme) option" where
  "kmalloc sz s =
     (if sz = 0 then Some (0, s)
      else
        (let aligned_size = kernel_heap_align_up sz KERNEL_HEAP_ALIGNMENT;
             required_pages = kernel_heap_pages_for_size aligned_size
         in Option.bind (kmalloc_walk aligned_size (kernel_heap_pages s) s) (\<lambda>r.
              if fst r \<noteq> 0 then Some r
              else
                (let (page, s1) = kernel_heap_add_arena required_pages (snd r)
                 in if page = 0 then Some (0, s1)
                    else kernel_heap_allocate_from_arena page aligned_size s1))))"

definition kfree :: "nat \<Rightarrow> 'a kheap_scheme \<Rightarrow> 'a kheap_scheme option" where
  "kfree ptr s =
     (if ptr = 0 then Some s
      else Option.bind (kernel_heap_page_from_pointer s ptr) (\<lambda>page.
        if page = 0 then Some s
        else
          (let block = sub64 ptr sizeof_block in
           if blk_is_free (hblock s block) then Some s
           else
             (let s1 = set_block block (\<lambda>b. b\<lparr>blk_is_free := True\<rparr>) s;
                  s2 = s1\<lparr>kernel_heap_used_space := sub64 (kernel_heap_used_space s1) (blk_size (hblock s1 block)),
                          kernel_heap_free_space := add64 (kernel_heap_free_space s1) (blk_size (hblock s1 block))\<rparr>
              in Some (kernel_heap_coalesce block s2)))))"

partial_function (option) arena_count_walk :: "'a kheap_scheme \<Rightarrow> nat \<Rightarrow> nat \<Rightarrow> nat \<Rightarrow> nat option" where
  "arena_count_walk s min_page_count page count =
     (if page = 0 then Some count
      else arena_count_walk s min_page_count (ar_next (harena s page))
             (if min_page_count \<le> ar_page_count (harena s page) then add64 count 1 else count))"

definition kernel_heap_debug_arena_count :: "'a kheap_scheme \<Rightarrow> nat \<Rightarrow> nat option" where
  "kernel_heap_debug_arena_count s min_page_count =
     arena_count_walk s (kernel_heap_debug_min_page_count min_page_count) (kernel_heap_pages s) 0"

section \<open>Specification\<close>

text \<open>
  An arena seen abstractly is the list of its blocks from the lowest address up, each a payload
  size and a free flag.  \<open>tiles e h p b ts q n\<close>: the headers stored in \<open>h\<close> from address \<open>b\<close> up to \<open>n\<close>
  are exactly the blocks \<open>ts\<close>, doubly linked, in an arena that ends at \<open>e\<close>; \<open>p\<close> is the block before
  \<open>b\<close> and \<open>q\<close> the last block.
\<close>

type_synonym tile = "nat \<times> bool"

primrec tiles :: "nat \<Rightarrow> (nat \<Rightarrow> kernel_heap_block) \<Rightarrow> nat \<Rightarrow> nat \<Rightarrow> tile list \<Rightarrow> nat \<Rightarrow> nat \<Rightarrow> bool" where
  "tiles e h p b [] q n \<longleftrightarrow> q = p \<and> n = b"
| "tiles e h p b (t # ts) q n \<longleftrightarrow>
     h b = \<lparr>blk_size = fst t, blk_is_free = snd t,
            blk_next = (if b + 32 + fst t = e then 0 else b + 32 + fst t), blk_prev = p\<rparr> \<and>
     b + 32 + fst t \<le> e \<and> tiles e h b (b + 32 + fst t) ts q n"

definition span :: "tile list \<Rightarrow> nat" where
  "span ts = (\<Sum>t\<leftarrow>ts. 32 + fst t)"

definition used :: "tile list \<Rightarrow> nat" where
  "used ts = (\<Sum>t\<leftarrow>ts. if snd t then 0 else fst t)"

text \<open>First fit and coalescing on the abstract arena.\<close>

fun alloc_tiles :: "nat \<Rightarrow> tile list \<Rightarrow> (nat \<times> tile list) option" where
  "alloc_tiles sz [] = None"
| "alloc_tiles sz ((z, f) # ts) =
     (if f \<and> sz \<le> z then
        Some (0, (if z < sz + 48 then (z, False) # ts else (sz, False) # (z - sz - 32, True) # ts))
      else map_option (\<lambda>(d, ts'). (32 + z + d, (z, f) # ts')) (alloc_tiles sz ts))"

fun join_right :: "nat \<Rightarrow> tile list \<Rightarrow> tile list" where
  "join_right z ((y, True) # ts) = (z + 32 + y, True) # ts"
| "join_right z ts = (z, True) # ts"

fun free_tiles :: "tile list \<Rightarrow> nat \<Rightarrow> tile list \<Rightarrow> tile list" where
  "free_tiles [] z ys = join_right z ys"
| "free_tiles [(w, True)] z ys = (case join_right z ys of t # ts \<Rightarrow> (w + 32 + fst t, True) # ts)"
| "free_tiles (x # xs) z ys = x # free_tiles xs z ys"

text \<open>No two neighbours are free, and payloads are 16-byte multiples.\<close>

definition tidy :: "tile list \<Rightarrow> bool" where
  "tidy ts \<longleftrightarrow> successively (\<lambda>x y. \<not> (snd x \<and> snd y)) ts \<and> (\<forall>t \<in> set ts. 16 dvd fst t)"

definition same_but_blocks :: "'a kheap_scheme \<Rightarrow> 'a kheap_scheme \<Rightarrow> nat \<Rightarrow> nat \<Rightarrow> bool" where
  "same_but_blocks s s' b e \<longleftrightarrow> (\<exists>h. s' = s\<lparr>hblock := h\<rparr>) \<and> (\<forall>x. x < b \<or> e \<le> x \<longrightarrow> hblock s' x = hblock s x)"

text \<open>Two neighbours become one block.\<close>

definition join_blocks :: "nat \<Rightarrow> nat \<Rightarrow> (nat \<Rightarrow> kernel_heap_block) \<Rightarrow> nat \<Rightarrow> kernel_heap_block" where
  "join_blocks b c h =
     (let t = h(b := (h b)\<lparr>blk_size := blk_size (h b) + 32 + blk_size (h c), blk_next := blk_next (h c)\<rparr>)
      in if blk_next (h c) \<noteq> 0 then t(blk_next (h c) := (h (blk_next (h c)))\<lparr>blk_prev := b\<rparr>) else t)"

text \<open>The live allocations of an arena, payload address and size, lowest first.\<close>

primrec live :: "nat \<Rightarrow> tile list \<Rightarrow> (nat \<times> nat) list" where
  "live b [] = []"
| "live b (t # ts) = (if snd t then [] else [(b + 32, fst t)]) @ live (b + 32 + fst t) ts"

definition arena_end :: "'a kheap_scheme \<Rightarrow> nat \<Rightarrow> nat" where
  "arena_end s a = a + PAGE_SIZE * ar_page_count (harena s a)"

definition arena_pages :: "'a kheap_scheme \<Rightarrow> nat \<Rightarrow> nat set" where
  "arena_pages s a = set (page_range (a - KERNEL_VA_OFFSET) (ar_page_count (harena s a)))"

definition arena_ok :: "'a kheap_scheme \<Rightarrow> nat \<Rightarrow> tile list \<Rightarrow> bool" where
  "arena_ok s a ts \<longleftrightarrow> KERNEL_VA_OFFSET \<le> a \<and> ar_magic (harena s a) = KERNEL_HEAP_PAGE_MAGIC \<and>
     0 < ar_page_count (harena s a) \<and> ar_first_block (harena s a) = a + 48 \<and>
     ar_usable_bytes (harena s a) + 80 = PAGE_SIZE * ar_page_count (harena s a) \<and>
     (\<exists>q. tiles (arena_end s a) (hblock s) 0 (a + 48) ts q (arena_end s a)) \<and> tidy ts"

text \<open>
  The heap invariant, with the list of arenas and the blocks of each as the abstract value: the
  arenas are linked, disjoint, tiled by their blocks, and made of pages the allocator has handed
  out once; the byte counters agree with the blocks.
\<close>

definition heap_rep :: "'a kheap_scheme \<Rightarrow> nat list \<Rightarrow> (nat \<Rightarrow> tile list) \<Rightarrow> bool" where
  "heap_rep s as T \<longleftrightarrow> palloc_inv s \<and>
     chain (\<lambda>a. nz (ar_next (harena s a))) (nz (kernel_heap_pages s)) as \<and>
     (\<forall>a \<in> set as. arena_ok s a (T a) \<and> (\<forall>pa \<in> arena_pages s a. owned s pa = Some 1)) \<and>
     (\<forall>a \<in> set as. \<forall>b \<in> set as. a \<noteq> b \<longrightarrow> arena_pages s a \<inter> arena_pages s b = {}) \<and>
     kernel_heap_used_space s = (\<Sum>a\<leftarrow>as. used (T a)) \<and>
     kernel_heap_free_space s + kernel_heap_used_space s = (\<Sum>a\<leftarrow>as. ar_usable_bytes (harena s a))"

definition allocations :: "nat list \<Rightarrow> (nat \<Rightarrow> tile list) \<Rightarrow> (nat \<times> nat) set" where
  "allocations as T = (\<Union>a \<in> set as. set (live (a + 48) (T a)))"

definition heap_holds :: "'a kheap_scheme \<Rightarrow> (nat \<times> nat) set \<Rightarrow> bool" where
  "heap_holds s L \<longleftrightarrow> (\<exists>as T. heap_rep s as T \<and> L = allocations as T)"

text \<open>Two pages of RAM in the page allocator and a heap that has no arena yet; the argument is the rest of the state.\<close>

definition heap_cold_of :: "'a \<Rightarrow> 'a kheap_scheme" where
  "heap_cold_of m = (page_allocator_init (QEMU_VIRT_RAM_END - 2 * PAGE_SIZE)
     \<lparr>mmu_enabled = True, mem = (\<lambda>_. 7), page_free_list_pa = 0, total_pages = 0, free_pages = 0,
      reserved_bytes = 0, managed_start = 0, managed_end = 0, invalid_free_count = 0,
      double_free_count = 0, pages = (\<lambda>_. \<lparr>pg_state = 0, pg_ref_count = 0\<rparr>),
      hblock = \<lambda>_. \<lparr>blk_size = 0, blk_is_free = False, blk_next = 0, blk_prev = 0\<rparr>,
      harena = \<lambda>_. \<lparr>ar_magic = 0, ar_page_count = 0, ar_next = 0, ar_usable_bytes = 0, ar_first_block = 0\<rparr>,
      kernel_heap_pages = 0, kernel_heap_pages_used = 0, kernel_heap_free_space = 0,
      kernel_heap_used_space = 0, kernel_heap_allocations = 0, kernel_heap_failed = 0, \<dots> = m\<rparr>)
     \<lparr>kernel_heap_pages := 0, kernel_heap_used_space := 0, kernel_heap_free_space := 0\<rparr>"

definition heap_cold :: kheap where
  "heap_cold = heap_cold_of ()"

text \<open>
  What a client of a memory allocator relies on: a set of addresses stays held while other blocks come and go, the block
  it gets is a new one, and the rest of the state is left alone.
\<close>

definition held :: "(nat \<times> nat) set \<Rightarrow> nat set \<Rightarrow> bool" where
  "held L A \<longleftrightarrow> (\<forall>p \<in> A. \<exists>n > 0. (p, n) \<in> L)"

section \<open>Tilings\<close>

lemma span_simps [simp]: "span [] = 0" "span (t # ts) = 32 + fst t + span ts" "span (xs @ ys) = span xs + span ys"
  by (simp_all add: span_def)

lemma used_simps [simp]:
  "used [] = 0" "used (t # ts) = (if snd t then 0 else fst t) + used ts" "used (xs @ ys) = used xs + used ys"
  by (simp_all add: used_def)

lemma used_le_span: "used ts \<le> span ts"
  by (induction ts) auto

lemma tiles_append:
  "tiles e h p b (xs @ ys) q n \<longleftrightarrow> (\<exists>r m. tiles e h p b xs r m \<and> tiles e h r m ys q n)"
  by (induction xs arbitrary: p b) auto

lemma tiles_span: "tiles e h p b ts q n \<Longrightarrow> n = b + span ts"
proof (induction ts arbitrary: p b)
  case (Cons t ts)
  then show ?case using Cons.IH [of b "b + 32 + fst t"] by simp
qed simp

lemma tiles_end: "tiles e h p b ts q n \<Longrightarrow> ts \<noteq> [] \<Longrightarrow> n \<le> e"
proof (induction ts arbitrary: p b)
  case (Cons t ts)
  then show ?case by (cases "ts = []") auto
qed simp

lemma tiles_cong:
  "(\<And>x. b \<le> x \<Longrightarrow> x < n \<Longrightarrow> h' x = h x) \<Longrightarrow> tiles e h p b ts q n \<Longrightarrow> tiles e h' p b ts q n"
proof (induction ts arbitrary: p b)
  case (Cons t ts)
  then have "n = b + span (t # ts)" by (intro tiles_span)
  with Cons.prems have "h' b = h b" by simp
  with Cons show ?case by simp
qed simp

text \<open>The first block of a non-empty tiling learns a new predecessor.\<close>

lemma tiles_prev:
  assumes "tiles e h p b (t # ts) q n"
  shows "\<exists>q'. tiles e (h(b := (h b)\<lparr>blk_prev := p'\<rparr>)) p' b (t # ts) q' n"
proof -
  have "tiles e (h(b := (h b)\<lparr>blk_prev := p'\<rparr>)) b (b + 32 + fst t) ts q n"
    by (rule tiles_cong [of _ _ _ h]) (use assms in auto)
  with assms show ?thesis by auto
qed

text \<open>What follows a block: nothing at the end of the arena, else the block behind it.\<close>

abbreviation succ_addr :: "nat \<Rightarrow> nat \<Rightarrow> nat" where
  "succ_addr e a \<equiv> if a = e then 0 else a"

lemma tiles_rest_empty: "tiles e h p b ts q e \<Longrightarrow> ts = [] \<longleftrightarrow> b = e"
  by (cases ts) (auto dest: tiles_span)

section \<open>First fit refines the abstract allocation\<close>

lemma first_fit_tiles:
  "tiles e (hblock s) p b ts q e \<Longrightarrow> 0 < b \<Longrightarrow>
     first_fit s sz (succ_addr e b) = Some (case alloc_tiles sz ts of None \<Rightarrow> 0 | Some (d, _) \<Rightarrow> b + d)"
proof (induction ts arbitrary: p b)
  case Nil
  then show ?case by (subst first_fit.simps) simp
next
  case (Cons t ts)
  obtain z f where t: "t = (z, f)" by (rule prod.exhaust)
  from Cons.prems t have h: "hblock s b = \<lparr>blk_size = z, blk_is_free = f,
      blk_next = succ_addr e (b + 32 + z), blk_prev = p\<rparr>" "b < e"
    and rest: "tiles e (hblock s) b (b + 32 + z) ts q e"
    by auto
  show ?case
  proof (cases "f \<and> sz \<le> z")
    case True
    with h Cons.prems(2) show ?thesis by (subst first_fit.simps) (simp add: t)
  next
    case False
    have "first_fit s sz (succ_addr e b) = first_fit s sz (succ_addr e (b + 32 + z))"
      using h False Cons.prems(2) by (subst first_fit.simps) auto
    with Cons.IH [OF rest] False show ?thesis
      by (auto simp: t split: option.splits)
  qed
qed

lemma same_but_blocks_refl: "same_but_blocks s s b e"
  unfolding same_but_blocks_def by (intro conjI exI [of _ "hblock s"]) simp_all

lemma same_but_blocks_trans:
  "same_but_blocks s s1 b e \<Longrightarrow> same_but_blocks s1 s2 c e \<Longrightarrow> b \<le> c \<Longrightarrow> same_but_blocks s s2 b e"
  by (auto simp: same_but_blocks_def)

lemma same_but_blocks_upd:
  "(\<And>x. x < b \<or> e \<le> x \<Longrightarrow> h x = hblock s x) \<Longrightarrow> same_but_blocks s (s\<lparr>hblock := h\<rparr>) b e"
  by (auto simp: same_but_blocks_def)

lemma same_but_blocks_low: "same_but_blocks s s' b e \<Longrightarrow> c \<le> b \<Longrightarrow> same_but_blocks s s' c e"
  by (auto simp: same_but_blocks_def)

lemma split_fits:
  assumes "blk_size (hblock s b) = z" "z < sz + 48" "sz + 48 < two64"
  shows "kernel_heap_split_block b sz s = s"
  using assms by (simp add: kernel_heap_split_block_def kernel_heap_min_split_size_def add64_exact)

lemma split_tail:
  assumes h: "hblock s b = \<lparr>blk_size = z, blk_is_free = True, blk_next = y, blk_prev = p\<rparr>"
    and z: "sz + 48 \<le> z" "b + 32 + z < two64" and y: "y = 0 \<or> y = b + 32 + z"
  shows "kernel_heap_split_block b sz s = s\<lparr>hblock :=
     (let nb = b + 32 + sz;
          h1 = (hblock s)(nb := \<lparr>blk_size = z - sz - 32, blk_is_free = True, blk_next = y, blk_prev = b\<rparr>);
          h2 = (if y \<noteq> 0 then h1(y := (hblock s y)\<lparr>blk_prev := nb\<rparr>) else h1)
      in h2(b := \<lparr>blk_size = sz, blk_is_free = True, blk_next = nb, blk_prev = p\<rparr>))\<rparr>"
proof -
  have a: "add64 sz 48 = sz + 48" "add64 (add64 b 32) sz = b + 32 + sz" "sub64 (sub64 z sz) 32 = z - sz - 32"
    using z by (simp_all add: add64_exact sub64_exact)
  have big: "\<not> z < sz + 48" using z by simp
  show ?thesis
  proof (cases "y = 0")
    case True
    then show ?thesis
      by (simp add: kernel_heap_split_block_def kernel_heap_min_split_size_def h a big set_block_def Let_def)
  next
    case False
    with y have yb: "y = b + 32 + z" by simp
    with z(1) have ne: "y \<noteq> b + 32 + sz" "b \<noteq> y" by simp_all
    with False show ?thesis
      by (simp add: kernel_heap_split_block_def kernel_heap_min_split_size_def h a big set_block_def Let_def)
  qed
qed

lemma alloc_head_fits:
  assumes t: "tiles e (hblock s) p b ((z, True) # ts) q e" and z: "z < sz + 48" "sz + 48 < two64"
    and s2: "s2 = set_block b (\<lambda>b. b\<lparr>blk_is_free := False\<rparr>) (kernel_heap_split_block b sz s)"
  shows "tiles e (hblock s2) p b ((z, False) # ts) q e" "same_but_blocks s s2 b e" "blk_size (hblock s2 b) = z"
proof -
  from t have h: "hblock s b = \<lparr>blk_size = z, blk_is_free = True, blk_next = succ_addr e (b + 32 + z), blk_prev = p\<rparr>"
    and le: "b + 32 + z \<le> e" and rest: "tiles e (hblock s) b (b + 32 + z) ts q e"
    by auto
  have "kernel_heap_split_block b sz s = s" by (rule split_fits) (use h z in simp_all)
  then have e: "s2 = s\<lparr>hblock := (hblock s)(b := (hblock s b)\<lparr>blk_is_free := False\<rparr>)\<rparr>"
    by (simp add: s2 set_block_def)
  have "tiles e (hblock s2) b (b + 32 + z) ts q e"
    by (rule tiles_cong [OF _ rest]) (simp add: e)
  with le show "tiles e (hblock s2) p b ((z, False) # ts) q e" by (simp add: e h)
  show "same_but_blocks s s2 b e" unfolding e by (rule same_but_blocks_upd) (use le in auto)
  show "blk_size (hblock s2 b) = z" by (simp add: e h)
qed

lemma alloc_head_split:
  assumes t: "tiles e (hblock s) p b ((z, True) # ts) q e" and z: "sz + 48 \<le> z" and e: "e < two64" and b: "0 < b"
    and s2: "s2 = set_block b (\<lambda>b. b\<lparr>blk_is_free := False\<rparr>) (kernel_heap_split_block b sz s)"
  shows "\<exists>q'. tiles e (hblock s2) p b ((sz, False) # (z - sz - 32, True) # ts) q' e"
    "same_but_blocks s s2 b e" "blk_size (hblock s2 b) = sz"
proof -
  let ?nb = "b + 32 + sz" and ?c = "b + 32 + z"
  define y where "y = succ_addr e ?c"
  from t have h: "hblock s b = \<lparr>blk_size = z, blk_is_free = True, blk_next = y, blk_prev = p\<rparr>"
    and le: "?c \<le> e" and rest: "tiles e (hblock s) b ?c ts q e"
    by (auto simp: y_def)
  define h1 where "h1 = (hblock s)(?nb := \<lparr>blk_size = z - sz - 32, blk_is_free = True, blk_next = y, blk_prev = b\<rparr>)"
  define h2 where "h2 = (if y \<noteq> 0 then h1(y := (hblock s y)\<lparr>blk_prev := ?nb\<rparr>) else h1)"
  have y: "y = 0 \<or> y = ?c" by (simp add: y_def)
  have y': "y = 0 \<or> y = ?c \<and> ?c < e" using le by (simp add: y_def)
  have "kernel_heap_split_block b sz s = s\<lparr>hblock := h2(b := \<lparr>blk_size = sz, blk_is_free = True, blk_next = ?nb, blk_prev = p\<rparr>)\<rparr>"
    using split_tail [OF h z _ y] le e by (simp add: h1_def h2_def Let_def)
  then have s2': "s2 = s\<lparr>hblock := h2(b := \<lparr>blk_size = sz, blk_is_free = False, blk_next = ?nb, blk_prev = p\<rparr>)\<rparr>"
    by (simp add: s2 set_block_def)
  have nb: "?nb \<noteq> y" "?nb \<noteq> b" "?nb \<noteq> e" "b < ?c" "?nb < ?c" "?nb \<le> e" using z y b le by auto
  have at_nb: "hblock s2 ?nb = \<lparr>blk_size = z - sz - 32, blk_is_free = True, blk_next = y, blk_prev = b\<rparr>"
    using nb by (simp add: s2' h2_def h1_def)
  have len: "?nb + 32 + (z - sz - 32) = ?c" using z by simp
  have "\<exists>q'. tiles e (hblock s2) ?nb ?c ts q' e"
  proof (cases ts)
    case Nil
    with rest show ?thesis by simp
  next
    case (Cons t' ts')
    with rest tiles_rest_empty [OF rest] have yc: "y = ?c" by (simp add: y_def)
    from tiles_prev [OF rest [unfolded Cons], of ?nb] obtain q' where
      "tiles e ((hblock s)(?c := (hblock s ?c)\<lparr>blk_prev := ?nb\<rparr>)) ?nb ?c ts q' e" using Cons by auto
    then have "tiles e (hblock s2) ?nb ?c ts q' e"
      by (rule tiles_cong [rotated]) (use nb yc b in \<open>auto simp: s2' h2_def h1_def\<close>)
    then show ?thesis by blast
  qed
  then obtain q' where "tiles e (hblock s2) ?nb ?c ts q' e" by blast
  then have "tiles e (hblock s2) b ?nb ((z - sz - 32, True) # ts) q' e"
    unfolding tiles.simps fst_conv snd_conv len using at_nb le by (simp only: y_def simp_thms)
  moreover have "hblock s2 b = \<lparr>blk_size = sz, blk_is_free = False, blk_next = ?nb, blk_prev = p\<rparr>"
    by (simp add: s2')
  ultimately have "tiles e (hblock s2) p b ((sz, False) # (z - sz - 32, True) # ts) q' e"
    unfolding tiles.simps(2) [of _ _ _ _ "(sz, False)"] fst_conv snd_conv using nb by (simp only: if_False simp_thms)
  then show "\<exists>q'. tiles e (hblock s2) p b ((sz, False) # (z - sz - 32, True) # ts) q' e" by (rule exI)
  have "hblock s2 x = hblock s x" if "x < b \<or> e \<le> x" for x
    using that nb y' le by (auto simp: s2' h2_def h1_def)
  then show "same_but_blocks s s2 b e" unfolding s2' by (intro same_but_blocks_upd) simp
  show "blk_size (hblock s2 b) = sz" by (simp add: s2')
qed

text \<open>The allocation step anywhere in the arena.\<close>

lemma alloc_tiles_refines:
  assumes "tiles e (hblock s) p b ts q e" "alloc_tiles sz ts = Some (d, ts')" "e + 80 < two64" "0 < b"
    and "s2 = set_block (b + d) (\<lambda>b. b\<lparr>blk_is_free := False\<rparr>) (kernel_heap_split_block (b + d) sz s)"
  shows "(\<exists>q'. tiles e (hblock s2) p b ts' q' e) \<and> same_but_blocks s s2 b e \<and>
    used ts' = used ts + blk_size (hblock s2 (b + d)) \<and> sz \<le> blk_size (hblock s2 (b + d))"
  using assms
proof (induction ts arbitrary: p b d ts')
  case (Cons t ts)
  obtain z f where t: "t = (z, f)" by (rule prod.exhaust)
  have le: "b + 32 + z \<le> e" using Cons.prems(1) t by simp
  show ?case
  proof (cases "f \<and> sz \<le> z")
    case True
    then have d: "d = 0" and f: "f" "sz \<le> z"
      and ts': "ts' = (if z < sz + 48 then (z, False) # ts else (sz, False) # (z - sz - 32, True) # ts)"
      using Cons.prems(2) t by auto
    have tl: "tiles e (hblock s) p b ((z, True) # ts) q e" using Cons.prems(1) t f by simp
    have s2: "s2 = set_block b (\<lambda>b. b\<lparr>blk_is_free := False\<rparr>) (kernel_heap_split_block b sz s)"
      using Cons.prems(5) d by simp
    show ?thesis
    proof (cases "z < sz + 48")
      case True
      have lt: "sz + 48 < two64" using le Cons.prems(3) f by simp
      note r = alloc_head_fits [OF tl True lt s2]
      have "ts' = (z, False) # ts" using ts' True by simp
      with r d f t show ?thesis by auto
    next
      case False
      have e: "e < two64" "sz + 48 \<le> z" using Cons.prems(3) False by simp_all
      note r = alloc_head_split [OF tl e(2,1) Cons.prems(4) s2]
      have "ts' = (sz, False) # (z - sz - 32, True) # ts" using ts' False by simp
      with r d f t show ?thesis by auto
    qed
  next
    case False
    then obtain d1 ts1 where d1: "alloc_tiles sz ts = Some (d1, ts1)" "d = 32 + z + d1" "ts' = t # ts1"
      using Cons.prems(2) t by auto
    have rest: "tiles e (hblock s) b (b + 32 + z) ts q e" and hb: "hblock s b = \<lparr>blk_size = z, blk_is_free = f,
        blk_next = succ_addr e (b + 32 + z), blk_prev = p\<rparr>"
      using Cons.prems(1) t by simp_all
    have at: "b + d = b + 32 + z + d1" using d1(2) by simp
    have "0 < b + 32 + z" by simp
    note ih = Cons.IH [OF rest d1(1) Cons.prems(3) this Cons.prems(5) [unfolded at]]
    from ih have sb: "same_but_blocks s s2 (b + 32 + z) e" by (elim conjE)
    have fr: "hblock s2 b = hblock s b" using sb by (simp add: same_but_blocks_def)
    obtain q' where "tiles e (hblock s2) b (b + 32 + z) ts1 q' e" using ih by auto
    then have "tiles e (hblock s2) p b ts' q' e"
      using fr hb le d1(3) t by simp
    moreover have "same_but_blocks s s2 b e" by (rule same_but_blocks_low [OF sb]) simp
    ultimately show ?thesis using ih unfolding at d1(3) by auto
  qed
qed simp

section \<open>Coalescing refines the abstract free\<close>

lemma join_tiles:
  assumes t: "tiles e h p b ((z, f) # (y, g) # ts) q e" and b: "0 < b"
  shows "\<exists>q'. tiles e (join_blocks b (b + 32 + z) h) p b ((z + 32 + y, f) # ts) q' e"
    "x < b \<or> e \<le> x \<Longrightarrow> join_blocks b (b + 32 + z) h x = h x"
proof -
  let ?c = "b + 32 + z"
  let ?d = "?c + 32 + y"
  define n where "n = succ_addr e ?d"
  from t have hb: "h b = \<lparr>blk_size = z, blk_is_free = f, blk_next = succ_addr e ?c, blk_prev = p\<rparr>"
    and hc: "h ?c = \<lparr>blk_size = y, blk_is_free = g, blk_next = n, blk_prev = b\<rparr>"
    and le: "?d \<le> e" and rest: "tiles e h ?c ?d ts q e"
    by (simp_all add: n_def)
  have n: "n = 0 \<or> n = ?d \<and> ?d < e" using le by (simp add: n_def)
  define h' where "h' = join_blocks b ?c h"
  have h': "h' = (let t = h(b := \<lparr>blk_size = z + 32 + y, blk_is_free = f, blk_next = n, blk_prev = p\<rparr>)
      in if n \<noteq> 0 then t(n := (h n)\<lparr>blk_prev := b\<rparr>) else t)"
    by (simp add: h'_def join_blocks_def hb hc Let_def)
  have "\<exists>q'. tiles e h' b ?d ts q' e"
  proof (cases ts)
    case Nil
    with rest show ?thesis by simp
  next
    case (Cons t' ts')
    with tiles_rest_empty [OF rest] have nd: "n = ?d" by (simp add: n_def)
    from tiles_prev [OF rest [unfolded Cons], of b] obtain q' where
      "tiles e (h(?d := (h ?d)\<lparr>blk_prev := b\<rparr>)) b ?d ts q' e" using Cons by auto
    then have "tiles e h' b ?d ts q' e"
      by (rule tiles_cong [rotated]) (use nd b in \<open>auto simp: h' Let_def\<close>)
    then show ?thesis by blast
  qed
  then obtain q' where q': "tiles e h' b ?d ts q' e" by blast
  have at_b: "h' b = \<lparr>blk_size = z + 32 + y, blk_is_free = f, blk_next = n, blk_prev = p\<rparr>"
    using n by (auto simp: h' Let_def)
  have len: "b + 32 + (z + 32 + y) = ?d" by simp
  have "tiles e h' p b ((z + 32 + y, f) # ts) q' e"
    unfolding tiles.simps fst_conv snd_conv len using at_b le q' by (simp only: n_def simp_thms)
  then show "\<exists>q'. tiles e (join_blocks b ?c h) p b ((z + 32 + y, f) # ts) q' e"
    unfolding h'_def by (rule exI)
  show "x < b \<or> e \<le> x \<Longrightarrow> join_blocks b ?c h x = h x"
    using n le by (auto simp: h'_def [symmetric] h' Let_def)
qed

lemma coalesce_next_join:
  assumes t: "tiles e (hblock s) p b ((z, f) # (y, True) # ts) q e" and e: "e < two64" and b: "0 < b"
  shows "coalesce_next b s = s\<lparr>hblock := join_blocks b (b + 32 + z) (hblock s)\<rparr>"
proof -
  let ?c = "b + 32 + z"
  from t have hb: "hblock s b = \<lparr>blk_size = z, blk_is_free = f, blk_next = ?c, blk_prev = p\<rparr>"
    and hc: "hblock s ?c = \<lparr>blk_size = y, blk_is_free = True, blk_next = succ_addr e (?c + 32 + y), blk_prev = b\<rparr>"
    and le: "?c + 32 + y \<le> e"
    by simp_all
  have "add64 z (add64 32 y) = z + 32 + y" using le e by (simp add: add64_exact)
  then show ?thesis
    using b by (simp add: coalesce_next_def hb hc set_block_def join_blocks_def Let_def)
qed

lemma coalesce_prev_join:
  assumes t: "tiles e (hblock s) p w0 ((w, True) # (z, f) # ts) q e" and e: "e < two64" and w: "0 < w0"
  shows "coalesce_prev (w0 + 32 + w) s = s\<lparr>hblock := join_blocks w0 (w0 + 32 + w) (hblock s)\<rparr>"
proof -
  let ?b = "w0 + 32 + w"
  from t have hw: "hblock s w0 = \<lparr>blk_size = w, blk_is_free = True, blk_next = ?b, blk_prev = p\<rparr>"
    and hb: "hblock s ?b = \<lparr>blk_size = z, blk_is_free = f, blk_next = succ_addr e (?b + 32 + z), blk_prev = w0\<rparr>"
    and le: "?b + 32 + z \<le> e"
    by simp_all
  have "add64 w (add64 32 z) = w + 32 + z" using le e by (simp add: add64_exact)
  then show ?thesis
    using w by (simp add: coalesce_prev_def hw hb set_block_def join_blocks_def Let_def)
qed

lemma tiles_split:
  assumes "tiles e h p b (xs @ ys) q n"
  obtains r where "tiles e h p b xs r (b + span xs)" "tiles e h r (b + span xs) ys q n"
proof -
  from assms obtain r m where 1: "tiles e h p b xs r m" "tiles e h r m ys q n" by (auto simp: tiles_append)
  have "m = b + span xs" using 1(1) by (rule tiles_span)
  with 1 that show thesis by simp
qed

lemma tiles_prefix_cong:
  assumes "tiles e h p b xs r m" "\<And>x. x < m \<Longrightarrow> h' x = h x" "tiles e h' r m ys q n"
  shows "tiles e h' p b (xs @ ys) q n"
proof -
  have "tiles e h' p b xs r m" by (rule tiles_cong [OF _ assms(1)]) (rule assms(2))
  with assms(3) show ?thesis by (auto simp: tiles_append)
qed

lemma coalesce_next_tiles:
  assumes t: "tiles e (hblock s) p b ((z, True) # ys) q e" and e: "e < two64" and b: "0 < b"
  shows "\<exists>q'. tiles e (hblock (coalesce_next b s)) p b (join_right z ys) q' e"
    "same_but_blocks s (coalesce_next b s) b e"
proof -
  have "(\<exists>q'. tiles e (hblock (coalesce_next b s)) p b (join_right z ys) q' e) \<and>
      same_but_blocks s (coalesce_next b s) b e"
  proof (cases "\<exists>y ts. ys = (y, True) # ts")
    case True
    then obtain y ts where ys: "ys = (y, True) # ts" by blast
    note t' = t [unfolded ys]
    show ?thesis
      using join_tiles(1) [OF t' b] join_tiles(2) [OF t' b]
      unfolding coalesce_next_join [OF t' e b] ys by (simp add: same_but_blocks_upd)
  next
    case False
    then have j: "join_right z ys = (z, True) # ys"
      by (cases "(z, ys)" rule: join_right.cases) auto
    from t have rest: "tiles e (hblock s) b (b + 32 + z) ys q e"
      and hb: "blk_next (hblock s b) = succ_addr e (b + 32 + z)" by simp_all
    have "coalesce_next b s = s"
    proof (cases ys)
      case Nil
      with rest hb show ?thesis by (simp add: coalesce_next_def)
    next
      case (Cons u us)
      with False have "\<not> snd u" by (cases u) auto
      moreover have "hblock s (b + 32 + z) = \<lparr>blk_size = fst u, blk_is_free = snd u,
          blk_next = succ_addr e (b + 32 + z + 32 + fst u), blk_prev = b\<rparr>"
        using rest Cons by simp
      ultimately show ?thesis using hb by (simp add: coalesce_next_def)
    qed
    with t j show ?thesis by (auto simp: same_but_blocks_refl)
  qed
  then show "\<exists>q'. tiles e (hblock (coalesce_next b s)) p b (join_right z ys) q' e"
    "same_but_blocks s (coalesce_next b s) b e" by simp_all
qed

lemma free_tiles_snoc:
  "free_tiles (xs @ [(w, True)]) z ys = xs @ (w + 32 + fst (hd (join_right z ys)), True) # tl (join_right z ys)"
  "free_tiles (xs @ [(w, False)]) z ys = xs @ (w, False) # join_right z ys"
proof -
  have j: "\<exists>t ts. join_right z ys = t # ts" by (cases "(z, ys)" rule: join_right.cases) auto
  show "free_tiles (xs @ [(w, True)]) z ys = xs @ (w + 32 + fst (hd (join_right z ys)), True) # tl (join_right z ys)"
  proof (induction xs)
    case (Cons x xs)
    then show ?case by (cases x; cases xs) (auto split: if_splits)
  qed (use j in auto)
  show "free_tiles (xs @ [(w, False)]) z ys = xs @ (w, False) # join_right z ys"
  proof (induction xs)
    case (Cons x xs)
    then show ?case by (cases x; cases xs) auto
  qed auto
qed

lemma coalesce_refines:
  assumes t: "tiles e (hblock s) 0 b0 (xs @ (z, True) # ys) q e" and e: "e < two64" and b0: "0 < b0"
    and s': "s' = kernel_heap_coalesce (b0 + span xs) s"
  shows "\<exists>q'. tiles e (hblock s') 0 b0 (free_tiles xs z ys) q' e" "same_but_blocks s s' b0 e"
proof -
  let ?a = "b0 + span xs"
  define s1 where "s1 = coalesce_next ?a s"
  obtain r where pre: "tiles e (hblock s) 0 b0 xs r ?a" and at: "tiles e (hblock s) r ?a ((z, True) # ys) q e"
    by (rule tiles_split [OF t])
  have a: "0 < ?a" using b0 by simp
  note n = coalesce_next_tiles [OF at e a, folded s1_def]
  then obtain q1 where q1: "tiles e (hblock s1) r ?a (join_right z ys) q1 e" by blast
  have low: "x < ?a \<Longrightarrow> hblock s1 x = hblock s x" for x using n(2) by (simp add: same_but_blocks_def)
  obtain z' ys' where j: "join_right z ys = (z', True) # ys'"
    by (cases "(z, ys)" rule: join_right.cases) auto
  have prev: "blk_prev (hblock s1 ?a) = r" using q1 j by simp
  have s'1: "s' = coalesce_prev ?a s1" by (simp add: s' kernel_heap_coalesce_def s1_def)
  have n1: "same_but_blocks s s1 b0 e" using n(2) by (rule same_but_blocks_low) simp
  have keep: "(\<exists>q'. tiles e (hblock s') 0 b0 (free_tiles xs z ys) q' e) \<and> same_but_blocks s s' b0 e"
    if "s' = s1" "free_tiles xs z ys = xs @ join_right z ys"
    using that n1 tiles_prefix_cong [OF pre low q1] by auto
  have "(\<exists>q'. tiles e (hblock s') 0 b0 (free_tiles xs z ys) q' e) \<and> same_but_blocks s s' b0 e"
  proof (cases xs rule: rev_cases)
    case Nil
    then have "s' = s1" using pre prev by (simp add: s'1 coalesce_prev_def)
    then show ?thesis by (rule keep) (simp add: Nil)
  next
    case (snoc xs' x)
    obtain w fw where x: "x = (w, fw)" by (rule prod.exhaust)
    let ?w0 = "b0 + span xs'"
    have aw: "?a = ?w0 + 32 + w" by (simp add: snoc x)
    obtain r' where pre': "tiles e (hblock s) 0 b0 xs' r' ?w0"
      and wt: "tiles e (hblock s) r' ?w0 [(w, fw)] r ?a"
      using tiles_split [OF pre [unfolded snoc x]] unfolding snoc x by blast
    have rw: "r = ?w0" using wt by simp
    have "tiles e (hblock s1) r' ?w0 ([(w, fw)] @ join_right z ys) q1 e"
      by (rule tiles_prefix_cong [OF wt low q1])
    then have wt1: "tiles e (hblock s1) r' ?w0 ((w, fw) # (z', True) # ys') q1 e" by (simp add: j)
    show ?thesis
    proof (cases fw)
      case True
      have wt2: "tiles e (hblock s1) r' ?w0 ((w, True) # (z', True) # ys') q1 e" using wt1 True by simp
      have w0: "0 < ?w0" using b0 by simp
      have "s' = s1\<lparr>hblock := join_blocks ?w0 (?w0 + 32 + w) (hblock s1)\<rparr>"
        unfolding s'1 aw by (rule coalesce_prev_join [OF wt2 e w0])
      with join_tiles(1) [OF wt2 w0] join_tiles(2) [OF wt2 w0]
      have jn: "\<exists>q'. tiles e (hblock s') r' ?w0 ((w + 32 + z', True) # ys') q' e" "same_but_blocks s1 s' ?w0 e"
        by (simp_all add: same_but_blocks_upd)
      then obtain q2 where q2: "tiles e (hblock s') r' ?w0 ((w + 32 + z', True) # ys') q2 e" by blast
      have "x < ?w0 \<Longrightarrow> hblock s' x = hblock s x" for x
        using jn(2) low aw by (simp add: same_but_blocks_def)
      from tiles_prefix_cong [OF pre' this q2]
      have "tiles e (hblock s') 0 b0 (free_tiles xs z ys) q2 e"
        by (simp add: snoc x True free_tiles_snoc j)
      moreover have "same_but_blocks s s' b0 e" by (rule same_but_blocks_trans [OF n1 jn(2)]) simp
      ultimately show ?thesis by blast
    next
      case False
      have "\<not> blk_is_free (hblock s1 r)" using wt1 False by (simp add: rw)
      then have "s' = s1" using prev by (simp add: s'1 coalesce_prev_def)
      then show ?thesis by (rule keep) (simp add: snoc x False free_tiles_snoc)
    qed
  qed
  then show "\<exists>q'. tiles e (hblock s') 0 b0 (free_tiles xs z ys) q' e" "same_but_blocks s s' b0 e" by simp_all
qed

section \<open>Live allocations\<close>

lemma live_append: "live b (xs @ ys) = live b xs @ live (b + span xs) ys"
  by (induction xs arbitrary: b) (auto simp: add.assoc)

lemma live_range: "(p, z) \<in> set (live b ts) \<Longrightarrow> b + 32 \<le> p \<and> p + z \<le> b + span ts"
  by (induction ts arbitrary: b) (fastforce split: if_splits)+

lemma live_disjoint:
  "(p, z) \<in> set (live b ts) \<Longrightarrow> (p', z') \<in> set (live b ts) \<Longrightarrow> (p, z) \<noteq> (p', z') \<Longrightarrow>
     p + z \<le> p' \<or> p' + z' \<le> p"
proof (induction ts arbitrary: b)
  case (Cons t ts)
  then show ?case
    using live_range [of p z "b + 32 + fst t" ts] live_range [of p' z' "b + 32 + fst t" ts]
    by (auto split: if_splits)
qed simp

lemma live_alloc:
  "alloc_tiles sz ts = Some (d, ts') \<Longrightarrow>
     \<exists>z \<ge> sz. set (live b ts') = insert (b + d + 32, z) (set (live b ts)) \<and>
       (\<forall>y. (b + d + 32, y) \<notin> set (live b ts))"
proof (induction sz ts arbitrary: b d ts' rule: alloc_tiles.induct)
  case (2 sz z f ts)
  show ?case
  proof (cases "f \<and> sz \<le> z")
    case True
    have "(b + 32, y) \<notin> set (live (b + 32 + z) ts)" for y
      using live_range [of "b + 32" y "b + 32 + z" ts] by auto
    with True 2(2) show ?thesis by (auto simp: add.assoc intro: exI [of _ z] exI [of _ sz])
  next
    case False
    with 2(2) obtain d1 ts1 where 1: "alloc_tiles sz ts = Some (d1, ts1)" "d = 32 + z + d1" "ts' = (z, f) # ts1"
      by auto
    obtain y where y: "sz \<le> y" "set (live (b + 32 + z) ts1) = insert (b + 32 + z + d1 + 32, y) (set (live (b + 32 + z) ts))"
      "\<forall>v. (b + 32 + z + d1 + 32, v) \<notin> set (live (b + 32 + z) ts)"
      using 2(1) [OF False 1(1), of "b + 32 + z"] by blast
    have at: "b + d + 32 = b + 32 + z + d1 + 32" using 1(2) by simp
    show ?thesis
      unfolding at using y by (intro exI [of _ y]) (auto simp: 1(3))
  qed
qed simp

lemma live_join: "set (live b (join_right z ys)) = set (live (b + 32 + z) ys)"
  by (cases "(z, ys)" rule: join_right.cases) (auto simp: add.assoc)

lemma join_right_head: "\<exists>z' ts. join_right z ys = (z', True) # ts"
  by (cases "(z, ys)" rule: join_right.cases) auto

lemma live_free:
  "set (live b (free_tiles xs z ys)) = set (live b (xs @ ys')) - {(b + span xs + 32, z)}"
  if "ys' = (z, False) # ys"
proof -
  have out: "(b + span xs + 32, z) \<notin> set (live b xs)" "(b + span xs + 32, z) \<notin> set (live (b + span xs + 32 + z) ys)"
    using live_range [of "b + span xs + 32" z b xs] live_range [of "b + span xs + 32" z "b + span xs + 32 + z" ys]
    by auto
  have "set (live b (free_tiles xs z ys)) = set (live b xs) \<union> set (live (b + span xs + 32 + z) ys)"
  proof (cases xs rule: rev_cases)
    case Nil
    then show ?thesis by (simp add: live_join)
  next
    case (snoc xs' x)
    obtain w fw where x: "x = (w, fw)" by (rule prod.exhaust)
    obtain z' ts where j: "join_right z ys = (z', True) # ts" using join_right_head by blast
    from live_join [of "b + span xs' + 32 + w" z ys] j show ?thesis
      by (cases fw) (auto simp: snoc x free_tiles_snoc live_append add.assoc)
  qed
  with out that show ?thesis by (auto simp: live_append)
qed

lemma tidy_append:
  "tidy (xs @ ys) \<longleftrightarrow> tidy xs \<and> tidy ys \<and> (xs = [] \<or> ys = [] \<or> \<not> (snd (last xs) \<and> snd (hd ys)))"
  by (auto simp: tidy_def successively_append_iff)

lemma tidy_Cons: "tidy (t # ts) \<longleftrightarrow> 16 dvd fst t \<and> tidy ts \<and> (ts = [] \<or> \<not> (snd t \<and> snd (hd ts)))"
  using tidy_append [of "[t]" ts] by (simp add: tidy_def)

lemma tidy_Nil [simp]: "tidy []"
  by (simp add: tidy_def)

lemma tidy_alloc_head:
  "alloc_tiles sz ts = Some (d, ts') \<Longrightarrow> tidy ts \<Longrightarrow> 16 dvd sz \<Longrightarrow>
     tidy ts' \<and> ts' \<noteq> [] \<and> (snd (hd ts') \<longrightarrow> snd (hd ts))"
proof (induction sz ts arbitrary: d ts' rule: alloc_tiles.induct)
  case (2 sz z f ts)
  show ?case
  proof (cases "f \<and> sz \<le> z")
    case True
    have "16 dvd z" "tidy ts" "ts = [] \<or> \<not> snd (hd ts)" using 2(3) True by (auto simp: tidy_Cons)
    with True 2(2,4) show ?thesis by (auto simp: tidy_Cons dvd_diff_nat split: if_splits)
  next
    case False
    with 2(2) obtain d1 ts1 where 1: "alloc_tiles sz ts = Some (d1, ts1)" "ts' = (z, f) # ts1" by auto
    then have "ts \<noteq> []" by auto
    with 2(1) [OF False 1(1)] 2(3,4) 1(2) show ?thesis by (auto simp: tidy_Cons)
  qed
qed simp

lemma tidy_alloc: "alloc_tiles sz ts = Some (d, ts') \<Longrightarrow> tidy ts \<Longrightarrow> 16 dvd sz \<Longrightarrow> tidy ts'"
  using tidy_alloc_head by blast

lemma tidy_join: "tidy ((z, False) # ys) \<Longrightarrow> tidy (join_right z ys)"
  by (cases "(z, ys)" rule: join_right.cases) (auto simp: tidy_Cons)

lemma tidy_free: "tidy (xs @ (z, False) # ys) \<Longrightarrow> tidy (free_tiles xs z ys)"
proof (cases xs rule: rev_cases)
  case Nil
  assume "tidy (xs @ (z, False) # ys)"
  with Nil show ?thesis by (simp add: tidy_join)
next
  case (snoc xs' x)
  assume t: "tidy (xs @ (z, False) # ys)"
  obtain w fw where x: "x = (w, fw)" by (rule prod.exhaust)
  obtain z' ts where j: "join_right z ys = (z', True) # ts" using join_right_head by blast
  have "tidy ((z', True) # ts)" using t tidy_join [of z ys] j by (simp add: tidy_append)
  with t show ?thesis
    by (cases fw) (auto simp: snoc x free_tiles_snoc j tidy_append tidy_Cons)
qed

lemma used_free: "used (free_tiles xs z ys) = used xs + used ys"
proof -
  have j: "used (join_right z ys) = used ys" by (cases "(z, ys)" rule: join_right.cases) auto
  obtain z' ts where h: "join_right z ys = (z', True) # ts" using join_right_head by blast
  show ?thesis
  proof (cases xs rule: rev_cases)
    case (snoc xs' x)
    then show ?thesis using j h by (cases x; cases "snd x") (auto simp: free_tiles_snoc)
  qed (simp add: j)
qed

lemma used_bound: "ts \<noteq> [] \<Longrightarrow> used ts + 32 \<le> span ts"
  using used_le_span [of "tl ts"] by (cases ts) auto

section \<open>The heap invariant\<close>

lemma sum_list_upd:
  "distinct xs \<Longrightarrow> a \<in> set xs \<Longrightarrow> (\<Sum>x\<leftarrow>xs. f ((T(a := t)) x)) + f (T a) = (\<Sum>x\<leftarrow>xs. f (T x)) + (f t :: nat)"
proof (induction xs)
  case (Cons x xs)
  show ?case
  proof (cases "x = a")
    case True
    then have "(\<Sum>x\<leftarrow>xs. f ((T(a := t)) x)) = (\<Sum>x\<leftarrow>xs. f (T x))"
      using Cons.prems by (intro arg_cong [where f = sum_list] map_cong) auto
    with True show ?thesis by simp
  next
    case False
    with Cons show ?thesis by simp
  qed
qed simp

lemma heap_repD:
  assumes "heap_rep s as T"
  shows "palloc_inv s" "distinct as" "\<And>a. a \<in> set as \<Longrightarrow> arena_ok s a (T a)"
    "\<And>a pa. a \<in> set as \<Longrightarrow> pa \<in> arena_pages s a \<Longrightarrow> owned s pa = Some 1"
    "\<And>a b. a \<in> set as \<Longrightarrow> b \<in> set as \<Longrightarrow> a \<noteq> b \<Longrightarrow> arena_pages s a \<inter> arena_pages s b = {}"
  using assms chain_distinct by (auto simp: heap_rep_def)

lemma arena_page_of:
  assumes "KERNEL_VA_OFFSET \<le> a" "a \<le> x" "x < arena_end s a"
  shows "a - KERNEL_VA_OFFSET + PAGE_SIZE * ((x - a) div PAGE_SIZE) \<in> arena_pages s a"
proof -
  have "x - a < PAGE_SIZE * ar_page_count (harena s a)" using assms(2,3) by (simp add: arena_end_def)
  then have "(x - a) div PAGE_SIZE < ar_page_count (harena s a)" by (simp add: less_mult_imp_div_less mult.commute)
  then show ?thesis by (auto simp: arena_pages_def set_page_range)
qed

lemma arena_bounds:
  assumes rep: "heap_rep s as T" and a: "a \<in> set as"
  shows "0 < a" "KERNEL_VA_OFFSET \<le> a" "arena_end s a \<le> KERNEL_VA_OFFSET + QEMU_VIRT_RAM_END"
    "PAGE_SIZE dvd a" "a + 80 < arena_end s a" "\<And>pa. pa \<in> arena_pages s a \<Longrightarrow> ram_page pa"
proof -
  note r = heap_repD [OF rep] and ok = heap_repD(3) [OF rep a]
  have w: "window_ok s" using r(1) by (simp add: palloc_inv_def)
  have n: "KERNEL_VA_OFFSET \<le> a" "0 < ar_page_count (harena s a)" using ok by (simp_all add: arena_ok_def)
  show "0 < a" "KERNEL_VA_OFFSET \<le> a" using n by simp_all
  show ram: "ram_page pa" if "pa \<in> arena_pages s a" for pa
    using r(4) [OF a that] managed_ram [OF w] owned_Some_iff [OF r(1)] by blast
  let ?l = "a - KERNEL_VA_OFFSET + PAGE_SIZE * (ar_page_count (harena s a) - 1)"
  have "a - KERNEL_VA_OFFSET + PAGE_SIZE * 0 \<in> arena_pages s a" "?l \<in> arena_pages s a"
    using n(2) unfolding arena_pages_def set_page_range by (blast intro: diff_less)+
  then have "ram_page (a - KERNEL_VA_OFFSET)" "ram_page ?l" using ram by fastforce+
  then have d: "PAGE_SIZE dvd a - KERNEL_VA_OFFSET" and l: "?l < QEMU_VIRT_RAM_END" "PAGE_SIZE dvd ?l"
    by (simp_all add: ram_page_def)
  have "PAGE_SIZE dvd a - KERNEL_VA_OFFSET + KERNEL_VA_OFFSET" by (rule dvd_add [OF d]) simp
  with n(1) show "PAGE_SIZE dvd a" by simp
  from l have "?l + PAGE_SIZE \<le> QEMU_VIRT_RAM_END" by (auto elim!: dvdE)
  with n show "arena_end s a \<le> KERNEL_VA_OFFSET + QEMU_VIRT_RAM_END"
    by (cases "ar_page_count (harena s a)") (auto simp: arena_end_def)
  show "a + 80 < arena_end s a" using n(2) by (cases "ar_page_count (harena s a)") (auto simp: arena_end_def)
qed

lemma arenas_apart:
  assumes rep: "heap_rep s as T" and a: "a \<in> set as" "b \<in> set as"
    and x: "a \<le> x" "x < arena_end s a" "b \<le> x" "x < arena_end s b"
  shows "a = b"
proof (rule ccontr)
  assume ne: "a \<noteq> b"
  note A = arena_bounds [OF rep a(1)] and B = arena_bounds [OF rep a(2)]
  let ?p = "\<lambda>a. a - KERNEL_VA_OFFSET + PAGE_SIZE * ((x - a) div PAGE_SIZE)"
  have eq: "?p c = (x - KERNEL_VA_OFFSET) div PAGE_SIZE * PAGE_SIZE"
    if "KERNEL_VA_OFFSET \<le> c" "PAGE_SIZE dvd c" "c \<le> x" for c
  proof -
    have "PAGE_SIZE dvd c - KERNEL_VA_OFFSET" using that(2) by (intro dvd_diff_nat) simp_all
    then obtain i where "c - KERNEL_VA_OFFSET = PAGE_SIZE * i" by (elim dvdE)
    then have i: "c = KERNEL_VA_OFFSET + PAGE_SIZE * i" using that(1) by linarith
    then have "x - KERNEL_VA_OFFSET = PAGE_SIZE * i + (x - c)" using that by simp
    then show ?thesis by (simp add: i)
  qed
  have "?p a = ?p b" using eq [of a] eq [of b] A(2,4) B(2,4) x by simp
  moreover have "?p a \<in> arena_pages s a" "?p b \<in> arena_pages s b"
    using arena_page_of x A(2) B(2) by blast+
  ultimately show False using heap_repD(5) [OF rep a ne] by auto
qed

text \<open>The block lists of one arena change, and the byte counters with them.\<close>

lemma heap_rep_upd:
  assumes rep: "heap_rep s as T" and a: "a \<in> set as"
    and h: "\<And>x. x < a + 48 \<or> arena_end s a \<le> x \<Longrightarrow> hblock s' x = hblock s x"
    and t: "tiles (arena_end s a) (hblock s') 0 (a + 48) ts' q (arena_end s a)" "tidy ts'"
    and f: "harena s' = harena s" "kernel_heap_pages s' = kernel_heap_pages s" "same_alloc s s'" "mem s' = mem s"
    and u: "kernel_heap_used_space s' + used (T a) = kernel_heap_used_space s + used ts'"
      "kernel_heap_free_space s' + kernel_heap_used_space s' = kernel_heap_free_space s + kernel_heap_used_space s"
  shows "heap_rep s' as (T(a := ts'))"
proof -
  note r = heap_repD [OF rep]
  have same: "arena_end s' = arena_end s" "arena_pages s' = arena_pages s" "owned s' = owned s"
    using f same_alloc_sets(3) [OF f(3)] by (simp_all add: fun_eq_iff arena_end_def arena_pages_def)
  have "arena_ok s' b ((T(a := ts')) b)" if b: "b \<in> set as" for b
  proof (cases "b = a")
    case True
    then show ?thesis using r(3) [OF a] t f same by (auto simp: arena_ok_def)
  next
    case False
    from r(3) [OF b] obtain q where tb: "tiles (arena_end s b) (hblock s) 0 (b + 48) (T b) q (arena_end s b)"
      by (auto simp: arena_ok_def)
    have "tiles (arena_end s b) (hblock s') 0 (b + 48) (T b) q (arena_end s b)"
    proof (rule tiles_cong [OF _ tb])
      fix x assume x: "b + 48 \<le> x" "x < arena_end s b"
      with arenas_apart [OF rep b a, of x] False have "x < a + 48 \<or> arena_end s a \<le> x" by fastforce
      then show "hblock s' x = hblock s x" by (rule h)
    qed
    with r(3) [OF b] False f same show ?thesis by (auto simp: arena_ok_def)
  qed
  moreover have "palloc_inv s'"
    by (rule palloc_inv_cong [OF f(3) _ r(1)]) (simp add: f(4))
  moreover have "kernel_heap_used_space s' = (\<Sum>b\<leftarrow>as. used ((T(a := ts')) b))"
    using sum_list_upd [OF r(2) a, of used T ts'] u(1) rep by (simp add: heap_rep_def)
  ultimately show ?thesis
    using rep f u(2) same by (simp add: heap_rep_def)
qed

lemma same_but_blocksE:
  assumes "same_but_blocks s s' b e"
  obtains h where "s' = s\<lparr>hblock := h\<rparr>" "\<And>x. x < b \<or> e \<le> x \<Longrightarrow> h x = hblock s x"
proof -
  from assms obtain h where s': "s' = s\<lparr>hblock := h\<rparr>" and "\<forall>x. x < b \<or> e \<le> x \<longrightarrow> hblock s' x = hblock s x"
    unfolding same_but_blocks_def by (elim conjE exE)
  then have "\<And>x. x < b \<or> e \<le> x \<Longrightarrow> h x = hblock s x" by auto
  with s' show thesis by (rule that)
qed

lemma alloc_tiles_inside: "alloc_tiles sz ts = Some (d, ts') \<Longrightarrow> d + 32 \<le> span ts"
  by (induction sz ts arbitrary: d ts' rule: alloc_tiles.induct) (auto split: if_splits)

lemma arena_used:
  assumes rep: "heap_rep s as T" and a: "a \<in> set as"
    and t: "tiles (arena_end s a) h 0 (a + 48) ts q (arena_end s a)"
  shows "used ts \<le> ar_usable_bytes (harena s a)"
proof -
  have "arena_end s a = a + 48 + span ts" using t by (rule tiles_span)
  moreover have "ts \<noteq> []" using tiles_rest_empty [OF t] arena_bounds(5) [OF rep a] by auto
  moreover have "ar_usable_bytes (harena s a) + 80 = PAGE_SIZE * ar_page_count (harena s a)"
    using heap_repD(3) [OF rep a] by (simp add: arena_ok_def)
  ultimately show ?thesis using used_bound [of ts] by (simp add: arena_end_def)
qed

lemma heap_total:
  assumes rep: "heap_rep s as T"
  shows "(\<Sum>a\<leftarrow>as. ar_page_count (harena s a)) \<le> QEMU_VIRT_MAX_PAGES"
    "(\<Sum>a\<leftarrow>as. ar_usable_bytes (harena s a)) \<le> QEMU_VIRT_RAM_SIZE"
proof -
  note r = heap_repD [OF rep]
  have w: "window_ok s" using r(1) by (simp add: palloc_inv_def)
  have "card (\<Union>a \<in> set as. arena_pages s a) = (\<Sum>a \<in> set as. card (arena_pages s a))"
    by (rule card_UN_disjoint) (use r(5) in \<open>auto simp: arena_pages_def\<close>)
  also have "\<dots> = (\<Sum>a\<leftarrow>as. ar_page_count (harena s a))"
    using r(2) by (simp add: sum_list_distinct_conv_sum_set arena_pages_def distinct_card distinct_page_range)
  finally have "(\<Sum>a\<leftarrow>as. ar_page_count (harena s a)) = card (\<Union>a \<in> set as. arena_pages s a)" ..
  also have "\<dots> \<le> card (managed s)"
    using r(4) owned_Some_iff [OF r(1)] by (intro card_mono) auto
  also have "\<dots> \<le> QEMU_VIRT_MAX_PAGES" using w by (rule card_managed_bound)
  finally show pc: "(\<Sum>a\<leftarrow>as. ar_page_count (harena s a)) \<le> QEMU_VIRT_MAX_PAGES" .
  have "(\<Sum>a\<leftarrow>as. ar_usable_bytes (harena s a)) \<le> (\<Sum>a\<leftarrow>as. PAGE_SIZE * ar_page_count (harena s a))"
  proof (rule sum_list_mono)
    fix a assume "a \<in> set as"
    then have "ar_usable_bytes (harena s a) + 80 = PAGE_SIZE * ar_page_count (harena s a)"
      using r(3) by (simp add: arena_ok_def)
    then show "ar_usable_bytes (harena s a) \<le> PAGE_SIZE * ar_page_count (harena s a)" by simp
  qed
  also have "\<dots> = PAGE_SIZE * (\<Sum>a\<leftarrow>as. ar_page_count (harena s a))" by (simp add: sum_list_const_mult)
  finally show "(\<Sum>a\<leftarrow>as. ar_usable_bytes (harena s a)) \<le> QEMU_VIRT_RAM_SIZE" using pc by simp
qed

lemma heap_used_upd:
  assumes rep: "heap_rep s as T" and a: "a \<in> set as"
    and t: "tiles (arena_end s a) h 0 (a + 48) ts q (arena_end s a)"
  shows "kernel_heap_used_space s + used ts \<le> kernel_heap_free_space s + kernel_heap_used_space s + used (T a)"
proof -
  note r = heap_repD [OF rep]
  have "(\<Sum>b\<leftarrow>as. used ((T(a := ts)) b)) \<le> (\<Sum>b\<leftarrow>as. ar_usable_bytes (harena s b))"
  proof (rule sum_list_mono)
    fix b assume b: "b \<in> set as"
    show "used ((T(a := ts)) b) \<le> ar_usable_bytes (harena s b)"
      using arena_used [OF rep a t] r(3) [OF b] arena_used [OF rep b] by (auto simp: arena_ok_def)
  qed
  with sum_list_upd [OF r(2) a, of used T ts] rep show ?thesis by (simp add: heap_rep_def)
qed

lemma allocate_from_arena_none:
  assumes rep: "heap_rep s as T" and a: "a \<in> set as" and no: "alloc_tiles sz (T a) = None"
  shows "kernel_heap_allocate_from_arena a sz s = Some (0, s)"
proof -
  note ok = heap_repD(3) [OF rep a] and b = arena_bounds [OF rep a]
  then obtain q where t: "tiles (arena_end s a) (hblock s) 0 (a + 48) (T a) q (arena_end s a)"
    and fb: "ar_first_block (harena s a) = a + 48" by (auto simp: arena_ok_def)
  have "first_fit s sz (a + 48) = Some 0"
    using first_fit_tiles [OF t, of sz] no b(1,5) by simp
  with fb show ?thesis by (simp add: kernel_heap_allocate_from_arena_def)
qed

lemma allocate_from_arena_some:
  assumes rep: "heap_rep s as T" and a: "a \<in> set as" and al: "alloc_tiles sz (T a) = Some (d, ts')" "16 dvd sz"
  obtains s' where "kernel_heap_allocate_from_arena a sz s = Some (a + 80 + d, s')"
    "heap_rep s' as (T(a := ts'))" "same_alloc s s'" "mem s' = mem s"
proof -
  note r = heap_repD [OF rep] and ok = heap_repD(3) [OF rep a] and b = arena_bounds [OF rep a]
  then obtain q where t: "tiles (arena_end s a) (hblock s) 0 (a + 48) (T a) q (arena_end s a)"
    and fb: "ar_first_block (harena s a) = a + 48" and td: "tidy (T a)" by (auto simp: arena_ok_def)
  let ?b = "a + 48 + d"
  define s2 where "s2 = set_block ?b (\<lambda>b. b\<lparr>blk_is_free := False\<rparr>) (kernel_heap_split_block ?b sz s)"
  define n where "n = blk_size (hblock s2 ?b)"
  have e: "arena_end s a + 80 < two64" using b(3) by simp
  have ref: "(\<exists>q'. tiles (arena_end s a) (hblock s2) 0 (a + 48) ts' q' (arena_end s a)) \<and>
      same_but_blocks s s2 (a + 48) (arena_end s a) \<and> used ts' = used (T a) + n"
    using alloc_tiles_refines [OF t al(1) e _ s2_def] b(1) unfolding n_def by blast
  then obtain q' where t': "tiles (arena_end s a) (hblock s2) 0 (a + 48) ts' q' (arena_end s a)" by blast
  have sb: "same_but_blocks s s2 (a + 48) (arena_end s a)" using ref by (elim conjE)
  obtain h where s2: "s2 = s\<lparr>hblock := h\<rparr>"
    and h: "\<And>x. x < a + 48 \<or> arena_end s a \<le> x \<Longrightarrow> h x = hblock s x"
    by (rule same_but_blocksE [OF sb]) blast
  define s' where "s' = s2\<lparr>kernel_heap_free_space := sub64 (kernel_heap_free_space s2) n,
      kernel_heap_used_space := add64 (kernel_heap_used_space s2) n,
      kernel_heap_allocations := add64 (kernel_heap_allocations s2) 1\<rparr>"
  have le: "n \<le> kernel_heap_free_space s" and tot: "kernel_heap_free_space s + kernel_heap_used_space s < two64"
    using heap_used_upd [OF rep a t'] ref heap_total(2) [OF rep] rep by (simp_all add: heap_rep_def)
  have f: "kernel_heap_free_space s' = kernel_heap_free_space s - n" "kernel_heap_used_space s' = kernel_heap_used_space s + n"
    using le tot by (simp_all add: s'_def s2 sub64_exact add64_exact)
  have "first_fit s sz (a + 48) = Some ?b"
    using first_fit_tiles [OF t, of sz] al(1) b(1,5) by simp
  moreover have "add64 ?b 32 = a + 80 + d"
  proof -
    have "?b \<le> arena_end s a" using alloc_tiles_inside [OF al(1)] tiles_span [OF t] by simp
    with e show ?thesis by (simp add: add64_exact)
  qed
  ultimately have res: "kernel_heap_allocate_from_arena a sz s = Some (a + 80 + d, s')"
    using b(1) by (simp add: kernel_heap_allocate_from_arena_def fb Let_def s'_def n_def s2_def)
  have fields: "hblock s' = h" "harena s' = harena s" "kernel_heap_pages s' = kernel_heap_pages s" "mem s' = mem s"
    and al': "same_alloc s s'"
    by (simp_all add: s'_def s2 same_alloc_def)
  have t'': "tiles (arena_end s a) (hblock s') 0 (a + 48) ts' q' (arena_end s a)" using t' by (simp add: s2 fields)
  have "heap_rep s' as (T(a := ts'))"
    by (rule heap_rep_upd [OF rep a _ t'' tidy_alloc [OF al(1) td al(2)] fields(2,3) al' fields(4)])
       (use h f ref le in \<open>simp_all add: fields\<close>)
  with res al' fields(4) that show thesis by blast
qed


section \<open>The arena walk of kmalloc\<close>

lemma kmalloc_walk_none:
  assumes rep: "heap_rep s as T"
  shows "chain (\<lambda>a. nz (ar_next (harena s a))) (nz p) bs \<Longrightarrow> set bs \<subseteq> set as \<Longrightarrow>
    (\<And>a. a \<in> set bs \<Longrightarrow> alloc_tiles sz (T a) = None) \<Longrightarrow> kmalloc_walk sz p s = Some (0, s)"
proof (induction bs arbitrary: p)
  case Nil
  then show ?case by (subst kmalloc_walk.simps) (simp add: nz_def split: if_splits)
next
  case (Cons a bs)
  from Cons.prems(1) have p: "p = a" "a \<noteq> 0" "chain (\<lambda>a. nz (ar_next (harena s a))) (nz (ar_next (harena s a))) bs"
    by (auto simp: nz_def split: if_splits)
  have "kernel_heap_allocate_from_arena a sz s = Some (0, s)"
    using Cons.prems(2,3) by (intro allocate_from_arena_none [OF rep]) simp_all
  then have "kmalloc_walk sz p s = kmalloc_walk sz (ar_next (harena s a)) s"
    using p(1,2) by (subst kmalloc_walk.simps) simp
  also have "\<dots> = Some (0, s)" using Cons.prems(2,3) by (intro Cons.IH [OF p(3)]) simp_all
  finally show ?case .
qed

lemma kmalloc_walk_some:
  assumes rep: "heap_rep s as T"
  shows "chain (\<lambda>a. nz (ar_next (harena s a))) (nz p) (bs @ a # cs) \<Longrightarrow> set (bs @ a # cs) \<subseteq> set as \<Longrightarrow>
    (\<And>b. b \<in> set bs \<Longrightarrow> alloc_tiles sz (T b) = None) \<Longrightarrow>
    kernel_heap_allocate_from_arena a sz s = Some (ptr, s') \<Longrightarrow> ptr \<noteq> 0 \<Longrightarrow> kmalloc_walk sz p s = Some (ptr, s')"
proof (induction bs arbitrary: p)
  case Nil
  then have "p = a" "a \<noteq> 0" by (auto simp: nz_def split: if_splits)
  with Nil show ?case by (subst kmalloc_walk.simps) simp
next
  case (Cons b bs)
  from Cons.prems(1) have p: "p = b" "b \<noteq> 0"
    and c: "chain (\<lambda>a. nz (ar_next (harena s a))) (nz (ar_next (harena s b))) (bs @ a # cs)"
    by (auto simp: nz_def split: if_splits)
  have "kernel_heap_allocate_from_arena b sz s = Some (0, s)"
    using Cons.prems(2,3) by (intro allocate_from_arena_none [OF rep]) simp_all
  then have "kmalloc_walk sz p s = kmalloc_walk sz (ar_next (harena s b)) s"
    using p by (subst kmalloc_walk.simps) simp
  also have "\<dots> = Some (ptr, s')" using Cons.prems(2-5) by (intro Cons.IH [OF c]) simp_all
  finally show ?case .
qed

lemma arena_addr_owned:
  assumes rep: "heap_rep s as T" and b: "b \<in> set as" and x: "b \<le> x" "x < arena_end s b"
  shows "owned s ((x - KERNEL_VA_OFFSET) div PAGE_SIZE * PAGE_SIZE) = Some 1"
proof -
  note B = arena_bounds [OF rep b]
  have "PAGE_SIZE dvd b - KERNEL_VA_OFFSET" using B(4) by (intro dvd_diff_nat) simp_all
  then obtain i where "b - KERNEL_VA_OFFSET = PAGE_SIZE * i" by (elim dvdE)
  with B(2) x(1) have "x - KERNEL_VA_OFFSET = PAGE_SIZE * i + (x - b)" by linarith
  then have "b - KERNEL_VA_OFFSET + PAGE_SIZE * ((x - b) div PAGE_SIZE) = (x - KERNEL_VA_OFFSET) div PAGE_SIZE * PAGE_SIZE"
    using \<open>b - KERNEL_VA_OFFSET = PAGE_SIZE * i\<close> by simp
  with arena_page_of [OF B(2) x] heap_repD(4) [OF rep b] show ?thesis by metis
qed

lemma more_fields:
  fixes s s' :: "'a kheap_scheme"
  assumes "palloc.more s' = palloc.more s"
  shows "hblock s' = hblock s" "harena s' = harena s" "kernel_heap_pages s' = kernel_heap_pages s"
    "kernel_heap_used_space s' = kernel_heap_used_space s" "kernel_heap_free_space s' = kernel_heap_free_space s"
    "kernel_heap_pages_used s' = kernel_heap_pages_used s" "kernel_heap_failed s' = kernel_heap_failed s"
    "kernel_heap_allocations s' = kernel_heap_allocations s"
  using assms by (cases s; cases s'; simp)+

lemma heap_align:
  assumes "PAGE_SIZE dvd a" "a + 64 < two64"
  shows "kernel_heap_align_up (add64 a 40) 16 = a + 48"
proof -
  from assms(1) obtain i where i: "a = 4096 * i" by (elim dvdE)
  have "add64 a 40 = a + 40" using assms(2) by (simp add: add64_exact)
  moreover have "align_up64 (a + 40) (2 ^ 4) = (a + 40 + 2 ^ 4 - 1) div 2 ^ 4 * 2 ^ 4"
    by (rule align_up64_pow2) (use assms(2) in simp_all)
  moreover have "(a + 40 + 2 ^ 4 - 1) div 2 ^ 4 = 256 * i + 3" by (simp add: i)
  ultimately show ?thesis by (simp add: kernel_heap_align_up_def i)
qed

lemma add_arena_fails:
  assumes rep: "heap_rep s as T" and no: "n = 0 \<or> \<not> (\<exists>r. free_run s n r)"
  obtains s' where "kernel_heap_add_arena n s = (0, s')" "heap_rep s' as T" "same_alloc s s'" "mem s' = mem s"
proof -
  have "page_alloc_contiguous n s = (0, s)" using page_alloc_contiguous_none [OF heap_repD(1) [OF rep] no] .
  then have e: "kernel_heap_add_arena n s = (0, s\<lparr>kernel_heap_failed := add64 (kernel_heap_failed s) 1\<rparr>)"
    by (simp add: kernel_heap_add_arena_def)
  let ?s = "s\<lparr>kernel_heap_failed := add64 (kernel_heap_failed s) 1\<rparr>"
  have al: "same_alloc s ?s" by (simp add: same_alloc_def)
  have "arena_end ?s = arena_end s" "arena_pages ?s = arena_pages s" "owned ?s = owned s"
    using same_alloc_sets(3) [OF al] by (simp_all add: fun_eq_iff arena_end_def arena_pages_def)
  moreover have "palloc_inv ?s" by (rule palloc_inv_cong [OF al _ heap_repD(1) [OF rep]]) simp
  ultimately have rep': "heap_rep ?s as T" using rep by (simp add: heap_rep_def arena_ok_def)
  show thesis by (rule that [OF e rep' al]) simp
qed


text \<open>A new arena on pages that nobody held.\<close>

lemma heap_rep_grow:
  assumes rep: "heap_rep s as T" and a: "a = KERNEL_VA_OFFSET + pa" "PAGE_SIZE dvd pa" and n: "0 < n" "u + 80 = PAGE_SIZE * n"
    and A: "harena s' = (harena s)(a := \<lparr>ar_magic = KERNEL_HEAP_PAGE_MAGIC, ar_page_count = n,
        ar_next = kernel_heap_pages s, ar_usable_bytes = u, ar_first_block = a + 48\<rparr>)"
    and B: "hblock s' = (hblock s)(a + 48 := \<lparr>blk_size = u, blk_is_free = True, blk_next = 0, blk_prev = 0\<rparr>)"
    and f: "kernel_heap_pages s' = a" "kernel_heap_used_space s' = kernel_heap_used_space s"
      "kernel_heap_free_space s' = kernel_heap_free_space s + u" "palloc_inv s'"
    and own: "owned s' = (\<lambda>q. if q \<in> set (page_range pa n) then Some 1 else owned s q)"
    and new: "\<And>q. q \<in> set (page_range pa n) \<Longrightarrow> owned s q = None"
  shows "a \<notin> set as" "heap_rep s' (a # as) (T(a := [(u, True)]))"
proof -
  note r = heap_repD [OF rep]
  have pa: "pa \<in> set (page_range pa n)" using n(1) by (auto simp: set_page_range)
  have off: "(a - KERNEL_VA_OFFSET) div PAGE_SIZE * PAGE_SIZE = pa" "(a + 48 - KERNEL_VA_OFFSET) div PAGE_SIZE * PAGE_SIZE = pa"
    using a by (auto elim!: dvdE)
  have out: "\<not> (b \<le> a + 48 \<and> a + 48 < arena_end s b)" "\<not> (b \<le> a \<and> a < arena_end s b)" if "b \<in> set as" for b
    using arena_addr_owned [OF rep that, of "a + 48"] arena_addr_owned [OF rep that, of a] off new [OF pa] by auto
  show na: "a \<notin> set as" using out(2) [of a] arena_bounds(5) [OF rep, of a] by auto
  have pgs: "arena_pages s' b = arena_pages s b" "arena_end s' b = arena_end s b" if "b \<in> set as" for b
    using that na by (auto simp: arena_pages_def arena_end_def A)
  have pga: "arena_pages s' a = set (page_range pa n)" "arena_end s' a = a + PAGE_SIZE * n"
    by (simp_all add: arena_pages_def arena_end_def A a(1))
  have "arena_ok s' b (T b)" if b: "b \<in> set as" for b
  proof -
    from r(3) [OF b] obtain q where "tiles (arena_end s b) (hblock s) 0 (b + 48) (T b) q (arena_end s b)"
      by (auto simp: arena_ok_def)
    then have "tiles (arena_end s b) (hblock s') 0 (b + 48) (T b) q (arena_end s b)"
      by (rule tiles_cong [rotated]) (use out(1) [OF b] in \<open>auto simp: B\<close>)
    moreover have "harena s' b = harena s b" using b na by (auto simp: A)
    ultimately show ?thesis using r(3) [OF b] pgs(2) [OF b] by (auto simp: arena_ok_def)
  qed
  moreover have "arena_ok s' a [(u, True)]"
  proof -
    have "u = 16 * (256 * n - 5)" using n by simp
    then have "16 dvd u" by simp
    moreover have "a + 48 + 32 + u = a + PAGE_SIZE * n" "KERNEL_VA_OFFSET \<le> a" using n(2) a(1) by simp_all
    ultimately show ?thesis using n unfolding arena_ok_def pga(2) by (simp add: A B tidy_Cons)
  qed
  ultimately have ok: "\<forall>b \<in> set (a # as). arena_ok s' b ((T(a := [(u, True)])) b)"
    using na by auto
  have "chain (\<lambda>a. nz (ar_next (harena s' a))) (nz (kernel_heap_pages s)) as =
      chain (\<lambda>a. nz (ar_next (harena s a))) (nz (kernel_heap_pages s)) as"
    by (rule chain_cong) (use na in \<open>auto simp: A\<close>)
  then have ch: "chain (\<lambda>a. nz (ar_next (harena s' a))) (nz (kernel_heap_pages s')) (a # as)"
  proof -
    have "ar_next (harena s' a) = kernel_heap_pages s" "nz a = Some a" using a(1) by (simp_all add: A nz_def)
    with \<open>chain _ _ as = chain _ _ as\<close> rep show ?thesis by (simp add: heap_rep_def f(1))
  qed
  have disj: "set (page_range pa n) \<inter> arena_pages s b = {}" if "b \<in> set as" for b
    using r(4) [OF that] new by force
  have ow: "\<forall>b \<in> set (a # as). \<forall>q \<in> arena_pages s' b. owned s' q = Some 1"
    using r(4) pgs(1) pga(1) by (auto simp: own)
  have apart: "\<forall>b \<in> set (a # as). \<forall>c \<in> set (a # as). b \<noteq> c \<longrightarrow> arena_pages s' b \<inter> arena_pages s' c = {}"
    using r(5) disj pgs(1) pga(1) by (auto simp: Int_commute)
  have m: "map (\<lambda>b. used ((T(a := [(u, True)])) b)) as = map (\<lambda>b. used (T b)) as"
    "map (\<lambda>b. ar_usable_bytes (harena s' b)) as = map (\<lambda>b. ar_usable_bytes (harena s b)) as"
    using na by (auto simp: A)
  have sums: "(\<Sum>b\<leftarrow>a # as. used ((T(a := [(u, True)])) b)) = (\<Sum>b\<leftarrow>as. used (T b))"
    "(\<Sum>b\<leftarrow>a # as. ar_usable_bytes (harena s' b)) = u + (\<Sum>b\<leftarrow>as. ar_usable_bytes (harena s b))"
    unfolding list.map sum_list.Cons m by (simp_all add: A)
  show "heap_rep s' (a # as) (T(a := [(u, True)]))"
    unfolding heap_rep_def sums using rep ok ch ow apart f by (simp add: heap_rep_def)
qed

lemma add_arena_grows:
  assumes rep: "heap_rep s as T" and n: "0 < n" and ex: "\<exists>r. free_run s n r"
  obtains a s' where "kernel_heap_add_arena n s = (a, s')" "a \<noteq> 0" "a \<notin> set as"
    "heap_rep s' (a # as) (T(a := [(PAGE_SIZE * n - 80, True)]))"
proof -
  note r = heap_repD [OF rep]
  obtain pa s1 where al: "page_alloc_contiguous n s = (pa, s1)" and run: "free_run s n pa" and inv: "palloc_inv s1"
    and sw: "same_window s s1" and own: "owned s1 = (\<lambda>q. if q \<in> set (page_range pa n) then Some 1 else owned s q)"
    by (rule page_alloc_contiguous_some [OF r(1) n ex]) blast
  have w: "window_ok s" using r(1) by (simp add: palloc_inv_def)
  have m1: "palloc.more s1 = palloc.more s" using sw by (simp add: same_window_def)
  note fld = more_fields [OF m1]
  have pages: "set (page_range pa n) \<subseteq> free_set s" using run by (simp add: free_run_def)
  have pa_in: "pa \<in> set (page_range pa n)" "pa + PAGE_SIZE * (n - 1) \<in> set (page_range pa n)"
    using n by (auto simp: set_page_range)
  then have ram: "ram_page pa" "ram_page (pa + PAGE_SIZE * (n - 1))"
    using pages free_set_managed managed_ram [OF w] by blast+
  define a where "a = KERNEL_VA_OFFSET + pa"
  have "pa_to_va pa = a" using ram(1) by (simp add: pa_to_va_def a_def add64_exact ram_page_def)
  moreover have al_a: "PAGE_SIZE dvd a" using ram(1) by (simp add: a_def ram_page_def)
  have small: "a + 64 < two64" "PAGE_SIZE * n \<le> QEMU_VIRT_RAM_SIZE" "pa \<noteq> 0" "a + PAGE_SIZE * n < two64"
    using ram n by (cases n; auto simp: a_def ram_page_def)+
  have start: "kernel_heap_align_up (add64 a 40) 16 = a + 48" using heap_align [OF al_a small(1)] .
  define u where "u = PAGE_SIZE * n - 80"
  have u80: "u + 80 = PAGE_SIZE * n" using n by (cases n) (simp_all add: u_def)
  have u: "sub64 (sub64 (mul64 n PAGE_SIZE) (sub64 (a + 48) a)) 32 = u"
    using small u80 by (simp add: mul64_exact sub64_exact mult.commute)
  define s' where "s' = s1\<lparr>harena := (harena s1)(a := \<lparr>ar_magic = KERNEL_HEAP_PAGE_MAGIC, ar_page_count = n,
        ar_next = kernel_heap_pages s1, ar_usable_bytes = u, ar_first_block = a + 48\<rparr>),
      kernel_heap_pages := a, kernel_heap_pages_used := add64 (kernel_heap_pages_used s1) n,
      kernel_heap_free_space := add64 (kernel_heap_free_space s1) u,
      hblock := (hblock s1)(a + 48 := \<lparr>blk_size = u, blk_is_free = True, blk_next = 0, blk_prev = 0\<rparr>)\<rparr>"
  ultimately have res: "kernel_heap_add_arena n s = (a, s')"
    using al small(3) by (simp add: kernel_heap_add_arena_def Let_def start u)
  have inv': "palloc_inv s'"
    by (rule palloc_inv_cong [OF _ _ inv]) (simp_all add: s'_def same_alloc_def)
  have "same_alloc s1 s'" by (simp add: s'_def same_alloc_def)
  then have own': "owned s' = (\<lambda>q. if q \<in> set (page_range pa n) then Some 1 else owned s q)"
    using own same_alloc_sets(3) by metis
  have free': "kernel_heap_free_space s' = kernel_heap_free_space s + u"
    using heap_total(2) [OF rep] small(2) u80 rep by (simp add: s'_def fld heap_rep_def add64_exact)
  have new: "q \<in> set (page_range pa n) \<Longrightarrow> owned s q = None" for q
    using pages owned_free_disjoint by blast
  have pa4: "PAGE_SIZE dvd pa" using ram(1) by (simp add: ram_page_def)
  have "a \<notin> set as" "heap_rep s' (a # as) (T(a := [(u, True)]))"
    by (rule heap_rep_grow [OF rep a_def pa4 n u80 _ _ _ _ free' inv' own' new]; simp add: s'_def fld)+
  then show thesis
    using that [OF res] by (simp add: a_def u_def)
qed

section \<open>Allocation\<close>

lemma round_up_16:
  fixes k :: nat
  defines "r \<equiv> (k + 15) div 16 * 16"
  shows "k \<le> r" "r < k + 16" "16 dvd r"
proof -
  have "r + (k + 15) mod 16 = k + 15" "(k + 15) mod 16 < 16"
    by (simp_all add: r_def)
  then show "k \<le> r" "r < k + 16" by linarith+
  show "16 dvd r" by (simp add: r_def)
qed

lemma heap_align_size:
  assumes "k + 16 < two64"
  shows "kernel_heap_align_up k KERNEL_HEAP_ALIGNMENT = (k + 15) div 16 * 16"
  using align_up64_pow2 [of 4 k] assms by (simp add: kernel_heap_align_up_def)

lemma pages_for_size:
  assumes "16 dvd sz" "sz + 8192 < two64"
  shows "sz + 80 \<le> PAGE_SIZE * kernel_heap_pages_for_size sz" "0 < kernel_heap_pages_for_size sz"
proof -
  have s: "kernel_heap_align_up sz KERNEL_HEAP_ALIGNMENT = sz"
  proof -
    from assms(1) obtain i where "sz = 16 * i" by (elim dvdE)
    then have "(sz + 15) div 16 * 16 = sz" by simp
    then show ?thesis using heap_align_size [of sz] assms(2) by simp
  qed
  have b: "kernel_heap_align_up sizeof_page_header KERNEL_HEAP_ALIGNMENT = 48"
    using heap_align_size [of 40] by simp
  have "kernel_heap_align_up (sz + 80) PAGE_SIZE = (sz + 80 + 4095) div 4096 * 4096"
    using align_up64_pow2 [of 12 "sz + 80"] assms(2) by (simp add: kernel_heap_align_up_def)
  then have "kernel_heap_pages_for_size sz = (sz + 80 + 4095) div 4096"
    using assms(2) by (simp add: kernel_heap_pages_for_size_def s b add64_exact Let_def add.commute)
  with round_up_page(1) [of "sz + 80"] show le: "sz + 80 \<le> PAGE_SIZE * kernel_heap_pages_for_size sz"
    by (simp add: mult.commute)
  then show "0 < kernel_heap_pages_for_size sz" by (cases "kernel_heap_pages_for_size sz") simp_all
qed

lemma alloc_tiles_aligned: "alloc_tiles sz ts = Some (d, ts') \<Longrightarrow> tidy ts \<Longrightarrow> 16 dvd d"
  by (induction sz ts arbitrary: d ts' rule: alloc_tiles.induct)
     (auto simp: tidy_Cons split: if_splits)

lemma live_in_arena:
  assumes rep: "heap_rep s as T" and b: "b \<in> set as" and l: "(p, z) \<in> set (live (b + 48) (T b))"
  shows "b \<le> p - 32" "p - 32 < arena_end s b" "p + z \<le> arena_end s b" "b + 80 \<le> p"
proof -
  from heap_repD(3) [OF rep b] obtain q where "tiles (arena_end s b) (hblock s) 0 (b + 48) (T b) q (arena_end s b)"
    by (auto simp: arena_ok_def)
  then have "arena_end s b = b + 48 + span (T b)" by (rule tiles_span)
  with live_range [OF l] show "b \<le> p - 32" "p - 32 < arena_end s b" "p + z \<le> arena_end s b" "b + 80 \<le> p"
    by linarith+
qed

lemma allocations_upd:
  "a \<in> set as \<Longrightarrow> set (live (a + 48) ts') = insert p (set (live (a + 48) (T a))) \<Longrightarrow>
     allocations as (T(a := ts')) = insert p (allocations as T)"
  by (auto simp: allocations_def split: if_splits)

text \<open>What one successful allocation in an arena does to the set of live allocations.\<close>

lemma allocate_effect:
  assumes rep: "heap_rep s as T" and a: "a \<in> set as" and al: "alloc_tiles sz (T a) = Some (d, ts')" "16 dvd sz"
  shows "\<exists>s' n. kernel_heap_allocate_from_arena a sz s = Some (a + 80 + d, s') \<and> heap_rep s' as (T(a := ts')) \<and>
    sz \<le> n \<and> allocations as (T(a := ts')) = insert (a + 80 + d, n) (allocations as T) \<and>
    (\<forall>y. (a + 80 + d, y) \<notin> allocations as T) \<and> 16 dvd a + 80 + d \<and> a + 80 + d \<noteq> 0"
proof -
  note b = arena_bounds [OF rep a] and ok = heap_repD(3) [OF rep a]
  obtain s' where s': "kernel_heap_allocate_from_arena a sz s = Some (a + 80 + d, s')" "heap_rep s' as (T(a := ts'))"
    by (rule allocate_from_arena_some [OF rep a al])
  obtain n where n: "sz \<le> n" "set (live (a + 48) ts') = insert (a + 48 + d + 32, n) (set (live (a + 48) (T a)))"
    "\<forall>y. (a + 48 + d + 32, y) \<notin> set (live (a + 48) (T a))"
    using live_alloc [OF al(1)] by blast
  have ptr: "a + 48 + d + 32 = a + 80 + d" by simp
  from ok obtain q where "tiles (arena_end s a) (hblock s) 0 (a + 48) (T a) q (arena_end s a)" "tidy (T a)"
    by (auto simp: arena_ok_def)
  then have inside: "a + 48 + d < arena_end s a" "16 dvd d"
    using alloc_tiles_inside [OF al(1)] alloc_tiles_aligned [OF al(1)] tiles_span by fastforce+
  have "(a + 80 + d, y) \<notin> allocations as T" for y
  proof
    assume "(a + 80 + d, y) \<in> allocations as T"
    then obtain c where c: "c \<in> set as" "(a + 80 + d, y) \<in> set (live (c + 48) (T c))" by (auto simp: allocations_def)
    have "c = a"
      using arenas_apart [OF rep a c(1), of "a + 48 + d"] live_in_arena(1,2) [OF rep c] inside by auto
    with c n(3) ptr show False by simp
  qed
  moreover have "16 dvd a + 80 + d" using b(4) inside(2) by (auto simp: dvd_add dest: dvd_trans [of 16 4096])
  ultimately show ?thesis
    using s' n(1) allocations_upd [OF a, of ts' "(a + 80 + d, n)" T] n(2) b(1) unfolding ptr by auto
qed

lemma first_arena:
  assumes "\<exists>a \<in> set as. P a"
  obtains bs a cs where "as = bs @ a # cs" "P a" "\<And>b. b \<in> set bs \<Longrightarrow> \<not> P b"
  using split_list_first_prop [OF assms] by blast

lemma kmalloc_in_arena:
  assumes rep: "heap_rep s as T" and sz: "0 < req" "kernel_heap_align_up req KERNEL_HEAP_ALIGNMENT = sz" "16 dvd sz"
    and as: "as = bs @ a # cs" "alloc_tiles sz (T a) = Some (d, ts')" "\<And>b. b \<in> set bs \<Longrightarrow> alloc_tiles sz (T b) = None"
  obtains s' n where "kmalloc req s = Some (a + 80 + d, s')" "heap_rep s' as (T(a := ts'))" "sz \<le> n"
    "allocations as (T(a := ts')) = insert (a + 80 + d, n) (allocations as T)"
    "\<forall>y. (a + 80 + d, y) \<notin> allocations as T" "16 dvd a + 80 + d" "a + 80 + d \<noteq> 0"
proof -
  have a: "a \<in> set as" using as(1) by simp
  from allocate_effect [OF rep a as(2) sz(3)] obtain s' n where
    s': "kernel_heap_allocate_from_arena a sz s = Some (a + 80 + d, s')" "heap_rep s' as (T(a := ts'))" "sz \<le> n"
      "allocations as (T(a := ts')) = insert (a + 80 + d, n) (allocations as T)"
      "\<forall>y. (a + 80 + d, y) \<notin> allocations as T" "16 dvd a + 80 + d" "a + 80 + d \<noteq> 0"
    by blast
  have ch: "chain (\<lambda>a. nz (ar_next (harena s a))) (nz (kernel_heap_pages s)) (bs @ a # cs)"
    using rep as(1) by (simp add: heap_rep_def)
  have "kmalloc_walk sz (kernel_heap_pages s) s = Some (a + 80 + d, s')"
    by (rule kmalloc_walk_some [OF rep ch _ as(3) s'(1,7)]) (simp add: as(1))
  then have "kmalloc req s = Some (a + 80 + d, s')"
    using sz(1) s'(7) by (simp add: kmalloc_def sz(2) Let_def)
  with s'(2-7) show thesis by (intro that)
qed

lemma kmalloc_new_arena:
  assumes rep: "heap_rep s as T" and sz: "0 < req" "kernel_heap_align_up req KERNEL_HEAP_ALIGNMENT = sz" "16 dvd sz"
    and pg: "sz + 80 \<le> PAGE_SIZE * kernel_heap_pages_for_size sz" and none: "\<And>a. a \<in> set as \<Longrightarrow> alloc_tiles sz (T a) = None"
    and run: "\<exists>r. free_run s (kernel_heap_pages_for_size sz) r"
  obtains a s' n ts' where "kmalloc req s = Some (a + 80, s')" "a \<notin> set as"
    "alloc_tiles sz [(PAGE_SIZE * kernel_heap_pages_for_size sz - 80, True)] = Some (0, ts')"
    "heap_rep s' (a # as) (T(a := ts'))" "sz \<le> n" "allocations (a # as) (T(a := ts')) = insert (a + 80, n) (allocations as T)"
    "\<forall>y. (a + 80, y) \<notin> allocations as T" "16 dvd a + 80"
proof -
  let ?n = "kernel_heap_pages_for_size sz"
  have ch: "chain (\<lambda>a. nz (ar_next (harena s a))) (nz (kernel_heap_pages s)) as"
    using rep by (simp add: heap_rep_def)
  have walk: "kmalloc_walk sz (kernel_heap_pages s) s = Some (0, s)"
    using kmalloc_walk_none [OF rep ch _ none] by simp
  have n0: "0 < ?n" using pg by (cases ?n) simp_all
  obtain a s1 where a: "kernel_heap_add_arena ?n s = (a, s1)" "a \<noteq> 0" "a \<notin> set as"
    and rep1: "heap_rep s1 (a # as) (T(a := [(PAGE_SIZE * ?n - 80, True)]))"
    by (rule add_arena_grows [OF rep n0 run])
  let ?T1 = "T(a := [(PAGE_SIZE * ?n - 80, True)])"
  have "\<exists>ts'. alloc_tiles sz [(PAGE_SIZE * ?n - 80, True)] = Some (0, ts')" using pg by auto
  then obtain ts' where al: "alloc_tiles sz [(PAGE_SIZE * ?n - 80, True)] = Some (0, ts')" by blast
  have same: "allocations (a # as) ?T1 = allocations as T"
    using a(3) by (auto simp: allocations_def split: if_splits)
  have al': "alloc_tiles sz (?T1 a) = Some (0, ts')" using al by simp
  from allocate_effect [OF rep1 list.set_intros(1) al' sz(3)] obtain s' n where
    s': "kernel_heap_allocate_from_arena a sz s1 = Some (a + 80 + 0, s')" "heap_rep s' (a # as) (?T1(a := ts'))" "sz \<le> n"
    "allocations (a # as) (?T1(a := ts')) = insert (a + 80 + 0, n) (allocations as T)"
    "\<forall>y. (a + 80 + 0, y) \<notin> allocations as T" "16 dvd a + 80 + 0" "a + 80 + 0 \<noteq> 0"
    unfolding same by blast
  have "kmalloc req s = Some (a + 80, s')"
    using sz(1) walk a(1,2) s'(1) by (simp add: kmalloc_def sz(2) Let_def)
  with a(3) al s'(2-6) show thesis by (intro that) simp_all
qed

lemma kmalloc_effect:
  assumes rep: "heap_rep s as T" and sz: "0 < req" "kernel_heap_align_up req KERNEL_HEAP_ALIGNMENT = sz" "16 dvd sz"
    and pg: "sz + 80 \<le> PAGE_SIZE * kernel_heap_pages_for_size sz"
  shows "\<exists>ptr s' as' T'. kmalloc req s = Some (ptr, s') \<and> heap_rep s' as' T' \<and>
    (if ptr = 0 then allocations as' T' = allocations as T \<and> \<not> (\<exists>r. free_run s (kernel_heap_pages_for_size sz) r)
     else 16 dvd ptr \<and> (\<forall>y. (ptr, y) \<notin> allocations as T) \<and>
       (\<exists>n \<ge> sz. allocations as' T' = insert (ptr, n) (allocations as T)))"
proof (cases "\<exists>a \<in> set as. alloc_tiles sz (T a) \<noteq> None")
  case True
  then obtain bs a cs where as: "as = bs @ a # cs" "alloc_tiles sz (T a) \<noteq> None"
    "\<And>b. b \<in> set bs \<Longrightarrow> alloc_tiles sz (T b) = None" by (rule first_arena) blast
  then obtain d ts' where al: "alloc_tiles sz (T a) = Some (d, ts')" by auto
  obtain s' n where s': "kmalloc req s = Some (a + 80 + d, s')" "heap_rep s' as (T(a := ts'))" "sz \<le> n"
    "allocations as (T(a := ts')) = insert (a + 80 + d, n) (allocations as T)"
    "\<forall>y. (a + 80 + d, y) \<notin> allocations as T" "16 dvd a + 80 + d" "a + 80 + d \<noteq> 0"
    by (rule kmalloc_in_arena [OF rep sz as(1) al as(3)])
  then show ?thesis
    by (intro exI [of _ "a + 80 + d"] exI [of _ s'] exI [of _ as] exI [of _ "T(a := ts')"]) auto
next
  case False
  let ?n = "kernel_heap_pages_for_size sz"
  have none: "alloc_tiles sz (T a) = None" if "a \<in> set as" for a using False that by blast
  show ?thesis
  proof (cases "\<exists>r. free_run s ?n r")
    case True
    obtain a s' n ts' where s': "kmalloc req s = Some (a + 80, s')" "heap_rep s' (a # as) (T(a := ts'))" "sz \<le> n"
      "allocations (a # as) (T(a := ts')) = insert (a + 80, n) (allocations as T)"
      "\<forall>y. (a + 80, y) \<notin> allocations as T" "16 dvd a + 80"
      by (rule kmalloc_new_arena [OF rep sz pg none True])
    then show ?thesis
      by (intro exI [of _ "a + 80"] exI [of _ s'] exI [of _ "a # as"] exI [of _ "T(a := ts')"]) auto
  next
    case False
    have ch: "chain (\<lambda>a. nz (ar_next (harena s a))) (nz (kernel_heap_pages s)) as"
      using rep by (simp add: heap_rep_def)
    have walk: "kmalloc_walk sz (kernel_heap_pages s) s = Some (0, s)"
      using kmalloc_walk_none [OF rep ch _ none] by simp
    obtain s1 where "kernel_heap_add_arena ?n s = (0, s1)" and rep1: "heap_rep s1 as T"
      by (rule add_arena_fails [OF rep disjI2 [OF False]])
    then have "kmalloc req s = Some (0, s1)" using sz(1) walk by (simp add: kmalloc_def sz(2) Let_def)
    with rep1 False show ?thesis by auto
  qed
qed

section \<open>Freeing\<close>

lemma live_split:
  "(p, z) \<in> set (live b ts) \<Longrightarrow> \<exists>xs ys. ts = xs @ (z, False) # ys \<and> p = b + span xs + 32"
proof (induction ts arbitrary: b)
  case (Cons t ts)
  show ?case
  proof (cases "\<not> snd t \<and> p = b + 32 \<and> z = fst t")
    case True
    then have "t # ts = [] @ (z, False) # ts" "p = b + span [] + 32" by (cases t, auto)
    then show ?thesis by blast
  next
    case False
    with Cons.prems have "(p, z) \<in> set (live (b + 32 + fst t) ts)" by (auto split: if_splits)
    then obtain xs ys where "ts = xs @ (z, False) # ys" "p = b + 32 + fst t + span xs + 32" using Cons.IH by blast
    then have "t # ts = (t # xs) @ (z, False) # ys" "p = b + span (t # xs) + 32" by simp_all
    then show ?thesis by blast
  qed
qed simp

lemma tiles_set_free:
  assumes t: "tiles e h p b (xs @ (z, f) # ys) q e"
  shows "tiles e (h(b + span xs := (h (b + span xs))\<lparr>blk_is_free := g\<rparr>)) p b (xs @ (z, g) # ys) q e"
    "blk_is_free (h (b + span xs)) = f" "blk_size (h (b + span xs)) = z"
proof -
  let ?a = "b + span xs" and ?h = "h(b + span xs := (h (b + span xs))\<lparr>blk_is_free := g\<rparr>)"
  obtain r where pre: "tiles e h p b xs r ?a" and at: "tiles e h r ?a ((z, f) # ys) q e" by (rule tiles_split [OF t])
  have "tiles e ?h ?a (?a + 32 + z) ys q e" by (rule tiles_cong [of _ _ _ h]) (use at in auto)
  with at have "tiles e ?h r ?a ((z, g) # ys) q e" by simp
  then show "tiles e ?h p b (xs @ (z, g) # ys) q e"
    by (intro tiles_prefix_cong [OF pre]) auto
  show "blk_is_free (h ?a) = f" "blk_size (h ?a) = z" using at by simp_all
qed

lemma page_from_pointer_walk:
  assumes rep: "heap_rep s as T"
  shows "chain (\<lambda>a. nz (ar_next (harena s a))) (nz p) bs \<Longrightarrow> set bs \<subseteq> set as \<Longrightarrow>
    page_from_pointer_walk s x p = Some (case find (\<lambda>b. b \<le> x \<and> x < arena_end s b) bs of None \<Rightarrow> 0 | Some b \<Rightarrow> b)"
proof (induction bs arbitrary: p)
  case Nil
  then show ?case by (subst page_from_pointer_walk.simps) (simp add: nz_def split: if_splits)
next
  case (Cons a bs)
  from Cons.prems(1) have p: "p = a" "a \<noteq> 0" "chain (\<lambda>a. nz (ar_next (harena s a))) (nz (ar_next (harena s a))) bs"
    by (auto simp: nz_def split: if_splits)
  have a: "a \<in> set as" using Cons.prems(2) by simp
  have e: "add64 a (mul64 (ar_page_count (harena s a)) PAGE_SIZE) = arena_end s a"
    using arena_bounds(3) [OF rep a] by (simp add: arena_end_def add64_exact mul64_exact mult.commute)
  have m: "ar_magic (harena s a) = KERNEL_HEAP_PAGE_MAGIC" using heap_repD(3) [OF rep a] by (simp add: arena_ok_def)
  have "page_from_pointer_walk s x p =
      (if a \<le> x \<and> x < arena_end s a then Some a else page_from_pointer_walk s x (ar_next (harena s a)))"
    by (subst page_from_pointer_walk.simps) (use p(1,2) e m in simp)
  then show ?case using Cons.IH [OF p(3)] Cons.prems(2) by simp
qed

lemma page_from_pointer:
  assumes rep: "heap_rep s as T" and a: "a \<in> set as" "a \<le> x" "x < arena_end s a"
  shows "kernel_heap_page_from_pointer s x = Some a"
proof -
  have ch: "chain (\<lambda>a. nz (ar_next (harena s a))) (nz (kernel_heap_pages s)) as"
    using rep by (simp add: heap_rep_def)
  have "find (\<lambda>b. b \<le> x \<and> x < arena_end s b) as \<noteq> None" using a by (auto simp: find_None_iff)
  then obtain c where c: "find (\<lambda>b. b \<le> x \<and> x < arena_end s b) as = Some c" by blast
  then have "c \<in> set as" "c \<le> x" "x < arena_end s c" by (auto simp: find_Some_iff)
  with arenas_apart [OF rep a(1) _ a(2,3)] have "c = a" by blast
  with c show ?thesis
    using page_from_pointer_walk [OF rep ch order.refl, of x] by (simp add: kernel_heap_page_from_pointer_def)
qed

lemma set_block_flags: "(\<And>c. blk_is_free (f c) = blk_is_free c) \<Longrightarrow> blk_is_free (hblock (set_block b f s) x) = blk_is_free (hblock s x)"
  by (simp add: set_block_def)

lemma coalesce_flags: "blk_is_free (hblock (kernel_heap_coalesce b s) x) = blk_is_free (hblock s x)"
proof -
  have "blk_is_free (hblock (coalesce_next b s) x) = blk_is_free (hblock s x)" for s :: "'a kheap_scheme"
    unfolding coalesce_next_def Let_def by (simp add: set_block_flags)
  moreover have "blk_is_free (hblock (coalesce_prev b s) x) = blk_is_free (hblock s x)" for s :: "'a kheap_scheme"
    unfolding coalesce_prev_def Let_def by (simp add: set_block_flags)
  ultimately show ?thesis by (simp only: kernel_heap_coalesce_def)
qed

lemma kfree_effect:
  assumes rep: "heap_rep s as T" and al: "(ptr, n) \<in> allocations as T" "0 < n"
  shows "\<exists>s' T'. kfree ptr s = Some s' \<and> heap_rep s' as T' \<and> allocations as T' = allocations as T - {(ptr, n)} \<and>
    kernel_heap_used_space s' + n = kernel_heap_used_space s \<and>
    kernel_heap_free_space s' = kernel_heap_free_space s + n \<and> blk_is_free (hblock s' (sub64 ptr 32))"
proof -
  from al obtain a where a: "a \<in> set as" and l: "(ptr, n) \<in> set (live (a + 48) (T a))" by (auto simp: allocations_def)
  note in_a = live_in_arena [OF rep a l] and b = arena_bounds [OF rep a] and ok = heap_repD(3) [OF rep a]
  obtain xs ys where T: "T a = xs @ (n, False) # ys" and ptr: "ptr = a + 48 + span xs + 32"
    using live_split [OF l] by blast
  let ?b = "a + 48 + span xs" and ?e = "arena_end s a" and ?ts = "free_tiles xs n ys"
  have e: "?e < two64" using b(3) by simp
  from ok obtain q where t: "tiles ?e (hblock s) 0 (a + 48) (xs @ (n, False) # ys) q ?e" and td: "tidy (T a)"
    by (auto simp: arena_ok_def T)
  note f = tiles_set_free [OF t]
  have inside: "a \<le> ptr" "ptr < ?e" using in_a al(2) by linarith+
  have a': "kernel_heap_page_from_pointer s ptr = Some a" by (rule page_from_pointer [OF rep a inside])
  have blk: "sub64 ptr 32 = ?b" using e inside ptr by (simp add: sub64_exact)
  have fb: "\<not> blk_is_free (hblock s ?b)" "blk_size (hblock s ?b) = n"
    using f(2,3) by simp_all
  have len: "used (T a) = used ?ts + n" by (simp add: T used_free)
  have tot: "n \<le> kernel_heap_used_space s" "kernel_heap_free_space s + kernel_heap_used_space s < two64"
  proof -
    have "used (T a) \<le> (\<Sum>a\<leftarrow>as. used (T a))" by (rule member_le_sum_list) (simp_all add: a)
    then show "n \<le> kernel_heap_used_space s" using rep len by (simp add: heap_rep_def)
    show "kernel_heap_free_space s + kernel_heap_used_space s < two64"
      using heap_total(2) [OF rep] rep by (simp add: heap_rep_def)
  qed
  define s1 where "s1 = set_block ?b (\<lambda>b. b\<lparr>blk_is_free := True\<rparr>) s"
  define s2 where "s2 = s1\<lparr>kernel_heap_used_space := sub64 (kernel_heap_used_space s1) (blk_size (hblock s1 ?b)),
      kernel_heap_free_space := add64 (kernel_heap_free_space s1) (blk_size (hblock s1 ?b))\<rparr>"
  define s' where "s' = kernel_heap_coalesce ?b s2"
  have t2: "tiles ?e (hblock s2) 0 (a + 48) (xs @ (n, True) # ys) q ?e"
    using f(1) [of True] by (simp add: s2_def s1_def set_block_def)
  have res: "kfree ptr s = Some s'"
    using a' b(1) blk fb(1) ptr by (simp add: kfree_def Let_def s'_def s2_def s1_def)
  note co = coalesce_refines [OF t2 e _ s'_def]
  obtain q' where t': "tiles ?e (hblock s') 0 (a + 48) ?ts q' ?e" using co(1) by auto
  have "same_but_blocks s2 s' (a + 48) ?e" using co(2) by simp
  then obtain h where s': "s' = s2\<lparr>hblock := h\<rparr>" and h: "\<And>x. x < a + 48 \<or> ?e \<le> x \<Longrightarrow> h x = hblock s2 x"
    by (rule same_but_blocksE) blast
  have fields: "hblock s' = h" "harena s' = harena s" "kernel_heap_pages s' = kernel_heap_pages s" "mem s' = mem s"
    "same_alloc s s'" "kernel_heap_used_space s' = kernel_heap_used_space s - n"
    "kernel_heap_free_space s' = kernel_heap_free_space s + n"
    using tot fb(2) by (simp_all add: s' s2_def s1_def same_alloc_def set_block_def sub64_exact add64_exact)
  have out: "hblock s' x = hblock s x" if "x < a + 48 \<or> ?e \<le> x" for x
  proof -
    have "x \<noteq> ?b" using that inside ptr by auto
    then show ?thesis using h [OF that] by (simp add: fields(1) s2_def s1_def set_block_def)
  qed
  have rep': "heap_rep s' as (T(a := ?ts))"
    by (rule heap_rep_upd [OF rep a out t' _ fields(2,3,5,4)])
       (use td tot len in \<open>simp_all add: T tidy_free fields\<close>)
  have al': "allocations as (T(a := ?ts)) = allocations as T - {(ptr, n)}"
  proof -
    have other: "(ptr, n) \<notin> set (live (c + 48) (T c))" if c: "c \<in> set as" "c \<noteq> a" for c
    proof
      assume "(ptr, n) \<in> set (live (c + 48) (T c))"
      from live_in_arena [OF rep c(1) this] in_a have "c = a"
        by (intro arenas_apart [OF rep c(1) a, of "ptr - 32"]) linarith+
      with c(2) show False ..
    qed
    have mine: "set (live (a + 48) ?ts) = set (live (a + 48) (T a)) - {(ptr, n)}"
      using live_free [OF refl, of "a + 48" xs n ys] by (simp add: T ptr)
    show ?thesis using other mine a by (auto simp: allocations_def split: if_splits)
  qed
  have us: "kernel_heap_used_space s' + n = kernel_heap_used_space s" using fields(6) tot(1) by simp
  have fr: "blk_is_free (hblock s' (sub64 ptr 32))"
    by (simp add: s'_def coalesce_flags blk) (simp add: s2_def s1_def set_block_def)
  show ?thesis
    by (intro exI [of _ s'] exI [of _ "T(a := ?ts)"] conjI) (rule res rep' al' us fields(7) fr)+
qed

text \<open>
  Payloads of distinct live allocations never overlap, and never leave the pages the heap holds.
\<close>

lemma allocations_apart:
  assumes rep: "heap_rep s as T" and x: "(p, m) \<in> allocations as T" and y: "(p', n) \<in> allocations as T"
    and ne: "(p, m) \<noteq> (p', n)"
  shows "p + m \<le> p' \<or> p' + n \<le> p"
proof -
  from x obtain a where a: "a \<in> set as" "(p, m) \<in> set (live (a + 48) (T a))" by (auto simp: allocations_def)
  from y obtain b where b: "b \<in> set as" "(p', n) \<in> set (live (b + 48) (T b))" by (auto simp: allocations_def)
  note A = live_in_arena [OF rep a] and B = live_in_arena [OF rep b]
  show ?thesis
  proof (cases "a = b")
    case True
    with live_disjoint [OF a(2)] b(2) ne show ?thesis by auto
  next
    case False
    have "\<not> (a \<le> p' - 32 \<and> p' - 32 < arena_end s a)"
      using arenas_apart [OF rep a(1) b(1)] B(1,2) False by blast
    moreover have "\<not> (b \<le> p - 32 \<and> p - 32 < arena_end s b)"
      using arenas_apart [OF rep a(1) b(1)] A(1,2) False by blast
    ultimately show ?thesis using A B by linarith
  qed
qed

text \<open>Freeing a pointer outside every arena changes nothing.\<close>

lemma kfree_foreign:
  assumes rep: "heap_rep s as T" and out: "\<And>a. a \<in> set as \<Longrightarrow> \<not> (a \<le> ptr \<and> ptr < arena_end s a)"
  shows "kfree ptr s = Some s"
proof -
  have ch: "chain (\<lambda>a. nz (ar_next (harena s a))) (nz (kernel_heap_pages s)) as"
    using rep by (simp add: heap_rep_def)
  have "find (\<lambda>b. b \<le> ptr \<and> ptr < arena_end s b) as = None" using out by (auto simp: find_None_iff)
  then have "kernel_heap_page_from_pointer s ptr = Some 0"
    using page_from_pointer_walk [OF rep ch order.refl, of ptr] by (simp add: kernel_heap_page_from_pointer_def)
  then show ?thesis by (simp add: kfree_def)
qed

lemma kfree_twice:
  assumes rep: "heap_rep s as T" and al: "(ptr, n) \<in> allocations as T" "0 < n" and s': "kfree ptr s = Some s'"
  shows "kfree ptr s' = Some s'"
proof -
  from kfree_effect [OF rep al] obtain s1 T' where "kfree ptr s = Some s1" "heap_rep s1 as T'"
    "blk_is_free (hblock s1 (sub64 ptr 32))" by (elim exE conjE)
  with s' have rep': "heap_rep s' as T'" and free: "blk_is_free (hblock s' (sub64 ptr 32))" by simp_all
  have "\<exists>page. kernel_heap_page_from_pointer s' ptr = Some page"
    using page_from_pointer_walk [OF rep' _ order.refl, of "kernel_heap_pages s'" ptr] rep'
    by (simp add: kernel_heap_page_from_pointer_def heap_rep_def)
  then obtain page where "kernel_heap_page_from_pointer s' ptr = Some page" ..
  with free show ?thesis by (simp add: kfree_def)
qed

section \<open>The heap as a set of live allocations\<close>

lemma allocation_bound:
  assumes rep: "heap_rep s as T" and x: "(p, n) \<in> allocations as T"
  shows "KERNEL_VA_OFFSET + 80 \<le> p" "p + n \<le> KERNEL_VA_OFFSET + QEMU_VIRT_RAM_END"
proof -
  from x obtain a where a: "a \<in> set as" "(p, n) \<in> set (live (a + 48) (T a))" by (auto simp: allocations_def)
  show "KERNEL_VA_OFFSET + 80 \<le> p" "p + n \<le> KERNEL_VA_OFFSET + QEMU_VIRT_RAM_END"
    using live_in_arena [OF rep a] arena_bounds [OF rep a(1)] by linarith+
qed

lemma heap_empty:
  assumes "palloc_inv s" "kernel_heap_pages s = 0" "kernel_heap_used_space s = 0" "kernel_heap_free_space s = 0"
  shows "heap_rep s [] (\<lambda>_. [])"
  using assms by (simp add: heap_rep_def nz_def)

lemma kernel_heap_init_holds:
  assumes inv: "palloc_inv s"
  shows "heap_holds (kernel_heap_init s) {}"
proof -
  let ?s = "s\<lparr>kernel_heap_pages := 0, kernel_heap_pages_used := 0, kernel_heap_free_space := 0,
          kernel_heap_used_space := 0, kernel_heap_allocations := 0, kernel_heap_failed := 0\<rparr>"
  have "palloc_inv ?s" by (rule palloc_inv_cong [OF _ _ inv]) (simp_all add: same_alloc_def)
  then have rep: "heap_rep ?s [] (\<lambda>_. [])" by (rule heap_empty) simp_all
  show ?thesis
  proof (cases "\<exists>r. free_run ?s 1 r")
    case True
    obtain a s' where e: "kernel_heap_add_arena 1 ?s = (a, s')"
      and r: "heap_rep s' [a] ((\<lambda>_. [])(a := [(PAGE_SIZE * 1 - 80, True)]))"
      by (rule add_arena_grows [OF rep _ True]) simp
    have "heap_holds s' {}"
      unfolding heap_holds_def by (intro exI conjI) (rule r, simp add: allocations_def)
    with e show ?thesis by (simp add: kernel_heap_init_def)
  next
    case False
    obtain s' where e: "kernel_heap_add_arena 1 ?s = (0, s')" and r: "heap_rep s' [] (\<lambda>_. [])"
      by (rule add_arena_fails [OF rep disjI2 [OF False]])
    have "heap_holds s' {}"
      unfolding heap_holds_def by (intro exI conjI) (rule r, simp add: allocations_def)
    with e show ?thesis by (simp add: kernel_heap_init_def)
  qed
qed

lemma kmalloc_holds:
  assumes L: "heap_holds s L" and sz: "0 < req" "kernel_heap_align_up req KERNEL_HEAP_ALIGNMENT = sz" "16 dvd sz"
    and pg: "sz + 80 \<le> PAGE_SIZE * kernel_heap_pages_for_size sz"
  obtains ptr s' L' where "kmalloc req s = Some (ptr, s')" "heap_holds s' L'"
    "if ptr = 0 then L' = L \<and> \<not> (\<exists>r. free_run s (kernel_heap_pages_for_size sz) r)
     else 16 dvd ptr \<and> (\<forall>y. (ptr, y) \<notin> L) \<and> (\<exists>n \<ge> sz. L' = insert (ptr, n) L)"
proof -
  from L obtain as T where rep: "heap_rep s as T" and L': "L = allocations as T" unfolding heap_holds_def by (elim exE conjE)
  from kmalloc_effect [OF rep sz pg] obtain ptr s' as' T' where 1: "kmalloc req s = Some (ptr, s')" "heap_rep s' as' T'"
    "if ptr = 0 then allocations as' T' = allocations as T \<and> \<not> (\<exists>r. free_run s (kernel_heap_pages_for_size sz) r)
     else 16 dvd ptr \<and> (\<forall>y. (ptr, y) \<notin> allocations as T) \<and> (\<exists>n \<ge> sz. allocations as' T' = insert (ptr, n) (allocations as T))"
    by (elim exE conjE)
  have "heap_holds s' (allocations as' T')" unfolding heap_holds_def by (intro exI conjI) (rule 1(2), rule refl)
  from that [OF 1(1) this] 1(3) L' show thesis by simp
qed

lemma heap_cold_of_rep: "heap_rep (heap_cold_of m) [] (\<lambda>_. [])" "free_run (heap_cold_of m) 1 0x47FFE000"
proof -
  obtain s0 :: "'a kheap_scheme" where c: "heap_cold_of m = (page_allocator_init (QEMU_VIRT_RAM_END - 2 * PAGE_SIZE) s0)
      \<lparr>kernel_heap_pages := 0, kernel_heap_used_space := 0, kernel_heap_free_space := 0\<rparr>"
    unfolding heap_cold_of_def by blast
  note b = two_page_init [OF refl, of s0]
  have al: "same_alloc (page_allocator_init (QEMU_VIRT_RAM_END - 2 * PAGE_SIZE) s0) (heap_cold_of m)" by (simp add: c same_alloc_def)
  have "palloc_inv (heap_cold_of m)" by (rule palloc_inv_cong [OF al _ b(1)]) (simp add: c)
  then show "heap_rep (heap_cold_of m) [] (\<lambda>_. [])" by (rule heap_empty) (simp_all add: c)
  show "free_run (heap_cold_of m) 1 0x47FFE000" using b(4) by (simp add: free_run_def c free_set_def managed_def page_range_def)
qed

lemma heap_cold_of_holds: "heap_holds (heap_cold_of m) {}"
  unfolding heap_holds_def by (intro exI conjI) (rule heap_cold_of_rep(1), simp add: allocations_def)

lemma heap_cold_holds: "heap_holds heap_cold {}" "free_run heap_cold 1 0x47FFE000"
  unfolding heap_cold_def by (rule heap_cold_of_holds heap_cold_of_rep)+

lemma cold_request: "kernel_heap_align_up 100 KERNEL_HEAP_ALIGNMENT = 112" "kernel_heap_pages_for_size 112 = 1"
  using heap_align_size [of 100] heap_align_size [of 40] heap_align_size [of 112]
  by (simp_all add: kernel_heap_pages_for_size_def add64_exact)
    (simp add: kernel_heap_align_up_def align_up64_pow2 [of 12, simplified])

lemma heap_one_block:
  obtains ptr n s where "kmalloc 100 heap_cold = Some (ptr, s)" "heap_holds s {(ptr, n)}" "100 \<le> n"
proof -
  note k = cold_request(1) and p = cold_request(2)
  have pos: "(0 :: nat) < 100" and div: "16 dvd (112 :: nat)" and pg: "112 + 80 \<le> PAGE_SIZE * kernel_heap_pages_for_size 112" by (simp_all add: p)
  obtain ptr s' L' where 1: "kmalloc 100 heap_cold = Some (ptr, s')" "heap_holds s' L'"
    "if ptr = 0 then L' = {} \<and> \<not> (\<exists>r. free_run heap_cold (kernel_heap_pages_for_size 112) r)
     else 16 dvd ptr \<and> (\<forall>y. (ptr, y) \<notin> ({} :: (nat \<times> nat) set)) \<and> (\<exists>n \<ge> 112. L' = insert (ptr, n) {})"
    by (rule kmalloc_holds [OF heap_cold_holds(1) pos k div pg])
  from 1(3) heap_cold_holds(2) p have "ptr \<noteq> 0" by (metis (full_types))
  with 1(3) obtain n where "112 \<le> n" "L' = {(ptr, n)}" by auto
  with 1(1,2) that [of ptr s' n] show thesis by simp
qed

section \<open>Properties\<close>



text \<open>C8: \<open>kfree\<close> of a live payload returns, removes exactly that allocation, moves its bytes from
  the used to the free counter, and a second free of the same pointer changes nothing.\<close>

theorem kfree_correct:
  assumes L: "heap_holds s L" and al: "(ptr, n) \<in> L" "0 < n"
  shows "\<exists>s'. kfree ptr s = Some s' \<and> heap_holds s' (L - {(ptr, n)}) \<and>
    kernel_heap_used_space s' + n = kernel_heap_used_space s \<and>
    kernel_heap_free_space s' = kernel_heap_free_space s + n \<and> kfree ptr s' = Some s'"
proof -
  from L obtain as T where rep: "heap_rep s as T" and L': "L = allocations as T" unfolding heap_holds_def by (elim exE conjE)
  note al' = al [unfolded L']
  from kfree_effect [OF rep al'] obtain s' T' where 1: "kfree ptr s = Some s'" "heap_rep s' as T'"
    "allocations as T' = allocations as T - {(ptr, n)}" "kernel_heap_used_space s' + n = kernel_heap_used_space s"
    "kernel_heap_free_space s' = kernel_heap_free_space s + n"
    by (elim exE conjE)
  have "heap_holds s' (L - {(ptr, n)})"
    unfolding heap_holds_def by (intro exI conjI) (rule 1(2), simp add: 1(3) L')
  with 1(1,4,5) kfree_twice [OF rep al' 1(1)] show ?thesis by blast
qed

theorem kfree_correct_witness:
  "\<exists>ptr n s s'. kmalloc 100 heap_cold = Some (ptr, s) \<and> 100 \<le> n \<and> heap_holds s {(ptr, n)} \<and>
     kfree ptr s = Some s' \<and> heap_holds s' {} \<and> kfree ptr s' = Some s'"
proof -
  obtain ptr n s where 1: "kmalloc 100 heap_cold = Some (ptr, s)" "heap_holds s {(ptr, n)}" "100 \<le> n"
    by (rule heap_one_block)
  have h: "(ptr, n) \<in> {(ptr, n)}" "0 < n" using 1(3) by simp_all
  from kfree_correct [OF 1(2) h] obtain s' where 2: "kfree ptr s = Some s'" "heap_holds s' ({(ptr, n)} - {(ptr, n)})"
    "kfree ptr s' = Some s'" by (elim exE conjE)
  have "heap_holds s' {}" using 2(2) by simp
  with 1 2(1,3) show ?thesis by blast
qed



text \<open>C10: a request within 15 bytes of the top of the 64-bit range wraps to zero in the rounding and
  \<open>kmalloc\<close> answers it with a non-null pointer to a block far smaller than requested.\<close>

theorem kmalloc_huge_wraps:
  assumes L: "heap_holds s L" and sz: "two64 - 16 < sz" "sz < two64" and r: "free_run s 1 r"
  shows "\<exists>ptr s' n. kmalloc sz s = Some (ptr, s') \<and> ptr \<noteq> 0 \<and> heap_holds s' (insert (ptr, n) L) \<and> n < QEMU_VIRT_RAM_END"
proof -
  have k: "kernel_heap_align_up sz KERNEL_HEAP_ALIGNMENT = 0"
  proof -
    obtain j where j: "sz + j = two64" "0 < j" "j < 16" using that [of "two64 - sz"] sz by simp
    have "word_of_nat sz + word_of_nat j = (0 :: u64)" using arg_cong [OF j(1), of "word_of_nat :: nat \<Rightarrow> u64"] by simp
    then have "word_of_nat sz = - (word_of_nat j :: u64)" by (simp add: eq_neg_iff_add_eq_0)
    moreover have "j = 1 \<or> j = 2 \<or> j = 3 \<or> j = 4 \<or> j = 5 \<or> j = 6 \<or> j = 7 \<or> j = 8 \<or> j = 9 \<or> j = 10 \<or> j = 11 \<or> j = 12 \<or> j = 13 \<or> j = 14 \<or> j = 15"
      using j(2,3) by presburger
    ultimately show ?thesis by (elim disjE) (simp_all add: kernel_heap_align_up_def align_up64_def)
  qed
  have p: "kernel_heap_pages_for_size 0 = 1"
    using heap_align_size [of 40] heap_align_size [of 0]
    by (simp add: kernel_heap_pages_for_size_def add64_exact)
      (simp add: kernel_heap_align_up_def align_up64_pow2 [of 12, simplified])
  obtain ptr s' L' where 1: "kmalloc sz s = Some (ptr, s')" "heap_holds s' L'"
    "if ptr = 0 then L' = L \<and> \<not> (\<exists>r. free_run s (kernel_heap_pages_for_size 0) r)
     else 16 dvd ptr \<and> (\<forall>y. (ptr, y) \<notin> L) \<and> (\<exists>n \<ge> 0. L' = insert (ptr, n) L)"
    by (rule kmalloc_holds [OF L _ k]) (use sz p in simp_all)
  from 1(3) r p have nz: "ptr \<noteq> 0" by (metis (full_types))
  with 1(3) obtain n where n: "L' = insert (ptr, n) L" by auto
  from 1(2) obtain as T where rep: "heap_rep s' as T" and L': "L' = allocations as T"
    unfolding heap_holds_def by (elim exE conjE)
  have "(ptr, n) \<in> allocations as T" using n L' by simp
  then have "n < QEMU_VIRT_RAM_END" using allocation_bound [OF rep] by fastforce
  with 1(1,2) nz n show ?thesis by blast
qed

theorem kmalloc_huge_wraps_witness:
  "\<exists>ptr s' n. kmalloc (two64 - 1) heap_cold = Some (ptr, s') \<and> ptr \<noteq> 0 \<and> heap_holds s' {(ptr, n)} \<and> n < QEMU_VIRT_RAM_END"
proof -
  have h: "two64 - 16 < two64 - 1" "two64 - 1 < two64" by simp_all
  show ?thesis by (rule kmalloc_huge_wraps [OF heap_cold_holds(1) h heap_cold_holds(2)])
qed

section \<open>What the allocators leave alone\<close>

lemma store64_more [simp]: "palloc.more (store64 p v s) = palloc.more s" by (simp add: store64_def)

lemma zero_words_more [simp]: "palloc.more (zero_words p i n s) = palloc.more s"
  by (induction p i n s rule: zero_words.induct) simp_all

lemma page_ops_more [simp]: "palloc.more (zero_page p s) = palloc.more s" "palloc.more (set_page_state i v s) = palloc.more s"
  "palloc.more (set_page_ref i r s) = palloc.more s" "palloc.more (push_free_page a s) = palloc.more s"
  by (simp_all add: zero_page_def set_page_state_def set_page_ref_def push_free_page_def)

lemma rebuild_from_more: "palloc.more (rebuild_from a b s) = palloc.more s"
proof (induction a b s rule: rebuild_from.induct)
  case (1 start a s)
  show ?case
  proof (cases "start \<le> a")
    case True
    with 1 [OF True refl] show ?thesis by (subst rebuild_from.simps) (simp add: Let_def)
  qed (simp add: rebuild_from.simps)
qed

lemma take_run_more [simp]: "palloc.more (take_run r i n s) = palloc.more s"
  by (induction r i n s rule: take_run.induct) (simp_all add: Let_def)

lemma page_alloc_contiguous_more [simp]: "palloc.more (snd (page_alloc_contiguous n s)) = palloc.more s"
  by (simp add: page_alloc_contiguous_def page_allocator_rebuild_free_list_def rebuild_from_more Let_def split: option.split)

lemma kheap_more: "palloc.more s' = palloc.more s \<Longrightarrow> kheap.more s' = kheap.more s"
  by (cases s, cases s') simp

lemma set_block_more [simp]: "kheap.more (set_block b f s) = kheap.more s" by (simp add: set_block_def)

lemma split_more [simp]: "kheap.more (kernel_heap_split_block b sz s) = kheap.more s"
  by (simp add: kernel_heap_split_block_def Let_def)

lemma coalesce_more [simp]: "kheap.more (kernel_heap_coalesce b s) = kheap.more s"
  by (simp add: kernel_heap_coalesce_def coalesce_next_def coalesce_prev_def Let_def)

lemma add_arena_more [simp]: "kheap.more (snd (kernel_heap_add_arena n s)) = kheap.more s"
  using kheap_more [OF page_alloc_contiguous_more [of n s]]
  by (cases "page_alloc_contiguous n s") (simp add: kernel_heap_add_arena_def Let_def)

lemma allocate_more: "kernel_heap_allocate_from_arena p sz s = Some (q, s') \<Longrightarrow> kheap.more s' = kheap.more s"
  by (auto simp: kernel_heap_allocate_from_arena_def Let_def bind_eq_Some_conv split: if_splits)

lemma kmalloc_walk_more:
  assumes "kmalloc_walk k p s = Some r"
  shows "kheap.more (snd r) = kheap.more s"
proof (rule kmalloc_walk.raw_induct [where P = "\<lambda>k p s r. kheap.more (snd r) = kheap.more s", OF _ assms])
  fix f k p s r
  assume IH: "\<And>k p s r. f k p s = Some r \<Longrightarrow> kheap.more (snd r) = kheap.more s"
    and f: "(if p = 0 then Some (0, s)
      else Option.bind (kernel_heap_allocate_from_arena p k s) (\<lambda>r.
        if fst r \<noteq> 0 then Some r else f k (ar_next (harena (snd r) p)) (snd r))) = Some r"
  show "kheap.more (snd r) = kheap.more s"
  proof (cases "p = 0")
    case False
    with f obtain q where a: "kernel_heap_allocate_from_arena p k s = Some q"
      by (cases "kernel_heap_allocate_from_arena p k s") simp_all
    have "kheap.more (snd q) = kheap.more s" using allocate_more [of p k s "fst q" "snd q"] a by simp
    then show ?thesis
      using False a f IH [of k "ar_next (harena (snd q) p)" "snd q" r] by (cases "fst q = 0") simp_all
  qed (use f in auto)
qed

lemma kmalloc_more:
  assumes "kmalloc sz s = Some (p, s')"
  shows "kheap.more s' = kheap.more s"
proof (cases "sz = 0")
  case False
  define k where "k = kernel_heap_align_up sz KERNEL_HEAP_ALIGNMENT"
  obtain r where w: "kmalloc_walk k (kernel_heap_pages s) s = Some r"
    using assms False by (auto simp: kmalloc_def Let_def k_def bind_eq_Some_conv)
  note m = kmalloc_walk_more [OF w]
  obtain page s1 where a: "kernel_heap_add_arena (kernel_heap_pages_for_size k) (snd r) = (page, s1)" by (rule prod.exhaust)
  have "kheap.more s1 = kheap.more (snd r)" using add_arena_more [of "kernel_heap_pages_for_size k" "snd r"] a by simp
  moreover have "(if fst r \<noteq> 0 then Some r else if page = 0 then Some (0, s1)
      else kernel_heap_allocate_from_arena page k s1) = Some (p, s')"
    using assms False a by (cases "fst r = 0") (simp_all add: kmalloc_def Let_def k_def [symmetric] w)
  ultimately show ?thesis using m by (auto dest: allocate_more split: if_splits)
qed (use assms in \<open>simp add: kmalloc_def\<close>)

lemma kfree_more: "kfree p s = Some s' \<Longrightarrow> kheap.more s' = kheap.more s"
  by (auto simp: kfree_def Let_def bind_eq_Some_conv split: if_splits)

section \<open>The contract for clients\<close>

lemma heap_rep_cong:
  assumes "heap_rep s as T" "kheap.truncate s' = kheap.truncate s"
  shows "heap_rep s' as T"
proof -
  have e: "mmu_enabled s' = mmu_enabled s" "page_free_list_pa s' = page_free_list_pa s" "total_pages s' = total_pages s"
    "free_pages s' = free_pages s" "managed_start s' = managed_start s" "managed_end s' = managed_end s" "pages s' = pages s"
    "mem s' = mem s" "hblock s' = hblock s" "harena s' = harena s" "kernel_heap_pages s' = kernel_heap_pages s"
    "kernel_heap_used_space s' = kernel_heap_used_space s" "kernel_heap_free_space s' = kernel_heap_free_space s"
    using assms(2) by (cases s, cases s', simp add: kheap.defs)+
  then have al: "same_alloc s s'" by (simp add: same_alloc_def)
  have i: "palloc_inv s \<Longrightarrow> palloc_inv s'" by (rule palloc_inv_cong [OF al]) (simp_all add: e)
  have o: "owned s' = owned s" by (rule ext) (simp add: owned_def managed_def e)
  show ?thesis
    using assms(1) i by (simp add: heap_rep_def arena_ok_def arena_end_def arena_pages_def e o)
qed

lemma heap_holds_cong:
  assumes "heap_holds s L" "kheap.truncate s' = kheap.truncate s"
  shows "heap_holds s' L"
  using assms heap_rep_cong unfolding heap_holds_def by blast

lemma heap_live_unique: "heap_holds s L \<Longrightarrow> (p, m) \<in> L \<Longrightarrow> (p, n) \<in> L \<Longrightarrow> 0 < m \<Longrightarrow> 0 < n \<Longrightarrow> m = n"
  unfolding heap_holds_def using allocations_apart [of s _ _ p m p n] by fastforce

lemma kfree_holds:
  assumes "heap_holds s L" "(ptr, n) \<in> L" "0 < n"
  obtains s' where "kfree ptr s = Some s'" "heap_holds s' (L - {(ptr, n)})" "kheap.more s' = kheap.more s"
proof -
  from assms(1) obtain as T where rep: "heap_rep s as T" and L: "L = allocations as T" unfolding heap_holds_def by (elim exE conjE)
  from kfree_effect [OF rep assms(2) [unfolded L] assms(3)] obtain s' T' where
    1: "kfree ptr s = Some s'" "heap_rep s' as T'" "allocations as T' = allocations as T - {(ptr, n)}" by (elim exE conjE)
  have "heap_holds s' (L - {(ptr, n)})" unfolding heap_holds_def L 1(3) [symmetric] by (intro exI conjI) (rule 1(2), rule refl)
  with 1(1) kfree_more [OF 1(1)] show thesis by (intro that)
qed

text \<open>A request that leaves room below \<open>2 ^ 64\<close>, zero included.\<close>

lemma kmalloc_client:
  assumes L: "heap_holds s L" and sz: "sz + 3 * PAGE_SIZE < two64"
  obtains ptr s' L' where "kmalloc sz s = Some (ptr, s')" "heap_holds s' L'" "kheap.more s' = kheap.more s"
    "ptr = 0 \<Longrightarrow> L' = L \<and> (sz = 0 \<or> \<not> (\<exists>r. free_run s (kernel_heap_pages_for_size (kernel_heap_align_up sz 16)) r))"
    "ptr \<noteq> 0 \<Longrightarrow> \<exists>n \<ge> sz. L' = insert (ptr, n) L \<and> 0 < n \<and> (\<forall>m. (ptr, m) \<notin> L)"
proof (cases "sz = 0")
  case True
  then have "kmalloc sz s = Some (0, s)" by (simp add: kmalloc_def)
  from that [OF this L refl] show thesis using True by simp
next
  case False
  define k where "k = kernel_heap_align_up sz 16"
  have k: "k = (sz + 15) div 16 * 16" using heap_align_size [of sz] sz by (simp add: k_def)
  have r: "sz \<le> k" "k < sz + 16" "16 dvd k" unfolding k using round_up_16 [of sz] by simp_all
  have "k + 8192 < two64" using r(2) sz by simp
  note pg = pages_for_size(1) [OF r(3) this]
  have pos: "0 < sz" using False by simp
  obtain ptr s' L' where 1: "kmalloc sz s = Some (ptr, s')" "heap_holds s' L'"
    "if ptr = 0 then L' = L \<and> \<not> (\<exists>r. free_run s (kernel_heap_pages_for_size k) r)
     else 16 dvd ptr \<and> (\<forall>y. (ptr, y) \<notin> L) \<and> (\<exists>n \<ge> k. L' = insert (ptr, n) L)"
    by (rule kmalloc_holds [OF L pos k_def [symmetric] r(3) pg])
  show thesis
  proof (rule that [OF 1(1,2) kmalloc_more [OF 1(1)]])
    assume "ptr = 0"
    with 1(3) show "L' = L \<and> (sz = 0 \<or> \<not> (\<exists>r. free_run s (kernel_heap_pages_for_size (kernel_heap_align_up sz 16)) r))" by (simp add: k_def)
  next
    assume "ptr \<noteq> 0"
    with 1(3) obtain n where n: "k \<le> n" "L' = insert (ptr, n) L" "\<forall>y. (ptr, y) \<notin> L" by auto
    have "sz \<le> n \<and> 0 < n" using n(1) r(1) pos by simp
    with n(2,3) show "\<exists>n \<ge> sz. L' = insert (ptr, n) L \<and> 0 < n \<and> (\<forall>m. (ptr, m) \<notin> L)" by blast
  qed
qed

locale allocator =
  fixes alloc :: "nat \<Rightarrow> 's \<Rightarrow> (nat \<times> 's) option" and dealloc :: "nat \<Rightarrow> 's \<Rightarrow> 's option"
    and blocks :: "'s \<Rightarrow> (nat \<times> nat) set \<Rightarrow> bool" and rest :: "'s \<Rightarrow> 'r" and room :: "nat \<Rightarrow> bool"
  assumes alloc_law: "\<lbrakk>blocks s L; room n\<rbrakk> \<Longrightarrow> \<exists>p s' L'. alloc n s = Some (p, s') \<and> blocks s' L' \<and> rest s' = rest s \<and>
      (if p = 0 then L' = L else \<exists>k \<ge> n. 0 < k \<and> L' = insert (p, k) L \<and> (\<forall>m. (p, m) \<notin> L))"
    and dealloc_law: "\<lbrakk>blocks s L; (p, k) \<in> L; 0 < k\<rbrakk> \<Longrightarrow> \<exists>s'. dealloc p s = Some s' \<and> blocks s' (L - {(p, k)}) \<and> rest s' = rest s"
    and apart_law: "\<lbrakk>blocks s L; (p, k) \<in> L; (q, m) \<in> L; p \<noteq> q\<rbrakk> \<Longrightarrow> p + k \<le> q \<or> q + m \<le> p"
begin

lemma alloc_held:
  assumes "blocks s L" "held L A" "room n"
  obtains p s' L' where "alloc n s = Some (p, s')" "blocks s' L'" "rest s' = rest s" "held L' A" "L \<subseteq> L'"
    "p \<noteq> 0 \<longrightarrow> p \<notin> A \<and> held L' (insert p A) \<and> (\<forall>(q, m) \<in> L. p + n \<le> q \<or> q + m \<le> p)"
proof -
  from alloc_law [OF assms(1,3)] obtain p s' L' where 1: "alloc n s = Some (p, s')" "blocks s' L'" "rest s' = rest s"
    "if p = 0 then L' = L else \<exists>k \<ge> n. 0 < k \<and> L' = insert (p, k) L \<and> (\<forall>m. (p, m) \<notin> L)" by (elim exE conjE)
  have "L \<subseteq> L'" using 1(4) by (auto split: if_splits)
  moreover have "p \<notin> A \<and> held L' (insert p A) \<and> (\<forall>(q, m) \<in> L. p + n \<le> q \<or> q + m \<le> p)" if nz: "p \<noteq> 0"
  proof -
    from 1(4) nz obtain k where k: "n \<le> k" "0 < k" "L' = insert (p, k) L" "\<And>m. (p, m) \<notin> L" by auto
    have "p + n \<le> q \<or> q + m \<le> p" if "(q, m) \<in> L" for q m
    proof -
      have "p \<noteq> q" using that k(4) by blast
      with apart_law [OF 1(2), of p k q m] k(1,3) that show ?thesis by auto
    qed
    with k assms(2) show ?thesis by (auto simp: held_def)
  qed
  moreover have "held L' A" using calculation(1) assms(2) by (fastforce simp: held_def)
  ultimately show thesis using 1(1-3) by (intro that impI)
qed

lemma dealloc_held:
  assumes "blocks s L" "held L (insert p A)" "p \<notin> A"
  obtains s' L' where "dealloc p s = Some s'" "blocks s' L'" "rest s' = rest s" "held L' A"
proof -
  from assms(2) obtain k where k: "(p, k) \<in> L" "0 < k" by (auto simp: held_def)
  from dealloc_law [OF assms(1) k] obtain s' where 1: "dealloc p s = Some s'" "blocks s' (L - {(p, k)})" "rest s' = rest s"
    by (elim exE conjE)
  have "held (L - {(p, k)}) A" using assms(2,3) by (fastforce simp: held_def)
  with 1 show thesis by (intro that)
qed

end

interpretation kh: allocator kmalloc kfree heap_holds kheap.more "\<lambda>sz. sz + 3 * PAGE_SIZE < two64"
proof
  fix s :: "'a kheap_scheme" and L sz
  assume h: "heap_holds s L" "sz + 3 * PAGE_SIZE < two64"
  show "\<exists>p s' L'. kmalloc sz s = Some (p, s') \<and> heap_holds s' L' \<and> kheap.more s' = kheap.more s \<and>
      (if p = 0 then L' = L else \<exists>k \<ge> sz. 0 < k \<and> L' = insert (p, k) L \<and> (\<forall>m. (p, m) \<notin> L))"
    by (rule kmalloc_client [OF h], intro exI conjI, assumption+) auto
next
  fix s :: "'a kheap_scheme" and L p k
  assume h: "heap_holds s L" "(p, k) \<in> L" "0 < k"
  show "\<exists>s'. kfree p s = Some s' \<and> heap_holds s' (L - {(p, k)}) \<and> kheap.more s' = kheap.more s"
    by (rule kfree_holds [OF h], intro exI conjI)
next
  fix s :: "'a kheap_scheme" and L p k q m
  assume h: "heap_holds s L" "(p, k) \<in> L" "(q, m) \<in> L" "p \<noteq> q"
  from h(1) obtain as T where r: "heap_rep s as T" "L = allocations as T" unfolding heap_holds_def by (elim exE conjE)
  show "p + k \<le> q \<or> q + m \<le> p" by (rule allocations_apart [OF r(1)]) (use h(2-4) r(2) in simp_all)
qed

end
