(* ===== verification/Fs.thy ===== *)
theory Fs
  imports Heap "HOL-Library.Monad_Syntax" "HOL-Library.Sublist"
begin

text \<open>
  The file layer: the mount table and path lookup of \<^verbatim>\<open>src/src/kernel/fs.c\<close>, the in-memory file
  system of \<^verbatim>\<open>src/src/kernel/ramfs.c\<close> and the console file of \<^verbatim>\<open>src/src/kernel/console.c\<close>.
  Objects that the code allocates with \<open>kmalloc\<close> live in typed stores indexed by their address, file
  contents in a byte store; a null pointer is the address 0.  A table of function pointers is a
  constructor of \<open>vnode_ops\<close>, \<open>console_vnode\<close> is the address of the static vnode of that name, and a call through a null function pointer is the undefined value
  \<open>None\<close>, as is a walk that never ends.  A C string is the list of its characters before the
  terminating zero.
\<close>

section \<open>Data\<close>

abbreviation RAMFS_FILES_MAX :: nat where "RAMFS_FILES_MAX \<equiv> 32"
abbreviation RAMFS_PATH_MAX :: nat where "RAMFS_PATH_MAX \<equiv> 64"

text \<open>\<open>sizeof\<close> of the allocated structures on AArch64.\<close>

abbreviation sizeof_vnode :: nat where "sizeof_vnode \<equiv> 32"
abbreviation sizeof_vfs_mount :: nat where "sizeof_vfs_mount \<equiv> 40"
abbreviation sizeof_fs_type :: nat where "sizeof_fs_type \<equiv> 24"
abbreviation sizeof_file :: nat where "sizeof_file \<equiv> 32"

datatype vnode_ops = Ramfs_vnode_ops | Console_ops
datatype vfs_ops = Ramfs_vfs_ops

record vnode =
  vn_mnt :: nat
  vn_ops :: vnode_ops
  vn_data :: "nat option"
  vn_is_dir :: bool

record open_file =
  f_vn :: nat
  f_name :: string
  f_offset :: nat
  f_size :: nat

record vfs_mount =
  mnt_path :: string
  mnt_ops :: vfs_ops
  vnode_root :: nat
  mnt_next :: nat

record fs_type =
  fst_name :: string
  fst_ops :: vfs_ops
  fst_next :: nat

record ramfs_node =
  in_use :: bool
  owns_data :: bool
  nd_path :: string
  nd_data :: nat
  nd_size :: nat

record fsys = kheap +
  kbytes :: "nat \<Rightarrow> u8"
  vnode_st :: "nat \<Rightarrow> vnode"
  mount_st :: "nat \<Rightarrow> vfs_mount"
  fs_type_st :: "nat \<Rightarrow> fs_type"
  file_st :: "nat \<Rightarrow> open_file"
  fs_types :: nat
  mounts :: nat
  ramfs_nodes :: "nat \<Rightarrow> ramfs_node"
  console_vnode :: nat
  uart_out :: "u8 list"

definition upd_node :: "nat \<Rightarrow> (ramfs_node \<Rightarrow> ramfs_node) \<Rightarrow> 'a fsys_scheme \<Rightarrow> 'a fsys_scheme" where
  "upd_node i f s = s\<lparr>ramfs_nodes := (ramfs_nodes s)(i := f (ramfs_nodes s i))\<rparr>"

section \<open>Strings and byte copies\<close>

fun ramfs_path_equals :: "string \<Rightarrow> string \<Rightarrow> bool" where
  "ramfs_path_equals (x # lhs) (y # rhs) = (if x \<noteq> y then False else ramfs_path_equals lhs rhs)"
| "ramfs_path_equals lhs rhs = (lhs = [] \<and> rhs = [])"

text \<open>The comparison loop of \<open>vfs_mount\<close>.\<close>

fun fs_name_equals :: "string \<Rightarrow> string \<Rightarrow> bool" where
  "fs_name_equals (x # t1) (y # t2) = (if x = y then fs_name_equals t1 t2 else False)"
| "fs_name_equals t1 t2 = (t1 = [] \<and> t2 = [])"

text \<open>The matching loop of \<open>vfs_lookup\<close>: the length matched, and whether the mount path is used up.\<close>

fun match_mount :: "string \<Rightarrow> string \<Rightarrow> nat \<times> bool" where
  "match_mount (x # p1) (y # p2) = (if x = y then (let (n, e) = match_mount p1 p2 in (Suc n, e)) else (0, False))"
| "match_mount p1 p2 = (0, p2 = [])"

text \<open>The path copy loop, which stops at 63 characters.\<close>

definition copy_path :: "string \<Rightarrow> string" where
  "copy_path path = take (RAMFS_PATH_MAX - 1) path"

definition copy_kbytes :: "nat \<Rightarrow> nat \<Rightarrow> nat \<Rightarrow> (nat \<Rightarrow> u8) \<Rightarrow> nat \<Rightarrow> u8" where
  "copy_kbytes dst src n m = fold (\<lambda>i m. m(dst + i := m (src + i))) [0..<n] m"

section \<open>The in-memory file system\<close>

definition ramfs_find_node :: "'a fsys_scheme \<Rightarrow> string \<Rightarrow> nat option" where
  "ramfs_find_node s path =
     find_from (\<lambda>i. in_use (ramfs_nodes s i) \<and> ramfs_path_equals (nd_path (ramfs_nodes s i)) path) 0 RAMFS_FILES_MAX"

definition ramfs_open :: "nat \<Rightarrow> open_file \<Rightarrow> 'a fsys_scheme \<Rightarrow> open_file option" where
  "ramfs_open vn file s =
     (case vn_data (vnode_st s vn) of
        None \<Rightarrow> None
      | Some node \<Rightarrow> Some (file\<lparr>f_vn := vn, f_offset := 0, f_size := nd_size (ramfs_nodes s node)\<rparr>))"

text \<open>\<open>ramfs_read\<close>: the count, and the bytes that the loop stores through \<open>dst\<close>.\<close>

definition ramfs_read :: "nat \<Rightarrow> open_file \<Rightarrow> nat \<Rightarrow> 'a fsys_scheme \<Rightarrow> (nat \<times> u8 list \<times> open_file) option" where
  "ramfs_read vn file len s =
     (case vn_data (vnode_st s vn) of
        None \<Rightarrow> None
      | Some node \<Rightarrow>
          (let n = ramfs_nodes s node in
           if nd_size n \<le> f_offset file then Some (0, [], file)
           else
             (let remaining = nd_size n - f_offset file;
                  count = (if len < remaining then len else remaining)
              in Some (count, map (\<lambda>i. kbytes s (nd_data n + (f_offset file + i))) [0..<count],
                       file\<lparr>f_offset := f_offset file + count\<rparr>))))"

definition ramfs_vfs_mount :: "nat \<Rightarrow> 'a fsys_scheme \<Rightarrow> (bool \<times> 'a fsys_scheme) option" where
  "ramfs_vfs_mount mnt s = do {
     (root, s1) \<leftarrow> kmalloc sizeof_vnode s;
     if root = 0 then Some (False, s1)
     else Some (True,
       s1\<lparr>vnode_st := (vnode_st s1)(root := \<lparr>vn_mnt = mnt, vn_ops = Ramfs_vnode_ops, vn_data = None, vn_is_dir = True\<rparr>),
          mount_st := (mount_st s1)(mnt := (mount_st s1 mnt)\<lparr>vnode_root := root\<rparr>)\<rparr>)
   }"

definition ramfs_lookup :: "nat \<Rightarrow> string \<Rightarrow> 'a fsys_scheme \<Rightarrow> (nat \<times> 'a fsys_scheme) option" where
  "ramfs_lookup vn name s =
     (case ramfs_find_node s name of
        None \<Rightarrow> Some (0, s)
      | Some node \<Rightarrow> do {
          (new_vn, s1) \<leftarrow> kmalloc sizeof_vnode s;
          if new_vn = 0 then Some (0, s1)
          else Some (new_vn,
            s1\<lparr>vnode_st := (vnode_st s1)(new_vn := \<lparr>vn_mnt = vn_mnt (vnode_st s1 vn), vn_ops = vn_ops (vnode_st s1 vn),
                 vn_data = Some node, vn_is_dir = False\<rparr>)\<rparr>)
        })"

definition ramfs_add_builtin :: "string \<Rightarrow> nat \<Rightarrow> nat \<Rightarrow> 'a fsys_scheme \<Rightarrow> 'a fsys_scheme" where
  "ramfs_add_builtin path start stop s =
     (case find_from (\<lambda>i. \<not> in_use (ramfs_nodes s i)) 0 RAMFS_FILES_MAX of
        None \<Rightarrow> s
      | Some i \<Rightarrow> upd_node i (\<lambda>_. \<lparr>in_use = True, owns_data = False, nd_path = copy_path path, nd_data = start,
                                  nd_size = sub64 stop start\<rparr>) s)"

definition ramfs_register_file :: "string \<Rightarrow> nat \<Rightarrow> nat \<Rightarrow> 'a fsys_scheme \<Rightarrow> (bool \<times> 'a fsys_scheme) option" where
  "ramfs_register_file path data sz s =
     (case (case ramfs_find_node s path of
              Some i \<Rightarrow> Some i
            | None \<Rightarrow> find_from (\<lambda>i. \<not> in_use (ramfs_nodes s i)) 0 RAMFS_FILES_MAX) of
        None \<Rightarrow> Some (False, s)
      | Some node \<Rightarrow> do {
          (copy, s1) \<leftarrow> kmalloc sz s;
          if copy = 0 then Some (False, s1)
          else do {
            let s2 = s1\<lparr>kbytes := copy_kbytes copy data sz (kbytes s1)\<rparr>;
            s3 \<leftarrow> (if in_use (ramfs_nodes s2 node) \<and> owns_data (ramfs_nodes s2 node)
                    then kfree (nd_data (ramfs_nodes s2 node)) s2 else Some s2);
            Some (True, upd_node node (\<lambda>_. \<lparr>in_use = True, owns_data = True, nd_path = copy_path path,
                          nd_data = copy, nd_size = sz\<rparr>) s3)
          }
        })"

definition ramfs_unregister_file :: "string \<Rightarrow> 'a fsys_scheme \<Rightarrow> (bool \<times> 'a fsys_scheme) option" where
  "ramfs_unregister_file path s =
     (case ramfs_find_node s path of
        None \<Rightarrow> Some (False, s)
      | Some node \<Rightarrow> do {
          s1 \<leftarrow> (if owns_data (ramfs_nodes s node) then kfree (nd_data (ramfs_nodes s node)) s else Some s);
          Some (True, upd_node node (\<lambda>n. n\<lparr>in_use := False\<rparr>) s1)
        })"

definition ramfs_get_data_ptr :: "open_file \<Rightarrow> 'a fsys_scheme \<Rightarrow> nat" where
  "ramfs_get_data_ptr file s =
     (if f_vn file = 0 then 0
      else case vn_data (vnode_st s (f_vn file)) of
        None \<Rightarrow> 0
      | Some node \<Rightarrow> if vn_ops (vnode_st s (f_vn file)) \<noteq> Ramfs_vnode_ops then 0 else nd_data (ramfs_nodes s node))"

section \<open>The console as a file\<close>

definition console_putc_unlocked :: "u8 \<Rightarrow> 'a fsys_scheme \<Rightarrow> 'a fsys_scheme" where
  "console_putc_unlocked ch s =
     (if ch = 10 then s\<lparr>uart_out := uart_out s @ [13, 10]\<rparr> else s\<lparr>uart_out := uart_out s @ [ch]\<rparr>)"

definition console_vnode_open :: "open_file \<Rightarrow> open_file" where
  "console_vnode_open file = file\<lparr>f_offset := 0, f_size := 0\<rparr>"

definition console_vnode_write :: "u8 list \<Rightarrow> 'a fsys_scheme \<Rightarrow> nat \<times> 'a fsys_scheme" where
  "console_vnode_write buf s = (length buf, fold console_putc_unlocked buf s)"

definition console_open_file :: "'a fsys_scheme \<Rightarrow> (nat \<times> 'a fsys_scheme) option" where
  "console_open_file s = do {
     (f, s1) \<leftarrow> kmalloc sizeof_file s;
     if f = 0 then Some (0, s1)
     else Some (f, s1\<lparr>file_st := (file_st s1)(f := \<lparr>f_vn = console_vnode s1, f_name = ''console'', f_offset = 0, f_size = 0\<rparr>)\<rparr>)
   }"

section \<open>Mounting and path lookup\<close>

definition vfs_init :: "'a fsys_scheme \<Rightarrow> 'a fsys_scheme" where
  "vfs_init s = s\<lparr>fs_types := 0, mounts := 0\<rparr>"

definition vfs_register_fs :: "string \<Rightarrow> vfs_ops \<Rightarrow> 'a fsys_scheme \<Rightarrow> (bool \<times> 'a fsys_scheme) option" where
  "vfs_register_fs name ops s = do {
     (type, s1) \<leftarrow> kmalloc sizeof_fs_type s;
     if type = 0 then Some (False, s1)
     else Some (True,
       s1\<lparr>fs_type_st := (fs_type_st s1)(type := \<lparr>fst_name = name, fst_ops = ops, fst_next = fs_types s1\<rparr>), fs_types := type\<rparr>)
   }"

partial_function (option) find_fs_type :: "'a fsys_scheme \<Rightarrow> string \<Rightarrow> nat \<Rightarrow> nat option" where
  "find_fs_type s fs_name type =
     (if type = 0 then Some 0
      else if fs_name_equals (fst_name (fs_type_st s type)) fs_name then Some type
      else find_fs_type s fs_name (fst_next (fs_type_st s type)))"

definition vfs_mount_fs :: "string \<Rightarrow> string \<Rightarrow> 'a fsys_scheme \<Rightarrow> (bool \<times> 'a fsys_scheme) option" where
  "vfs_mount_fs path fs_name s = do {
     type \<leftarrow> find_fs_type s fs_name (fs_types s);
     if type = 0 then Some (False, s)
     else do {
       (mnt, s1) \<leftarrow> kmalloc sizeof_vfs_mount s;
       if mnt = 0 then Some (False, s1)
       else do {
         let s2 = s1\<lparr>mount_st := (mount_st s1)(mnt := (mount_st s1 mnt)\<lparr>mnt_path := path,
                        mnt_ops := fst_ops (fs_type_st s1 type), mnt_next := mounts s1\<rparr>)\<rparr>;
         (ok, s3) \<leftarrow> (case mnt_ops (mount_st s2 mnt) of Ramfs_vfs_ops \<Rightarrow> ramfs_vfs_mount mnt s2);
         if \<not> ok then do { s4 \<leftarrow> kfree mnt s3; Some (False, s4) }
         else Some (True, s3\<lparr>mounts := mnt\<rparr>)
       }
     }
   }"

text \<open>The loop of \<open>vfs_lookup\<close> over the mounts, with the best mount so far and its length.\<close>

partial_function (option) best_mount :: "'a fsys_scheme \<Rightarrow> string \<Rightarrow> nat \<Rightarrow> nat \<Rightarrow> nat \<Rightarrow> nat option" where
  "best_mount s path mnt best max_len =
     (if mnt = 0 then Some best
      else if snd (match_mount path (mnt_path (mount_st s mnt))) \<and>
              (max_len < fst (match_mount path (mnt_path (mount_st s mnt))) \<or> best = 0)
      then best_mount s path (mnt_next (mount_st s mnt)) mnt (fst (match_mount path (mnt_path (mount_st s mnt))))
      else best_mount s path (mnt_next (mount_st s mnt)) best max_len)"

definition vfs_lookup :: "string \<Rightarrow> 'a fsys_scheme \<Rightarrow> (nat \<times> 'a fsys_scheme) option" where
  "vfs_lookup path s =
     (if path = [] \<or> hd path \<noteq> CHR ''/'' then Some (0, s)
      else do {
        best_mnt \<leftarrow> best_mount s path (mounts s) 0 0;
        if best_mnt = 0 then Some (0, s)
        else (let root = vnode_root (mount_st s best_mnt) in
              case vn_ops (vnode_st s root) of
                Ramfs_vnode_ops \<Rightarrow> ramfs_lookup root path s
              | Console_ops \<Rightarrow> None)
      })"

section \<open>File operations\<close>

text \<open>\<open>fs_open\<close> through a caller's \<open>struct file\<close>; the result is that file when it is opened.\<close>

definition fs_open :: "string \<Rightarrow> open_file \<Rightarrow> 'a fsys_scheme \<Rightarrow> (open_file option \<times> 'a fsys_scheme) option" where
  "fs_open path file s = do {
     (vn, s1) \<leftarrow> vfs_lookup path s;
     if vn = 0 then Some (None, s1)
     else (case vn_ops (vnode_st s1 vn) of
             Ramfs_vnode_ops \<Rightarrow> do { f \<leftarrow> ramfs_open vn (file\<lparr>f_name := path\<rparr>) s1; Some (Some f, s1) }
           | Console_ops \<Rightarrow> Some (Some (console_vnode_open (file\<lparr>f_name := path\<rparr>)), s1))
   }"

definition fs_read :: "open_file \<Rightarrow> nat \<Rightarrow> 'a fsys_scheme \<Rightarrow> (nat \<times> u8 list \<times> open_file) option" where
  "fs_read file len s =
     (if f_vn file = 0 then Some (0, [], file)
      else case vn_ops (vnode_st s (f_vn file)) of
        Ramfs_vnode_ops \<Rightarrow> ramfs_read (f_vn file) file len s
      | Console_ops \<Rightarrow> Some (0, [], file))"

definition fs_write :: "open_file \<Rightarrow> u8 list \<Rightarrow> 'a fsys_scheme \<Rightarrow> nat \<times> 'a fsys_scheme" where
  "fs_write file src s =
     (if f_vn file = 0 then (0, s)
      else case vn_ops (vnode_st s (f_vn file)) of
        Ramfs_vnode_ops \<Rightarrow> (0, s)
      | Console_ops \<Rightarrow> console_vnode_write src s)"

definition fs_close :: "open_file \<Rightarrow> 'a fsys_scheme \<Rightarrow> (open_file \<times> 'a fsys_scheme) option" where
  "fs_close file s =
     (if f_vn file = 0 then Some (file, s)
      else case vn_ops (vnode_st s (f_vn file)) of
        Ramfs_vnode_ops \<Rightarrow> do { s1 \<leftarrow> kfree (f_vn file) s; Some (file\<lparr>f_vn := 0\<rparr>, s1) }
      | Console_ops \<Rightarrow> None)"

definition fs_register_file :: "string \<Rightarrow> nat \<Rightarrow> nat \<Rightarrow> 'a fsys_scheme \<Rightarrow> (bool \<times> 'a fsys_scheme) option" where
  "fs_register_file path data sz s = ramfs_register_file path data sz s"

definition fs_unregister_file :: "string \<Rightarrow> 'a fsys_scheme \<Rightarrow> (bool \<times> 'a fsys_scheme) option" where
  "fs_unregister_file path s = ramfs_unregister_file path s"

text \<open>The built-in files come from a linker section: their list is an argument.\<close>

definition ramfs_init :: "(string \<times> nat \<times> nat) list \<Rightarrow> 'a fsys_scheme \<Rightarrow> 'a fsys_scheme option" where
  "ramfs_init builtins s = do {
     let s1 = fold (\<lambda>i. upd_node i (\<lambda>n. n\<lparr>in_use := False\<rparr>)) [0..<RAMFS_FILES_MAX] s;
     let s2 = fold (\<lambda>(path, start, stop). ramfs_add_builtin path start stop) builtins s1;
     (_, s3) \<leftarrow> vfs_register_fs ''ramfs'' Ramfs_vfs_ops s2;
     Some s3
   }"

definition fs_init :: "(string \<times> nat \<times> nat) list \<Rightarrow> 'a fsys_scheme \<Rightarrow> 'a fsys_scheme option" where
  "fs_init builtins s = do {
     s1 \<leftarrow> ramfs_init builtins (vfs_init s);
     (_, s2) \<leftarrow> vfs_mount_fs ''/'' ''ramfs'' s1;
     Some s2
   }"

section \<open>Invariant\<close>

text \<open>The mount table is a chain of mounts, each with the root vnode of an in-memory file system; what the layer owns
  (mounts, roots and the contents of registered files) are distinct live heap blocks.\<close>

definition mount_chain :: "'a fsys_scheme \<Rightarrow> nat \<Rightarrow> nat list \<Rightarrow> bool" where
  "mount_chain s p ms \<longleftrightarrow> chain (\<lambda>m. nz (mnt_next (mount_st s m))) (nz p) ms"

definition mount_blocks :: "'a fsys_scheme \<Rightarrow> nat list \<Rightarrow> nat set" where
  "mount_blocks s ms = set ms \<union> (\<lambda>m. vnode_root (mount_st s m)) ` set ms"

definition owning :: "'a fsys_scheme \<Rightarrow> nat set" where
  "owning s = {i. i < RAMFS_FILES_MAX \<and> in_use (ramfs_nodes s i) \<and> owns_data (ramfs_nodes s i)}"

definition file_block :: "'a fsys_scheme \<Rightarrow> nat \<Rightarrow> nat" where
  "file_block s i = nd_data (ramfs_nodes s i)"

definition fs_inv :: "'a fsys_scheme \<Rightarrow> (nat \<times> nat) set \<Rightarrow> nat list \<Rightarrow> bool" where
  "fs_inv s L ms \<longleftrightarrow> heap_holds s L \<and> held L (mount_blocks s ms \<union> file_block s ` owning s) \<and> mount_chain s (mounts s) ms \<and>
     (\<forall>m \<in> set ms. vn_ops (vnode_st s (vnode_root (mount_st s m))) = Ramfs_vnode_ops) \<and>
     inj_on (file_block s) (owning s) \<and> file_block s ` owning s \<inter> mount_blocks s ms = {}"

text \<open>A cold heap below a file layer of zeros.\<close>

definition fs_cold :: fsys where
  "fs_cold = heap_cold_of (fsys.fields (\<lambda>x. of_nat x) (\<lambda>_. \<lparr>vn_mnt = 0, vn_ops = Ramfs_vnode_ops, vn_data = None, vn_is_dir = False\<rparr>)
     (\<lambda>_. \<lparr>mnt_path = [], mnt_ops = Ramfs_vfs_ops, vnode_root = 0, mnt_next = 0\<rparr>)
     (\<lambda>_. \<lparr>fst_name = [], fst_ops = Ramfs_vfs_ops, fst_next = 0\<rparr>) (\<lambda>_. \<lparr>f_vn = 0, f_name = [], f_offset = 0, f_size = 0\<rparr>) 0 0
     (\<lambda>_. \<lparr>in_use = False, owns_data = False, nd_path = [], nd_data = 0, nd_size = 0\<rparr>) 1 [])"

section \<open>String comparison\<close>

lemma path_equals [simp]: "ramfs_path_equals p q \<longleftrightarrow> p = q"
  by (induction p q rule: ramfs_path_equals.induct) auto

lemma name_equals [simp]: "fs_name_equals p q \<longleftrightarrow> p = q"
  by (induction p q rule: fs_name_equals.induct) auto

lemma match_mount_prefix: "match_mount p q = (length (longest_common_prefix p q), prefix q p)"
  by (induction p q rule: match_mount.induct) auto

lemma common_prefix_of_prefix: "prefix q p \<Longrightarrow> longest_common_prefix p q = q"
proof (induction p q rule: longest_common_prefix.induct)
qed auto

section \<open>Lookup\<close>

lemma best_mount_spec:
  "mount_chain s p ms \<Longrightarrow> b = 0 \<or> prefix (mnt_path (mount_st s b)) path \<and> l = length (mnt_path (mount_st s b)) \<Longrightarrow>
   \<exists>r. best_mount s path p b l = Some r \<and>
     (if r = 0 then b = 0 \<and> (\<forall>m \<in> set ms. \<not> prefix (mnt_path (mount_st s m)) path)
      else r \<in> set (b # ms) \<and> prefix (mnt_path (mount_st s r)) path \<and> (\<forall>m \<in> set ms \<union> ({b} - {0}). prefix (mnt_path (mount_st s m)) path \<longrightarrow>
            length (mnt_path (mount_st s m)) \<le> length (mnt_path (mount_st s r))))"
proof (induction ms arbitrary: p b l)
  case Nil
  then have "p = 0" by (simp add: mount_chain_def nz_def split: if_splits)
  then show ?case using Nil.prems(2) by (subst best_mount.simps) auto
next
  case (Cons m ms)
  then have p: "p = m" "m \<noteq> 0" and ch: "mount_chain s (mnt_next (mount_st s m)) ms"
    by (auto simp: mount_chain_def nz_def split: if_splits)
  let ?P = "\<lambda>m. mnt_path (mount_st s m)"
  note IH = Cons.IH [OF ch]
  show ?case
  proof (cases "prefix (?P m) path \<and> (l < length (?P m) \<or> b = 0)")
    case True
    then have e: "best_mount s path p b l = best_mount s path (mnt_next (mount_st s m)) m (length (?P m))"
      using p by (subst best_mount.simps) (simp add: match_mount_prefix common_prefix_of_prefix)
    have le: "b = 0 \<or> prefix (?P b) path \<and> l = length (?P b) \<and> length (?P b) \<le> length (?P m)" using Cons.prems(2) True by auto
    from IH [of m "length (?P m)"] True p(2) obtain r where r: "best_mount s path (mnt_next (mount_st s m)) m (length (?P m)) = Some r"
      "r \<noteq> 0" "r \<in> set (m # ms)" "prefix (?P r) path"
      "\<And>x. x \<in> set ms \<or> x = m \<Longrightarrow> prefix (?P x) path \<Longrightarrow> length (?P x) \<le> length (?P r)"
      by (auto split: if_splits)
    have "length (?P m) \<le> length (?P r)" using r(5) True by blast
    then show ?thesis using r le unfolding e by auto
  next
    case False
    then have e: "best_mount s path p b l = best_mount s path (mnt_next (mount_st s m)) b l"
      using p by (subst best_mount.simps) (auto simp: match_mount_prefix common_prefix_of_prefix)
    have m: "b \<noteq> 0 \<and> prefix (?P b) path \<and> length (?P m) \<le> length (?P b)" if "prefix (?P m) path"
      using False Cons.prems(2) that by auto
    from IH [OF Cons.prems(2)] obtain r where r: "best_mount s path (mnt_next (mount_st s m)) b l = Some r"
      "if r = 0 then b = 0 \<and> (\<forall>m \<in> set ms. \<not> prefix (?P m) path)
       else r \<in> set (b # ms) \<and> prefix (?P r) path \<and> (\<forall>m \<in> set ms \<union> ({b} - {0}). prefix (?P m) path \<longrightarrow>
            length (?P m) \<le> length (?P r))" by (elim exE conjE)
    show ?thesis
    proof (cases "r = 0")
      case True
      with r m show ?thesis unfolding e by auto
    next
      case rz: False
      have "length (?P m) \<le> length (?P r)" if pm: "prefix (?P m) path"
      proof -
        have "length (?P b) \<le> length (?P r)" using r(2) rz m [OF pm] by simp
        with m [OF pm] show ?thesis by linarith
      qed
      with r rz show ?thesis unfolding e by auto
    qed
  qed
qed

lemma vfs_lookup_mount:
  assumes ch: "mount_chain s (mounts s) ms" and ops: "\<And>m. m \<in> set ms \<Longrightarrow> vn_ops (vnode_st s (vnode_root (mount_st s m))) = Ramfs_vnode_ops"
    and path: "path \<noteq> []" "hd path = CHR ''/''"
  obtains (unmounted) "\<forall>m \<in> set ms. \<not> prefix (mnt_path (mount_st s m)) path" "vfs_lookup path s = Some (0, s)"
  | (mounted) r where "r \<in> set ms" "prefix (mnt_path (mount_st s r)) path"
    "\<forall>m \<in> set ms. prefix (mnt_path (mount_st s m)) path \<longrightarrow> length (mnt_path (mount_st s m)) \<le> length (mnt_path (mount_st s r))"
    "vfs_lookup path s = ramfs_lookup (vnode_root (mount_st s r)) path s"
proof -
  from best_mount_spec [OF ch, of 0 path 0] obtain r where r: "best_mount s path (mounts s) 0 0 = Some r"
    "if r = 0 then \<forall>m \<in> set ms. \<not> prefix (mnt_path (mount_st s m)) path
     else r \<in> set ms \<and> prefix (mnt_path (mount_st s r)) path \<and> (\<forall>m \<in> set ms. prefix (mnt_path (mount_st s m)) path \<longrightarrow>
            length (mnt_path (mount_st s m)) \<le> length (mnt_path (mount_st s r)))" by (auto split: if_splits)
  show thesis
  proof (cases "r = 0")
    case True
    with r path show thesis by (intro that(1)) (simp_all add: vfs_lookup_def)
  next
    case False
    with r path ops [of r] show thesis by (intro that(2) [of r]) (simp_all add: vfs_lookup_def)
  qed
qed

section \<open>What the operations keep\<close>

lemma fsys_more:
  assumes "kheap.more s' = kheap.more s"
  shows "kbytes s' = kbytes s" "vnode_st s' = vnode_st s" "mount_st s' = mount_st s" "fs_type_st s' = fs_type_st s"
    "file_st s' = file_st s" "fs_types s' = fs_types s" "mounts s' = mounts s" "ramfs_nodes s' = ramfs_nodes s"
    "console_vnode s' = console_vnode s" "uart_out s' = uart_out s"
  using assms by (cases s, cases s', simp)+

lemma upd_node_simps [simp]:
  "kbytes (upd_node i f s) = kbytes s" "vnode_st (upd_node i f s) = vnode_st s" "mount_st (upd_node i f s) = mount_st s"
  "mounts (upd_node i f s) = mounts s" "ramfs_nodes (upd_node i f s) = (ramfs_nodes s)(i := f (ramfs_nodes s i))"
  by (simp_all add: upd_node_def)

lemma heap_rep_fields [simp]:
  "heap_rep (s\<lparr>kbytes := k\<rparr>) = heap_rep s" "heap_rep (s\<lparr>vnode_st := v\<rparr>) = heap_rep s"
  "heap_rep (upd_node i f s) = heap_rep s" "heap_rep (s\<lparr>mount_st := mm\<rparr>) = heap_rep s"
  "heap_rep (s\<lparr>mounts := p\<rparr>) = heap_rep s" "heap_rep (s\<lparr>fs_type_st := ft\<rparr>) = heap_rep s"
  "heap_rep (s\<lparr>fs_types := p\<rparr>) = heap_rep s"
  by (intro ext iffI; rule heap_rep_cong, assumption, simp add: kheap.defs upd_node_def)+

lemma heap_holds_fields [simp]:
  "heap_holds (s\<lparr>kbytes := k\<rparr>) = heap_holds s" "heap_holds (s\<lparr>vnode_st := v\<rparr>) = heap_holds s"
  "heap_holds (upd_node i f s) = heap_holds s" "heap_holds (s\<lparr>mount_st := mm\<rparr>) = heap_holds s"
  "heap_holds (s\<lparr>mounts := p\<rparr>) = heap_holds s" "heap_holds (s\<lparr>fs_type_st := ft\<rparr>) = heap_holds s"
  "heap_holds (s\<lparr>fs_types := p\<rparr>) = heap_holds s"
  by (intro ext, simp add: heap_holds_def)+

lemma fs_invD:
  assumes "fs_inv s L ms"
  shows "heap_holds s L" "held L (mount_blocks s ms \<union> file_block s ` owning s)" "mount_chain s (mounts s) ms"
    "\<And>m. m \<in> set ms \<Longrightarrow> vn_ops (vnode_st s (vnode_root (mount_st s m))) = Ramfs_vnode_ops"
    "inj_on (file_block s) (owning s)" "file_block s ` owning s \<inter> mount_blocks s ms = {}"
  using assms unfolding fs_inv_def by blast+

text \<open>Any change of the files and vnodes that keeps the mounts and their roots.\<close>

lemma fs_invI:
  assumes inv: "fs_inv s L ms" and heap: "heap_holds s' L'" "held L' (mount_blocks s ms \<union> file_block s' ` owning s')"
    and same: "mount_st s' = mount_st s" "mounts s' = mounts s"
      "\<And>m. m \<in> set ms \<Longrightarrow> vnode_st s' (vnode_root (mount_st s m)) = vnode_st s (vnode_root (mount_st s m))"
    and files: "inj_on (file_block s') (owning s')" "file_block s' ` owning s' \<inter> mount_blocks s ms = {}"
  shows "fs_inv s' L' ms"
  using fs_invD [OF inv] heap files same by (simp add: fs_inv_def mount_chain_def mount_blocks_def)

lemma copy_kbytes_apart:
  assumes "dst + n \<le> src \<or> src + n \<le> dst"
  shows "copy_kbytes dst src n m x = (if dst \<le> x \<and> x < dst + n then m (src + (x - dst)) else m x)"
proof -
  have "fold (\<lambda>i m. m(dst + i := m (src + i))) [0..<k] m x = (if dst \<le> x \<and> x < dst + k then m (src + (x - dst)) else m x)"
    if "k \<le> n" for k x
    using that assms by (induction k arbitrary: x) auto
  then show ?thesis by (simp add: copy_kbytes_def)
qed

text \<open>The node that registering a path uses: the node with that path, else the first free one.\<close>

lemma register_node:
  assumes "(case ramfs_find_node s path of Some i \<Rightarrow> Some i
            | None \<Rightarrow> find_from (\<lambda>i. \<not> in_use (ramfs_nodes s i)) 0 RAMFS_FILES_MAX) = Some i"
    and "ramfs_nodes s' = (ramfs_nodes s)(i := nd)" "in_use nd" "nd_path nd = copy_path path"
  shows "i < RAMFS_FILES_MAX" "length path < RAMFS_PATH_MAX \<Longrightarrow> ramfs_find_node s' path = Some i"
proof -
  show i: "i < RAMFS_FILES_MAX"
    using assms(1) find_from_Some [of _ 0 RAMFS_FILES_MAX i] by (auto simp: ramfs_find_node_def split: option.splits)
  have "\<not> (in_use (ramfs_nodes s k) \<and> nd_path (ramfs_nodes s k) = path)" if "k < i" for k
  proof (cases "ramfs_find_node s path")
    case None
    with i that show ?thesis by (simp add: ramfs_find_node_def find_from_None)
  next
    case (Some j)
    with assms(1) that show ?thesis using find_from_Some [of _ 0 RAMFS_FILES_MAX j] by (auto simp: ramfs_find_node_def)
  qed
  moreover assume "length path < RAMFS_PATH_MAX"
  then have "copy_path path = path" by (simp add: copy_path_def)
  ultimately show "ramfs_find_node s' path = Some i"
    unfolding ramfs_find_node_def using assms(2-4) i by (intro find_from_eqI) auto
qed

lemma register_effect:
  assumes inv: "fs_inv s L ms" and room: "sz + 3 * PAGE_SIZE < two64"
  obtains (slots) "ramfs_register_file path data sz s = Some (False, s)" "ramfs_find_node s path = None"
      "\<And>i. i < RAMFS_FILES_MAX \<Longrightarrow> in_use (ramfs_nodes s i)"
  | (memory) s1 L' where "kmalloc sz s = Some (0, s1)" "ramfs_register_file path data sz s = Some (False, s1)" "fs_inv s1 L' ms"
  | (ok) s' L' i p where "ramfs_register_file path data sz s = Some (True, s')" "fs_inv s' L' ms"
      "length path < RAMFS_PATH_MAX \<longrightarrow> ramfs_find_node s' path = Some i"
      "ramfs_nodes s' = (ramfs_nodes s)(i := \<lparr>in_use = True, owns_data = True, nd_path = copy_path path, nd_data = p, nd_size = sz\<rparr>)"
      "kbytes s' = copy_kbytes p data sz (kbytes s)" "\<And>q m. (q, m) \<in> L \<Longrightarrow> p + sz \<le> q \<or> q + m \<le> p"
      "mount_st s' = mount_st s" "mounts s' = mounts s" "vnode_st s' = vnode_st s"
proof -
  let ?slot = "case ramfs_find_node s path of Some i \<Rightarrow> Some i
            | None \<Rightarrow> find_from (\<lambda>i. \<not> in_use (ramfs_nodes s i)) 0 RAMFS_FILES_MAX"
  let ?A = "mount_blocks s ms \<union> file_block s ` owning s"
  note I = fs_invD [OF inv]
  obtain p s1 L1 where a: "kmalloc sz s = Some (p, s1)" "heap_holds s1 L1" "kheap.more s1 = kheap.more s" "held L1 ?A" "L \<subseteq> L1"
    "p \<noteq> 0 \<longrightarrow> p \<notin> ?A \<and> held L1 (insert p ?A) \<and> (\<forall>(q, m) \<in> L. p + sz \<le> q \<or> q + m \<le> p)"
    by (rule kh.alloc_held [OF I(1,2) room])
  note m1 = fsys_more [OF a(3)]
  have sets1: "owning s1 = owning s" "file_block s1 = file_block s" by (simp_all add: owning_def file_block_def fun_eq_iff m1)
  show thesis
  proof (cases ?slot)
    case None
    then have "ramfs_find_node s path = None" "\<And>i. i < RAMFS_FILES_MAX \<Longrightarrow> in_use (ramfs_nodes s i)"
      by (auto simp: find_from_None split: option.splits)
    moreover have "ramfs_register_file path data sz s = Some (False, s)" using None by (simp add: ramfs_register_file_def)
    ultimately show thesis by (intro slots)
  next
    case (Some i)
    show thesis
    proof (cases "p = 0")
      case True
      have "fs_inv s1 L1 ms" by (rule fs_invI [OF inv a(2)]) (use I a(4) in \<open>simp_all add: sets1 m1\<close>)
      moreover have "ramfs_register_file path data sz s = Some (False, s1)" using Some a(1) True by (simp add: ramfs_register_file_def)
      ultimately show thesis using a(1) True by (intro memory) simp_all
    next
      case False
      with a(6) have p: "p \<notin> ?A" "held L1 (insert p ?A)" "\<And>q m. (q, m) \<in> L \<Longrightarrow> p + sz \<le> q \<or> q + m \<le> p" by auto
      define s2 where "s2 = s1\<lparr>kbytes := copy_kbytes p data sz (kbytes s1)\<rparr>"
      have h2: "heap_holds s2 L1" using a(2) by (simp add: s2_def)
      let ?B = "insert p (mount_blocks s ms \<union> file_block s ` (owning s - {i}))"
      have "\<exists>s3 L3. (if i \<in> owning s then kfree (file_block s i) s2 else Some s2) = Some s3 \<and> heap_holds s3 L3 \<and>
          kheap.more s3 = kheap.more s2 \<and> held L3 ?B"
      proof (cases "i \<in> owning s")
        case True
        have "held L1 (insert (file_block s i) ?B)" using p(2) True by (auto simp: held_def)
        moreover have "file_block s i \<notin> ?B" using True p(1) I(5,6) by (auto dest: inj_onD)
        ultimately obtain s3 L3 where "kfree (file_block s i) s2 = Some s3" "heap_holds s3 L3" "kheap.more s3 = kheap.more s2" "held L3 ?B"
          by (rule kh.dealloc_held [OF h2])
        with True show ?thesis by (intro exI [of _ s3] exI [of _ L3] conjI) simp_all
      next
        case False
        then have "held L1 ?B" using p(2) by (auto simp: held_def)
        with False h2 show ?thesis by (intro exI [of _ s2] exI [of _ L1] conjI) simp_all
      qed
      then obtain s3 L3 where s3: "(if i \<in> owning s then kfree (file_block s i) s2 else Some s2) = Some s3" "heap_holds s3 L3"
          "kheap.more s3 = kheap.more s2" "held L3 ?B" by (elim exE conjE)
      note m3 = fsys_more [OF s3(3)]
      define nd where "nd = \<lparr>in_use = True, owns_data = True, nd_path = copy_path path, nd_data = p, nd_size = sz\<rparr>"
      define s4 where "s4 = upd_node i (\<lambda>_. nd) s3"
      have n4: "ramfs_nodes s4 = (ramfs_nodes s)(i := nd)" by (simp add: s4_def m3 s2_def m1)
      note node = register_node [OF Some n4]
      have i: "i < RAMFS_FILES_MAX" "length path < RAMFS_PATH_MAX \<longrightarrow> ramfs_find_node s4 path = Some i"
        using node by (simp_all add: nd_def)
      have o4: "owning s4 = insert i (owning s)" "file_block s4 = (file_block s)(i := p)"
        using i(1) by (auto simp: owning_def file_block_def n4 nd_def fun_eq_iff)
      have img: "insert p (file_block s ` (owning s - {i})) = file_block s4 ` owning s4" by (auto simp: o4)
      have n2: "ramfs_nodes s2 = ramfs_nodes s" by (simp add: s2_def m1)
      have f: "(if in_use (ramfs_nodes s i) \<and> owns_data (ramfs_nodes s i) then kfree (nd_data (ramfs_nodes s i)) s2 else Some s2) = Some s3"
        using s3(1) [unfolded file_block_def] i(1) by (simp add: owning_def)
      have r: "ramfs_register_file path data sz s = Some (True, s4)"
        unfolding ramfs_register_file_def using False f
        by (cases "in_use (ramfs_nodes s i) \<and> owns_data (ramfs_nodes s i)") (auto simp: Some a(1) s2_def [symmetric] n2 m1(8) s4_def nd_def)
      have inv4: "fs_inv s4 L3 ms"
      proof (rule fs_invI [OF inv])
        show "heap_holds s4 L3" using s3(2) by (simp add: s4_def)
        show "held L3 (mount_blocks s ms \<union> file_block s4 ` owning s4)" using s3(4) unfolding img [symmetric] by (simp add: held_def)
        show "inj_on (file_block s4) (owning s4)" using I(5) p(1) by (auto simp: o4 inj_on_def)
        show "file_block s4 ` owning s4 \<inter> mount_blocks s ms = {}" unfolding img [symmetric] using p(1) I(6) by auto
      qed (simp_all add: s4_def m3 s2_def m1)
      show thesis
        by (rule ok [OF r inv4 i(2) _ _ p(3)]) (simp_all add: n4 nd_def s4_def m3 s2_def m1)
    qed
  qed
qed

lemma unregister_effect:
  assumes inv: "fs_inv s L ms"
  obtains s' L' where "ramfs_unregister_file path s = Some (ramfs_find_node s path \<noteq> None, s')" "fs_inv s' L' ms"
    "\<And>i. ramfs_find_node s path = Some i \<Longrightarrow> ramfs_nodes s' = (ramfs_nodes s)(i := (ramfs_nodes s i)\<lparr>in_use := False\<rparr>)"
proof (cases "ramfs_find_node s path")
  case None
  then show thesis by (intro that [of s L]) (use inv in \<open>simp_all add: ramfs_unregister_file_def\<close>)
next
  case (Some i)
  then have i: "i < RAMFS_FILES_MAX" "in_use (ramfs_nodes s i)"
    using find_from_Some [of _ 0 RAMFS_FILES_MAX i] by (auto simp: ramfs_find_node_def)
  note I = fs_invD [OF inv]
  let ?B = "mount_blocks s ms \<union> file_block s ` (owning s - {i})"
  have "\<exists>s1 L1. (if i \<in> owning s then kfree (file_block s i) s else Some s) = Some s1 \<and> heap_holds s1 L1 \<and>
      kheap.more s1 = kheap.more s \<and> held L1 ?B"
  proof (cases "i \<in> owning s")
    case True
    have "held L (insert (file_block s i) ?B)" using I(2) True by (auto simp: held_def)
    moreover have "file_block s i \<notin> ?B" using True I(5,6) by (auto dest: inj_onD)
    ultimately obtain s1 L1 where "kfree (file_block s i) s = Some s1" "heap_holds s1 L1" "kheap.more s1 = kheap.more s" "held L1 ?B"
      by (rule kh.dealloc_held [OF I(1)])
    with True show ?thesis by (intro exI [of _ s1] exI [of _ L1] conjI) simp_all
  next
    case False
    then have "held L ?B" using I(2) by (auto simp: held_def)
    with False I(1) show ?thesis by (intro exI [of _ s] exI [of _ L] conjI) simp_all
  qed
  then obtain s1 L1 where s1: "(if i \<in> owning s then kfree (file_block s i) s else Some s) = Some s1" "heap_holds s1 L1"
      "kheap.more s1 = kheap.more s" "held L1 ?B" by (elim exE conjE)
  note m1 = fsys_more [OF s1(3)]
  define s2 where "s2 = upd_node i (\<lambda>n. n\<lparr>in_use := False\<rparr>) s1"
  have n2: "ramfs_nodes s2 = (ramfs_nodes s)(i := (ramfs_nodes s i)\<lparr>in_use := False\<rparr>)" by (simp add: s2_def m1)
  have o2: "owning s2 = owning s - {i}" by (auto simp: owning_def n2)
  have f2: "file_block s2 = file_block s" by (auto simp: file_block_def n2 fun_eq_iff)
  have "fs_inv s2 L1 ms"
    by (rule fs_invI [OF inv]) (use s1(2,4) I(5,6) in \<open>auto simp: s2_def m1 o2 [unfolded s2_def] f2 [unfolded s2_def] inj_on_def\<close>)
  moreover have "ramfs_unregister_file path s = Some (True, s2)"
    unfolding ramfs_unregister_file_def using s1(1) [unfolded file_block_def] i Some
    by (cases "owns_data (ramfs_nodes s i)") (auto simp: owning_def s2_def)
  ultimately show thesis using n2 Some by (intro that) simp_all
qed

lemma open_effect:
  assumes inv: "fs_inv s L ms"
  obtains (missing) "fs_open path fl s = Some (None, s)"
      "path = [] \<or> hd path \<noteq> CHR ''/'' \<or> (\<forall>m \<in> set ms. \<not> prefix (mnt_path (mount_st s m)) path) \<or> ramfs_find_node s path = None"
  | (memory) s1 L' where "kmalloc sizeof_vnode s = Some (0, s1)" "fs_open path fl s = Some (None, s1)" "fs_inv s1 L' ms"
      "ramfs_find_node s path \<noteq> None"
  | (ok) s' L' i vn where
      "fs_open path fl s = Some (Some (fl\<lparr>f_name := path, f_vn := vn, f_offset := 0, f_size := nd_size (ramfs_nodes s i)\<rparr>), s')"
      "fs_inv s' L' ms" "ramfs_find_node s path = Some i" "vn \<noteq> 0" "vn_ops (vnode_st s' vn) = Ramfs_vnode_ops"
      "vn_data (vnode_st s' vn) = Some i" "kbytes s' = kbytes s" "ramfs_nodes s' = ramfs_nodes s"
      "held L' {vn}" "vn \<notin> mount_blocks s' ms \<union> file_block s' ` owning s'"
proof (cases "path = [] \<or> hd path \<noteq> CHR ''/''")
  case True
  then have "fs_open path fl s = Some (None, s)" by (auto simp: fs_open_def vfs_lookup_def)
  with True show thesis by (intro missing) auto
next
  case False
  note I = fs_invD [OF inv]
  have path: "path \<noteq> []" "hd path = CHR ''/''" using False by simp_all
  show thesis
  proof (rule vfs_lookup_mount [OF I(3,4) path], goal_cases)
    case 2
    then show thesis by (intro missing) (auto simp: fs_open_def)
  next
    case 2: (3 r)
    let ?A = "mount_blocks s ms \<union> file_block s ` owning s"
    show thesis
    proof (cases "ramfs_find_node s path")
      case None
      then have "fs_open path fl s = Some (None, s)" using 2(4) by (simp add: fs_open_def ramfs_lookup_def)
      with None show thesis by (intro missing) auto
    next
      case (Some i)
      have room: "sizeof_vnode + 3 * PAGE_SIZE < two64" by simp
      obtain vn s1 L1 where a: "kmalloc sizeof_vnode s = Some (vn, s1)" "heap_holds s1 L1" "kheap.more s1 = kheap.more s" "held L1 ?A"
        "L \<subseteq> L1" "vn \<noteq> 0 \<longrightarrow> vn \<notin> ?A \<and> held L1 (insert vn ?A) \<and> (\<forall>(q, m) \<in> L. vn + sizeof_vnode \<le> q \<or> q + m \<le> vn)"
        by (rule kh.alloc_held [OF I(1,2) room])
      note m1 = fsys_more [OF a(3)]
      have sets1: "owning s1 = owning s" "file_block s1 = file_block s" by (simp_all add: owning_def file_block_def fun_eq_iff m1)
      show thesis
      proof (cases "vn = 0")
        case True
        have "fs_inv s1 L1 ms" by (rule fs_invI [OF inv a(2)]) (use I a(4) in \<open>simp_all add: sets1 m1\<close>)
        moreover have "fs_open path fl s = Some (None, s1)" using 2(4) Some a(1) True by (simp add: fs_open_def ramfs_lookup_def)
        ultimately show thesis using a(1) True Some by (intro memory) simp_all
      next
        case False
        with a(6) have vn: "vn \<notin> ?A" "held L1 {vn}" by (simp_all add: held_def)
        define v where "v = \<lparr>vn_mnt = vn_mnt (vnode_st s (vnode_root (mount_st s r))), vn_ops = Ramfs_vnode_ops, vn_data = Some i, vn_is_dir = False\<rparr>"
        define s2 where "s2 = s1\<lparr>vnode_st := (vnode_st s1)(vn := v)\<rparr>"
        have sets2: "owning s2 = owning s" "file_block s2 = file_block s" by (simp_all add: owning_def file_block_def fun_eq_iff m1 s2_def)
        have "fs_inv s2 L1 ms"
        proof (rule fs_invI [OF inv])
          show "vnode_st s2 (vnode_root (mount_st s m)) = vnode_st s (vnode_root (mount_st s m))" if "m \<in> set ms" for m
            using vn(1) that by (auto simp: s2_def m1 mount_blocks_def)
        qed (use a(2,4) I(5,6) in \<open>simp_all add: sets2\<close>, simp_all add: s2_def m1)
        moreover have "fs_open path fl s = Some (Some (fl\<lparr>f_name := path, f_vn := vn, f_offset := 0, f_size := nd_size (ramfs_nodes s i)\<rparr>), s2)"
          using 2(4) Some a(1) False I(4) [OF 2(1)] by (simp add: fs_open_def ramfs_lookup_def m1 s2_def v_def ramfs_open_def)
        moreover have "vn \<notin> mount_blocks s2 ms \<union> file_block s2 ` owning s2" using vn(1) by (simp add: sets2) (simp add: mount_blocks_def s2_def m1)
        ultimately show thesis using False Some vn(2) by (intro ok [of i vn s2 L1]) (simp_all add: s2_def v_def m1)
      qed
    qed
  qed
qed

lemma close_effect:
  assumes inv: "fs_inv s L ms" and f: "f_vn fl \<noteq> 0" "vn_ops (vnode_st s (f_vn fl)) = Ramfs_vnode_ops"
    "held L {f_vn fl}" "f_vn fl \<notin> mount_blocks s ms \<union> file_block s ` owning s"
  obtains s' L' where "fs_close fl s = Some (fl\<lparr>f_vn := 0\<rparr>, s')" "fs_inv s' L' ms"
proof -
  let ?A = "mount_blocks s ms \<union> file_block s ` owning s"
  note I = fs_invD [OF inv]
  have "held L (insert (f_vn fl) ?A)" using I(2) f(3) by (simp add: held_def)
  then obtain s1 L1 where a: "kfree (f_vn fl) s = Some s1" "heap_holds s1 L1" "kheap.more s1 = kheap.more s" "held L1 ?A"
    by (rule kh.dealloc_held [OF I(1) _ f(4)])
  note m1 = fsys_more [OF a(3)]
  have sets1: "owning s1 = owning s" "file_block s1 = file_block s" by (simp_all add: owning_def file_block_def fun_eq_iff m1)
  have "fs_inv s1 L1 ms" by (rule fs_invI [OF inv a(2)]) (use I a(4) in \<open>simp_all add: sets1 m1\<close>)
  with a(1) f show thesis by (intro that) (simp_all add: fs_close_def)
qed

text \<open>Boot: the list of nodes after the built-in files, none of which owns its data.\<close>

lemma builtins_effect:
  assumes "owning s = {}"
  shows "owning (fold (\<lambda>(path, start, stop). ramfs_add_builtin path start stop) bs s) = {}"
    "heap_rep (fold (\<lambda>(path, start, stop). ramfs_add_builtin path start stop) bs s) = heap_rep s"
    "mounts (fold (\<lambda>(path, start, stop). ramfs_add_builtin path start stop) bs s) = mounts s"
    "fs_types (fold (\<lambda>(path, start, stop). ramfs_add_builtin path start stop) bs s) = fs_types s"
proof -
  have 1: "owning (ramfs_add_builtin p a b s) = {}" if "owning s = {}" for p a b and s :: "'a fsys_scheme"
  proof -
    have "\<not> (in_use (ramfs_nodes s i) \<and> owns_data (ramfs_nodes s i))" if "i < RAMFS_FILES_MAX" for i
      using \<open>owning s = {}\<close> that by (auto simp: owning_def)
    then show ?thesis by (auto simp: ramfs_add_builtin_def owning_def split: option.split)
  qed
  have 2: "heap_rep (ramfs_add_builtin p a b s) = heap_rep s" "mounts (ramfs_add_builtin p a b s) = mounts s"
    "fs_types (ramfs_add_builtin p a b s) = fs_types s" for p a b and s :: "'a fsys_scheme"
    by (simp_all add: ramfs_add_builtin_def split: option.split) (simp_all add: upd_node_def)
  from assms show "owning (fold (\<lambda>(path, start, stop). ramfs_add_builtin path start stop) bs s) = {}"
    by (induction bs arbitrary: s) (auto simp: 1)
  show "heap_rep (fold (\<lambda>(path, start, stop). ramfs_add_builtin path start stop) bs s) = heap_rep s"
    "mounts (fold (\<lambda>(path, start, stop). ramfs_add_builtin path start stop) bs s) = mounts s"
    "fs_types (fold (\<lambda>(path, start, stop). ramfs_add_builtin path start stop) bs s) = fs_types s"
    by (induction bs arbitrary: s) (auto simp: 2)
qed

lemma clear_nodes:
  fixes s :: "'a fsys_scheme" and n :: nat
  defines "s' \<equiv> fold (\<lambda>i. upd_node i (\<lambda>nd. nd\<lparr>in_use := False\<rparr>)) [0..<n] s"
  shows "i < n \<Longrightarrow> \<not> in_use (ramfs_nodes s' i)" "heap_rep s' = heap_rep s" "mounts s' = mounts s" "fs_types s' = fs_types s"
    "free_run s' = free_run s"
proof -
  have "free_set s' = free_set s" unfolding s'_def by (induction n) (auto simp: upd_node_def free_set_def managed_def)
  then show "free_run s' = free_run s" by (simp add: free_run_def fun_eq_iff)
  show "i < n \<Longrightarrow> \<not> in_use (ramfs_nodes s' i)" unfolding s'_def by (induction n) (auto simp: less_Suc_eq)
  show "heap_rep s' = heap_rep s" "mounts s' = mounts s" unfolding s'_def by (induction n) auto
  show "fs_types s' = fs_types s" unfolding s'_def by (induction n) (auto simp: upd_node_def)
qed

lemma mount_root_effect:
  assumes h: "heap_holds s L" and own: "owning s = {}" and m0: "mounts s = 0" and ty: "find_fs_type s ''ramfs'' (fs_types s) = Some t"
  obtains ok s' L' ms where "vfs_mount_fs ''/'' ''ramfs'' s = Some (ok, s')" "fs_inv s' L' ms"
    "if ok then (\<exists>m. ms = [m] \<and> mnt_path (mount_st s' m) = ''/'') else ms = []"
proof -
  have empty: "fs_inv s' L' []" if "heap_holds s' L'" "owning s' = {}" "mounts s' = 0" for s' :: "'a fsys_scheme" and L'
    using that by (simp add: fs_inv_def mount_blocks_def held_def mount_chain_def nz_def)
  show thesis
  proof (cases "t = 0")
    case True
    then show thesis by (intro that [of False s L "[]"]) (use ty h own m0 in \<open>simp_all add: vfs_mount_fs_def empty\<close>)
  next
    case t: False
    have h0: "held L {}" and room: "sizeof_vfs_mount + 3 * PAGE_SIZE < two64" "sizeof_vnode + 3 * PAGE_SIZE < two64"
      by (simp_all add: held_def)
    obtain m s1 L1 where a: "kmalloc sizeof_vfs_mount s = Some (m, s1)" "heap_holds s1 L1" "kheap.more s1 = kheap.more s" "held L1 {}" "L \<subseteq> L1"
      "m \<noteq> 0 \<longrightarrow> m \<notin> {} \<and> held L1 {m} \<and> (\<forall>(q, k) \<in> L. m + sizeof_vfs_mount \<le> q \<or> q + k \<le> m)"
      by (rule kh.alloc_held [OF h h0 room(1)])
    note m1 = fsys_more [OF a(3)]
    have own1: "owning s1 = {}" using own by (simp add: owning_def m1)
    show thesis
    proof (cases "m = 0")
      case True
      with t a(1) ty have "vfs_mount_fs ''/'' ''ramfs'' s = Some (False, s1)" by (simp add: vfs_mount_fs_def)
      with empty [OF a(2) own1] show thesis by (intro that [of False s1 L1 "[]"]) (simp_all add: m1 m0)
    next
      case m: False
      then have hm: "held L1 {m}" using a(6) by simp
      define mt where "mt = (mount_st s1 m)\<lparr>mnt_path := ''/'', mnt_ops := fst_ops (fs_type_st s1 t), mnt_next := 0\<rparr>"
      define s2 where "s2 = s1\<lparr>mount_st := (mount_st s1)(m := mt)\<rparr>"
      have h2: "heap_holds s2 L1" using a(2) by (simp add: s2_def)
      obtain r s3 L3 where b: "kmalloc sizeof_vnode s2 = Some (r, s3)" "heap_holds s3 L3" "kheap.more s3 = kheap.more s2" "held L3 {m}" "L1 \<subseteq> L3"
        "r \<noteq> 0 \<longrightarrow> r \<notin> {m} \<and> held L3 {r, m} \<and> (\<forall>(q, k) \<in> L1. r + sizeof_vnode \<le> q \<or> q + k \<le> r)"
        by (rule kh.alloc_held [OF h2 hm room(2)])
      note m3 = fsys_more [OF b(3)]
      have own3: "owning s3 = {}" using own1 by (simp add: owning_def m3 s2_def)
      have st: "vfs_mount_fs ''/'' ''ramfs'' s = do {
          (ok, s4) \<leftarrow> ramfs_vfs_mount m s2;
          if \<not> ok then do { s5 \<leftarrow> kfree m s4; Some (False, s5) } else Some (True, s4\<lparr>mounts := m\<rparr>) }"
        using t m ty a(1) m0 by (simp add: vfs_mount_fs_def m1(7) mt_def [symmetric] s2_def [symmetric])
          (simp add: vfs_ops.split s2_def mt_def m1 split: vfs_ops.split)
      show thesis
      proof (cases "r = 0")
        case True
        have "held L3 (insert m {})" "m \<notin> {}" using b(4) by simp_all
        then obtain s4 L4 where c: "kfree m s3 = Some s4" "heap_holds s4 L4" "kheap.more s4 = kheap.more s3" "held L4 {}"
          by (rule kh.dealloc_held [OF b(2)])
        note m4 = fsys_more [OF c(3)]
        have "vfs_mount_fs ''/'' ''ramfs'' s = Some (False, s4)" unfolding st by (simp add: ramfs_vfs_mount_def b(1) True c(1))
        moreover have "fs_inv s4 L4 []" by (rule empty [OF c(2)]) (use own3 in \<open>simp_all add: owning_def m4 m3 s2_def m1 m0\<close>)
        ultimately show thesis by (intro that [of False s4 L4 "[]"]) simp_all
      next
        case r: False
        define s4 where "s4 = s3\<lparr>vnode_st := (vnode_st s3)(r := \<lparr>vn_mnt = m, vn_ops = Ramfs_vnode_ops, vn_data = None, vn_is_dir = True\<rparr>),
          mount_st := (mount_st s3)(m := (mount_st s3 m)\<lparr>vnode_root := r\<rparr>)\<rparr>"
        have v: "vfs_mount_fs ''/'' ''ramfs'' s = Some (True, s4\<lparr>mounts := m\<rparr>)"
          unfolding st by (simp add: ramfs_vfs_mount_def b(1) r s4_def)
        have p: "mnt_path (mount_st s4 m) = ''/''" "mnt_next (mount_st s4 m) = 0" "vnode_root (mount_st s4 m) = r"
          by (simp_all add: s4_def m3 s2_def mt_def)
        have "held L3 {r, m}" using b(6) r by simp
        moreover have "owning (s4\<lparr>mounts := m\<rparr>) = {}" using own3 by (simp add: owning_def s4_def)
        moreover have "heap_holds (s4\<lparr>mounts := m\<rparr>) L3" using b(2) by (simp add: s4_def)
        ultimately have "fs_inv (s4\<lparr>mounts := m\<rparr>) L3 [m]"
          using m p by (simp add: fs_inv_def mount_blocks_def mount_chain_def nz_def) (simp add: s4_def)
        then show thesis by (intro that [OF v, of L3 "[m]"]) (simp_all add: p(1))
      qed
    qed
  qed
qed

lemma fs_init_effect:
  assumes h: "heap_holds s L"
  obtains s' L' ms where "fs_init builtins s = Some s'" "fs_inv s' L' ms" "ms = [] \<or> (\<exists>m. ms = [m] \<and> mnt_path (mount_st s' m) = ''/'')"
proof -
  define s1 where "s1 = fold (\<lambda>i. upd_node i (\<lambda>n. n\<lparr>in_use := False\<rparr>)) [0..<RAMFS_FILES_MAX] (vfs_init s)"
  define s2 where "s2 = fold (\<lambda>(path, start, stop). ramfs_add_builtin path start stop) builtins s1"
  have o1: "owning s1 = {}" unfolding owning_def s1_def using clear_nodes(1) by blast
  have s1: "heap_rep s1 = heap_rep s" "mounts s1 = 0" "fs_types s1 = 0"
    unfolding s1_def clear_nodes by (auto simp: vfs_init_def)
  note b = builtins_effect [OF o1, of builtins, folded s2_def]
  have h2: "heap_holds s2 L" "held L {}" using b(2) s1(1) h by (simp_all add: held_def heap_holds_def)
  have room: "sizeof_fs_type + 3 * PAGE_SIZE < two64" by simp
  obtain t s3 L3 where a: "kmalloc sizeof_fs_type s2 = Some (t, s3)" "heap_holds s3 L3" "kheap.more s3 = kheap.more s2" "held L3 {}" "L \<subseteq> L3"
    "t \<noteq> 0 \<longrightarrow> t \<notin> {} \<and> held L3 {t} \<and> (\<forall>(q, k) \<in> L. t + sizeof_fs_type \<le> q \<or> q + k \<le> t)"
    by (rule kh.alloc_held [OF h2 room])
  note m3 = fsys_more [OF a(3)]
  define s4 where "s4 = (if t = 0 then s3 else
    s3\<lparr>fs_type_st := (fs_type_st s3)(t := \<lparr>fst_name = ''ramfs'', fst_ops = Ramfs_vfs_ops, fst_next = fs_types s3\<rparr>), fs_types := t\<rparr>)"
  have r: "ramfs_init builtins (vfs_init s) = Some s4"
    unfolding ramfs_init_def s1_def [symmetric] s2_def [symmetric] vfs_register_fs_def
    by (simp add: Let_def s1_def [symmetric] s2_def [symmetric] a(1) s4_def)
  have h4: "heap_holds s4 L3" using a(2) by (simp add: s4_def)
  have o4: "owning s4 = {}" "mounts s4 = 0" using b(1,3) s1(2) by (auto simp: owning_def s4_def m3)
  have "find_fs_type s4 ''ramfs'' (fs_types s4) = Some (fs_types s4)"
    by (subst find_fs_type.simps) (use b(4) s1(3) in \<open>auto simp: s4_def m3\<close>)
  from mount_root_effect [OF h4 o4 this] obtain ok s' L' ms where
    m: "vfs_mount_fs ''/'' ''ramfs'' s4 = Some (ok, s')" "fs_inv s' L' ms"
      "if ok then (\<exists>m. ms = [m] \<and> mnt_path (mount_st s' m) = ''/'') else ms = []" .
  show thesis by (rule that [OF _ m(2)]) (use m(1,3) in \<open>auto simp: fs_init_def r split: if_splits\<close>)
qed

section \<open>A booted file layer\<close>

text \<open>One call of \<open>kmalloc\<close> in a heap of one arena.\<close>

lemma kmalloc_one_arena:
  assumes rep: "heap_rep s [a] T" and sz: "0 < req" "req + 16 < two64" and al: "alloc_tiles ((req + 15) div 16 * 16) (T a) = Some (d, ts)"
  obtains s' where "kmalloc req s = Some (a + 80 + d, s')" "heap_rep s' [a] (T(a := ts))" "kheap.more s' = kheap.more s"
proof -
  have k: "kernel_heap_align_up req KERNEL_HEAP_ALIGNMENT = (req + 15) div 16 * 16" "16 dvd (req + 15) div 16 * 16"
    using heap_align_size [of req] sz(2) by simp_all
  have e: "[a] = [] @ a # []" by simp
  obtain s' n where "kmalloc req s = Some (a + 80 + d, s')" "heap_rep s' [a] (T(a := ts))"
    by (rule kmalloc_in_arena [OF rep sz(1) k e al]) simp_all
  with kmalloc_more [of req s] show thesis by (intro that)
qed

lemma fs_boot:
  obtains s a T where "fs_init [] fs_cold = Some s" "heap_rep s [a] T" "T a = [(32, False), (48, False), (32, False), (3808, True)]"
    "mounts s \<noteq> 0" "\<forall>i < RAMFS_FILES_MAX. \<not> in_use (ramfs_nodes s i)"
proof -
  define s1 where "s1 = fold (\<lambda>i. upd_node i (\<lambda>n. n\<lparr>in_use := False\<rparr>)) [0..<RAMFS_FILES_MAX] (vfs_init fs_cold)"
  have n1: "\<not> in_use (ramfs_nodes s1 i)" if "i < RAMFS_FILES_MAX" for i using clear_nodes(1) [OF that] by (simp add: s1_def)
  have f: "free_run (vfs_init s) = free_run s" for s :: fsys by (simp add: vfs_init_def free_run_def free_set_def managed_def fun_eq_iff)
  have pg: "kernel_heap_pages_for_size 32 = 1"
    using heap_align_size [of 40] heap_align_size [of 32]
    by (simp add: kernel_heap_pages_for_size_def add64_exact) (simp add: kernel_heap_align_up_def align_up64_pow2 [of 12, simplified])
  have rep1: "heap_rep s1 [] (\<lambda>_. [])" and run: "\<exists>r. free_run s1 (kernel_heap_pages_for_size 32) r"
    unfolding s1_def clear_nodes f pg fs_cold_def using heap_cold_of_rep by (fastforce simp: vfs_init_def)+
  have s1: "mounts s1 = 0" "fs_types s1 = 0" unfolding s1_def clear_nodes by (simp_all add: vfs_init_def)
  have k: "0 < sizeof_fs_type" "kernel_heap_align_up sizeof_fs_type KERNEL_HEAP_ALIGNMENT = 32" "16 dvd (32 :: nat)"
    "32 + 80 \<le> PAGE_SIZE * kernel_heap_pages_for_size 32" using heap_align_size [of 24] by (simp_all add: pg)
  obtain a s2 ts where a: "kmalloc sizeof_fs_type s1 = Some (a + 80, s2)" "alloc_tiles 32 [(PAGE_SIZE * kernel_heap_pages_for_size 32 - 80, True)] = Some (0, ts)"
    "heap_rep s2 [a] ((\<lambda>_. [])(a := ts))"
    by (rule kmalloc_new_arena [OF rep1 k _ run]) simp_all
  have ts: "ts = [(32, False), (3952, True)]" using a(2) by (simp add: pg)
  note m2 = fsys_more [OF kmalloc_more [OF a(1)]]
  define s3 where "s3 = s2\<lparr>fs_type_st := (fs_type_st s2)(a + 80 := \<lparr>fst_name = ''ramfs'', fst_ops = Ramfs_vfs_ops, fst_next = fs_types s2\<rparr>), fs_types := a + 80\<rparr>"
  have r: "ramfs_init [] (vfs_init fs_cold) = Some s3"
    unfolding ramfs_init_def by (simp add: Let_def s1_def [symmetric] vfs_register_fs_def a(1) s3_def)
  have rep3: "heap_rep s3 [a] ((\<lambda>_. [])(a := ts))" using a(3) by (simp add: s3_def)
  obtain s4 where b: "kmalloc sizeof_vfs_mount s3 = Some (a + 80 + 64, s4)"
      "heap_rep s4 [a] ((\<lambda>_. [])(a := ts, a := [(32, False), (48, False), (3872, True)]))" "kheap.more s4 = kheap.more s3"
    by (rule kmalloc_one_arena [OF rep3, of sizeof_vfs_mount 64 "[(32, False), (48, False), (3872, True)]"]) (simp_all add: ts)
  note m4 = fsys_more [OF b(3)]
  define s5 where "s5 = s4\<lparr>mount_st := (mount_st s4)(a + 144 := (mount_st s4 (a + 144))\<lparr>mnt_path := ''/'', mnt_ops := Ramfs_vfs_ops, mnt_next := 0\<rparr>)\<rparr>"
  have rep5: "heap_rep s5 [a] ((\<lambda>_. [])(a := [(32, False), (48, False), (3872, True)]))" using b(2) by (simp add: s5_def)
  obtain s6 where c: "kmalloc sizeof_vnode s5 = Some (a + 80 + 144, s6)"
      "heap_rep s6 [a] ((\<lambda>_. [])(a := [(32, False), (48, False), (3872, True)], a := [(32, False), (48, False), (32, False), (3808, True)]))"
      "kheap.more s6 = kheap.more s5"
    by (rule kmalloc_one_arena [OF rep5, of sizeof_vnode 144 "[(32, False), (48, False), (32, False), (3808, True)]"]) simp_all
  note m6 = fsys_more [OF c(3)]
  define s7 where "s7 = s6\<lparr>vnode_st := (vnode_st s6)(a + 224 := \<lparr>vn_mnt = a + 144, vn_ops = Ramfs_vnode_ops, vn_data = None, vn_is_dir = True\<rparr>),
      mount_st := (mount_st s6)(a + 144 := (mount_st s6 (a + 144))\<lparr>vnode_root := a + 224\<rparr>), mounts := a + 144\<rparr>"
  have "find_fs_type s3 ''ramfs'' (fs_types s3) = Some (a + 80)" by (subst find_fs_type.simps) (simp add: s3_def)
  then have "vfs_mount_fs ''/'' ''ramfs'' s3 = Some (True, s7)"
    using b(1) c(1) s1 by (simp add: vfs_mount_fs_def m4 s3_def m2 add.commute) (simp add: s5_def m4 s3_def m2 s7_def m6 ramfs_vfs_mount_def)
  then have i: "fs_init [] fs_cold = Some s7" by (simp add: fs_init_def r)
  have rep7: "heap_rep s7 [a] ((\<lambda>_. [])(a := [(32, False), (48, False), (32, False), (3808, True)]))" using c(2) by (simp add: s7_def)
  show thesis by (rule that [OF i rep7]) (use n1 in \<open>simp_all add: s7_def m6 s5_def m4 s3_def m2\<close>)
qed

text \<open>The booted layer with a caller's buffer of 100 bytes.\<close>

lemma fs_boot_buffer:
  obtains s0 buf s L m n where "fs_init [] fs_cold = Some s0" "kmalloc 100 s0 = Some (buf, s)" "fs_inv s L [m]" "(buf, n) \<in> L" "100 \<le> n"
    "mnt_path (mount_st s m) = ''/''" "\<forall>i < RAMFS_FILES_MAX. \<not> in_use (ramfs_nodes s i)"
    "\<forall>s1. kmalloc 100 s \<noteq> Some (0, s1)"
proof -
  from fs_boot obtain s0 a T where b: "fs_init [] fs_cold = Some s0" "heap_rep s0 [a] T" "T a = [(32, False), (48, False), (32, False), (3808, True)]"
    "mounts s0 \<noteq> 0" "\<forall>i < RAMFS_FILES_MAX. \<not> in_use (ramfs_nodes s0 i)" .
  have c: "heap_holds fs_cold {}" unfolding fs_cold_def by (rule heap_cold_of_holds)
  obtain s' L' ms where i: "fs_init [] fs_cold = Some s'" "fs_inv s' L' ms" "ms = [] \<or> (\<exists>m. ms = [m] \<and> mnt_path (mount_st s' m) = ''/'')"
    by (rule fs_init_effect [OF c])
  have inv: "fs_inv s0 L' ms" and ms: "ms = [] \<or> (\<exists>m. ms = [m] \<and> mnt_path (mount_st s0 m) = ''/'')" using i b(1) by simp_all
  have "ms \<noteq> []" using fs_invD(3) [OF inv] b(4) by (auto simp: mount_chain_def nz_def)
  with ms obtain m where m: "ms = [m]" "mnt_path (mount_st s0 m) = ''/''" by blast
  let ?ts = "[(32, False), (48, False), (32, False), (112, False), (3664, True)]"
  obtain s1 where s1: "kmalloc 100 s0 = Some (a + 80 + 208, s1)" "heap_rep s1 [a] (T(a := ?ts))" "kheap.more s1 = kheap.more s0"
    by (rule kmalloc_one_arena [OF b(2), of 100 208 ?ts]) (simp_all add: b(3))
  note m1 = fsys_more [OF s1(3)]
  have room: "100 + 3 * PAGE_SIZE < two64" by simp
  obtain p s1' L1 where a: "kmalloc 100 s0 = Some (p, s1')" "heap_holds s1' L1" "held L1 (mount_blocks s0 ms \<union> file_block s0 ` owning s0)"
    "p = 0 \<or> (\<exists>n \<ge> 100. (p, n) \<in> L1)"
  proof -
    obtain p s' L1 where 1: "kmalloc 100 s0 = Some (p, s')" "heap_holds s' L1"
      "if p = 0 then L1 = L' else \<exists>k \<ge> 100. 0 < k \<and> L1 = insert (p, k) L' \<and> (\<forall>m. (p, m) \<notin> L')"
      using kh.alloc_law [OF fs_invD(1) [OF inv] room] by (elim exE conjE)
    have sub: "L' \<subseteq> L1" and pn: "p = 0 \<or> (\<exists>n \<ge> 100. (p, n) \<in> L1)" using 1(3) by (auto split: if_splits)
    have "held L1 (mount_blocks s0 ms \<union> file_block s0 ` owning s0)" using fs_invD(2) [OF inv] sub unfolding held_def by blast
    from that [OF 1(1,2) this pn] show thesis .
  qed
  have eq: "p = a + 288" "s1' = s1" using a(1) s1(1) by simp_all
  have sets1: "owning s1 = owning s0" "file_block s1 = file_block s0" by (simp_all add: owning_def file_block_def fun_eq_iff m1)
  have inv1: "fs_inv s1 L1 [m]"
    by (rule fs_invI [OF inv [unfolded m(1)]]) (use fs_invD [OF inv] a(2,3) in \<open>simp_all add: eq sets1 m1 m(1)\<close>)
  obtain n where n: "100 \<le> n" "(p, n) \<in> L1" using a(4) eq(1) by auto
  let ?ts2 = "[(32, False), (48, False), (32, False), (112, False), (112, False), (3520, True)]"
  have "kmalloc 100 s1 \<noteq> Some (0, s2)" for s2
    by (rule kmalloc_one_arena [OF s1(2), of 100 352 ?ts2]) simp_all
  with b(1,5) s1(1) inv1 n m(2) show thesis by (intro that [of s0 p s1 L1 m n]) (simp_all add: eq m1)
qed

lemma register_succeeds:
  assumes "\<forall>i < RAMFS_FILES_MAX. \<not> in_use (ramfs_nodes s i)" "\<forall>s1. kmalloc sz s \<noteq> Some (0, s1)"
    and "fs_register_file path data sz s = Some (ok, s')"
  shows "ok"
proof -
  have "ramfs_find_node s path = None" "find_from (\<lambda>i. \<not> in_use (ramfs_nodes s i)) 0 RAMFS_FILES_MAX = Some 0"
    using assms(1) by (simp_all add: ramfs_find_node_def find_from_None numeral_eq_Suc)
  then show ?thesis
    using assms(2,3) by (auto simp: fs_register_file_def ramfs_register_file_def bind_eq_Some_conv Let_def split: if_splits)
qed

section \<open>Properties\<close>

text \<open>C31: Path lookup terminates on every mount chain and asks the root of the mount with the longest path that is a prefix of the
  requested one; without such a mount, and for a path that does not start with a slash, it fails and changes nothing.\<close>

theorem vfs_lookup_longest:
  assumes "mount_chain s (mounts s) ms" "\<And>m. m \<in> set ms \<Longrightarrow> vn_ops (vnode_st s (vnode_root (mount_st s m))) = Ramfs_vnode_ops"
  shows "(path = [] \<or> hd path \<noteq> CHR ''/'' \<or> (\<forall>m \<in> set ms. \<not> prefix (mnt_path (mount_st s m)) path)) \<and> vfs_lookup path s = Some (0, s) \<or>
    (\<exists>r \<in> set ms. prefix (mnt_path (mount_st s r)) path \<and>
       (\<forall>m \<in> set ms. prefix (mnt_path (mount_st s m)) path \<longrightarrow> length (mnt_path (mount_st s m)) \<le> length (mnt_path (mount_st s r))) \<and>
       vfs_lookup path s = ramfs_lookup (vnode_root (mount_st s r)) path s)"
proof (cases "path = [] \<or> hd path \<noteq> CHR ''/''")
  case True
  then show ?thesis by (auto simp: vfs_lookup_def)
next
  case False
  then have path: "path \<noteq> []" "hd path = CHR ''/''" by simp_all
  show ?thesis by (rule vfs_lookup_mount [OF assms path]; blast)
qed

theorem vfs_lookup_longest_witness:
  "\<exists>s0 buf s m. fs_init [] fs_cold = Some s0 \<and> kmalloc 100 s0 = Some (buf, s) \<and> mount_chain s (mounts s) [m] \<and>
     vfs_lookup ''/x'' s = ramfs_lookup (vnode_root (mount_st s m)) ''/x'' s"
proof -
  obtain s0 buf s L m n where b: "fs_init [] fs_cold = Some s0" "kmalloc 100 s0 = Some (buf, s)" "fs_inv s L [m]" "(buf, n) \<in> L" "100 \<le> n"
    "mnt_path (mount_st s m) = ''/''" "\<forall>i < RAMFS_FILES_MAX. \<not> in_use (ramfs_nodes s i)" "\<forall>s1. kmalloc 100 s \<noteq> Some (0, s1)"
    by (rule fs_boot_buffer)
  have "vfs_lookup ''/x'' s = ramfs_lookup (vnode_root (mount_st s m)) ''/x'' s"
    using vfs_lookup_longest [OF fs_invD(3,4) [OF b(3)], of "''/x''"] b(6) by auto
  with b(1,2) fs_invD(3) [OF b(3)] show ?thesis by blast
qed



text \<open>C29: What is registered is what is read: after a successful registration of a buffer under a path of fewer than 64
  characters, opening that path (which can fail only for lack of memory) gives a file of that size, and reads return the bytes the
  buffer had, at every offset, up to the end of the file.\<close>

theorem fs_register_open_read:
  assumes inv: "fs_inv s L ms" and buf: "(q, n) \<in> L" "q \<le> data" "data + sz \<le> q + n" and room: "sz + 3 * PAGE_SIZE < two64"
    and path: "path \<noteq> []" "hd path = CHR ''/''" "length path < RAMFS_PATH_MAX" and m: "m \<in> set ms" "prefix (mnt_path (mount_st s m)) path"
  shows "\<exists>ok s1. fs_register_file path data sz s = Some (ok, s1) \<and>
    (if ok then \<exists>f s2. fs_open path fl s1 = Some (f, s2) \<and>
        (case f of None \<Rightarrow> \<exists>s3. kmalloc sizeof_vnode s1 = Some (0, s3)
         | Some f \<Rightarrow> f_size f = sz \<and> f_name f = path \<and> f_offset f = 0 \<and>
            (\<forall>off len. off \<le> sz \<longrightarrow> fs_read (f\<lparr>f_offset := off\<rparr>) len s2 =
              Some (min len (sz - off), map (\<lambda>i. kbytes s (data + off + i)) [0..<min len (sz - off)], f\<lparr>f_offset := off + min len (sz - off)\<rparr>)))
     else (\<exists>s3. kmalloc sz s = Some (0, s3)) \<or> ramfs_find_node s path = None \<and> (\<forall>i < RAMFS_FILES_MAX. in_use (ramfs_nodes s i)))"
proof (rule register_effect [OF inv room, where path = path and data = data])
  fix s1 L1 i p
  assume r: "ramfs_register_file path data sz s = Some (True, s1)" "fs_inv s1 L1 ms" "length path < RAMFS_PATH_MAX \<longrightarrow> ramfs_find_node s1 path = Some i"
      "ramfs_nodes s1 = (ramfs_nodes s)(i := \<lparr>in_use = True, owns_data = True, nd_path = copy_path path, nd_data = p, nd_size = sz\<rparr>)"
      "kbytes s1 = copy_kbytes p data sz (kbytes s)" "\<And>q m. (q, m) \<in> L \<Longrightarrow> p + sz \<le> q \<or> q + m \<le> p"
      "mount_st s1 = mount_st s"
  have apart: "p + sz \<le> data \<or> data + sz \<le> p" using r(6) [OF buf(1)] buf(2,3) by linarith
  have b: "kbytes s1 (p + k) = kbytes s (data + k)" if "k < sz" for k
    using that by (simp add: r(5) copy_kbytes_apart [OF apart])
  have "\<exists>f s2. fs_open path fl s1 = Some (f, s2) \<and> (case f of None \<Rightarrow> \<exists>s3. kmalloc sizeof_vnode s1 = Some (0, s3)
      | Some f \<Rightarrow> f_size f = sz \<and> f_name f = path \<and> f_offset f = 0 \<and> (\<forall>off len. off \<le> sz \<longrightarrow> fs_read (f\<lparr>f_offset := off\<rparr>) len s2 =
          Some (min len (sz - off), map (\<lambda>i. kbytes s (data + off + i)) [0..<min len (sz - off)], f\<lparr>f_offset := off + min len (sz - off)\<rparr>)))"
  proof (rule open_effect [OF r(2), where path = path and fl = fl])
    fix s2 L2 j vn
    let ?f = "fl\<lparr>f_name := path, f_vn := vn, f_offset := 0, f_size := nd_size (ramfs_nodes s1 j)\<rparr>"
    assume o: "fs_open path fl s1 = Some (Some ?f, s2)" "ramfs_find_node s1 path = Some j" "vn \<noteq> 0" "vn_ops (vnode_st s2 vn) = Ramfs_vnode_ops"
      "vn_data (vnode_st s2 vn) = Some j" "kbytes s2 = kbytes s1" "ramfs_nodes s2 = ramfs_nodes s1"
    have j: "j = i" using o(2) r(3) path(3) by simp
    have "fs_read (?f\<lparr>f_offset := off\<rparr>) len s2 =
        Some (min len (sz - off), map (\<lambda>i. kbytes s (data + off + i)) [0..<min len (sz - off)], ?f\<lparr>f_offset := off + min len (sz - off)\<rparr>)"
      if "off \<le> sz" for off len
      using o(3-7) that b by (auto simp: fs_read_def ramfs_read_def j r(4) Let_def min_def add.assoc)
    then show ?thesis using o(1) by (intro exI [of _ "Some ?f"] exI [of _ s2]) (simp add: j r(4))
  qed (use path r(3) m in \<open>auto simp: r(7) intro!: exI [of _ "None"]\<close>)
  with r(1) show ?thesis by (intro exI [of _ True] exI [of _ s1]) (simp add: fs_register_file_def)
qed (auto simp: fs_register_file_def intro!: exI [of _ False])

theorem fs_register_open_read_witness:
  "\<exists>s0 buf s s1 s2 f. fs_init [] fs_cold = Some s0 \<and> kmalloc 100 s0 = Some (buf, s) \<and> fs_register_file ''/a'' buf 100 s = Some (True, s1) \<and>
     fs_open ''/a'' \<lparr>f_vn = 0, f_name = [], f_offset = 0, f_size = 0\<rparr> s1 = Some (f, s2) \<and>
     (case f of None \<Rightarrow> \<exists>s3. kmalloc sizeof_vnode s1 = Some (0, s3)
      | Some f \<Rightarrow> fs_read f 2 s2 = Some (2, [kbytes s buf, kbytes s (buf + 1)], f\<lparr>f_offset := 2\<rparr>))"
proof -
  obtain s0 buf s L m n where b: "fs_init [] fs_cold = Some s0" "kmalloc 100 s0 = Some (buf, s)" "fs_inv s L [m]" "(buf, n) \<in> L" "100 \<le> n"
    "mnt_path (mount_st s m) = ''/''" "\<forall>i < RAMFS_FILES_MAX. \<not> in_use (ramfs_nodes s i)" "\<forall>s1. kmalloc 100 s \<noteq> Some (0, s1)"
    by (rule fs_boot_buffer)
  let ?fl = "\<lparr>f_vn = 0, f_name = [], f_offset = 0, f_size = 0\<rparr> :: open_file"
  have h: "buf \<le> buf" "buf + 100 \<le> buf + n" "100 + 3 * PAGE_SIZE < two64" "''/a'' \<noteq> []" "hd ''/a'' = CHR ''/''" "length ''/a'' < RAMFS_PATH_MAX"
    "m \<in> set [m]" "prefix (mnt_path (mount_st s m)) ''/a''" using b(5,6) by simp_all
  from fs_register_open_read [OF b(3,4) h, of ?fl] obtain ok s1 where r: "fs_register_file ''/a'' buf 100 s = Some (ok, s1)"
    "ok \<Longrightarrow> \<exists>f s2. fs_open ''/a'' ?fl s1 = Some (f, s2) \<and> (case f of None \<Rightarrow> \<exists>s3. kmalloc sizeof_vnode s1 = Some (0, s3)
       | Some f \<Rightarrow> f_size f = 100 \<and> f_name f = ''/a'' \<and> f_offset f = 0 \<and> (\<forall>off len. off \<le> 100 \<longrightarrow> fs_read (f\<lparr>f_offset := off\<rparr>) len s2 =
          Some (min len (100 - off), map (\<lambda>i. kbytes s (buf + off + i)) [0..<min len (100 - off)], f\<lparr>f_offset := off + min len (100 - off)\<rparr>)))"
    by (elim exE conjE) simp
  have "ok" using register_succeeds [OF b(7,8) r(1)] .
  from r(2) [OF this] obtain f s2 where o: "fs_open ''/a'' ?fl s1 = Some (f, s2)" "case f of None \<Rightarrow> \<exists>s3. kmalloc sizeof_vnode s1 = Some (0, s3)
       | Some f \<Rightarrow> f_size f = 100 \<and> f_name f = ''/a'' \<and> f_offset f = 0 \<and> (\<forall>off len. off \<le> 100 \<longrightarrow> fs_read (f\<lparr>f_offset := off\<rparr>) len s2 =
          Some (min len (100 - off), map (\<lambda>i. kbytes s (buf + off + i)) [0..<min len (100 - off)], f\<lparr>f_offset := off + min len (100 - off)\<rparr>))"
    by (elim exE conjE) simp
  have "fs_read g 2 s2 = Some (2, [kbytes s buf, kbytes s (buf + 1)], g\<lparr>f_offset := 2\<rparr>)" if "f = Some g" for g
  proof -
    have "g\<lparr>f_offset := 0\<rparr> = g" using o(2) that by simp
    moreover have "fs_read (g\<lparr>f_offset := 0\<rparr>) 2 s2 = Some (2, map (\<lambda>i. kbytes s (buf + 0 + i)) [0..<2], g\<lparr>f_offset := 2\<rparr>)"
      using o(2) that by (auto dest!: spec [of _ "0 :: nat"] spec [of _ "2 :: nat"])
    ultimately show ?thesis by (simp add: upt_rec)
  qed
  then have "case f of None \<Rightarrow> \<exists>s3. kmalloc sizeof_vnode s1 = Some (0, s3)
      | Some f \<Rightarrow> fs_read f 2 s2 = Some (2, [kbytes s buf, kbytes s (buf + 1)], f\<lparr>f_offset := 2\<rparr>)"
    using o(2) by (auto split: option.splits)
  with b(1,2) r(1) o(1) \<open>ok\<close> show ?thesis by (intro exI conjI) auto
qed

text \<open>C32: Errors.  An absolute path that no node has is not found, a file of size 0 cannot be registered, writing to an in-memory file
  writes nothing, a path of 64 or more characters is registered under its first 63 and not found again under its own
  name, and closing a console file has no defined effect, because the console has no close operation.\<close>

theorem fs_errors:
  assumes inv: "fs_inv s L ms" and room: "sz + 3 * PAGE_SIZE < two64"
    and short: "\<And>i. i < RAMFS_FILES_MAX \<Longrightarrow> in_use (ramfs_nodes s i) \<Longrightarrow> length (nd_path (ramfs_nodes s i)) < RAMFS_PATH_MAX"
  shows "(ramfs_find_node s path = None \<longrightarrow> fs_open path fl s = Some (None, s)) \<and>
    fs_register_file path data 0 s = Some (False, s) \<and>
    (vn_ops (vnode_st s (f_vn fl)) = Ramfs_vnode_ops \<longrightarrow> fs_write fl src s = (0, s)) \<and>
    (\<forall>s'. RAMFS_PATH_MAX \<le> length path \<and> fs_register_file path data sz s = Some (True, s') \<longrightarrow> fs_open path fl s' = Some (None, s')) \<and>
    (f_vn fl \<noteq> 0 \<and> vn_ops (vnode_st s (f_vn fl)) = Console_ops \<longrightarrow> fs_close fl s = None)"
proof (intro conjI impI allI)
  have missing: "fs_open path fl s = Some (None, s)" if "fs_inv s L ms" "ramfs_find_node s path = None" for s :: "'a fsys_scheme" and L
    by (rule open_effect [OF that(1), where path = path and fl = fl]) (use that(2) in \<open>auto simp: fs_open_def vfs_lookup_def\<close>)
  show "ramfs_find_node s path = None \<Longrightarrow> fs_open path fl s = Some (None, s)" by (rule missing [OF inv])
  show "fs_register_file path data 0 s = Some (False, s)"
    by (simp add: fs_register_file_def ramfs_register_file_def kmalloc_def split: option.split)
  fix s'
  assume l: "RAMFS_PATH_MAX \<le> length path \<and> fs_register_file path data sz s = Some (True, s')"
  show "fs_open path fl s' = Some (None, s')"
  proof (rule register_effect [OF inv room, where path = path and data = data])
    fix s1 L' i p
    assume r: "ramfs_register_file path data sz s = Some (True, s1)" "fs_inv s1 L' ms"
      "ramfs_nodes s1 = (ramfs_nodes s)(i := \<lparr>in_use = True, owns_data = True, nd_path = copy_path path, nd_data = p, nd_size = sz\<rparr>)"
    have "\<not> (in_use (ramfs_nodes s1 k) \<and> nd_path (ramfs_nodes s1 k) = path)" if "k < RAMFS_FILES_MAX" for k
      using short [OF that] l by (auto simp: r(3) copy_path_def)
    then have "ramfs_find_node s1 path = None" by (simp add: ramfs_find_node_def find_from_None)
    moreover have "s1 = s'" using l r(1) by (simp add: fs_register_file_def)
    ultimately show ?thesis using missing [OF r(2)] by simp
  qed (use l in \<open>simp_all add: fs_register_file_def\<close>)
qed (simp_all add: fs_write_def fs_close_def)

theorem fs_errors_witness:
  "\<exists>s0 buf s. fs_init [] fs_cold = Some s0 \<and> kmalloc 100 s0 = Some (buf, s) \<and>
     fs_register_file ''/a'' buf 0 s = Some (False, s) \<and> fs_open ''/a'' \<lparr>f_vn = 0, f_name = [], f_offset = 0, f_size = 0\<rparr> s = Some (None, s)"
proof -
  obtain s0 buf s L m n where b: "fs_init [] fs_cold = Some s0" "kmalloc 100 s0 = Some (buf, s)" "fs_inv s L [m]" "(buf, n) \<in> L" "100 \<le> n"
    "mnt_path (mount_st s m) = ''/''" "\<forall>i < RAMFS_FILES_MAX. \<not> in_use (ramfs_nodes s i)" "\<forall>s1. kmalloc 100 s \<noteq> Some (0, s1)"
    by (rule fs_boot_buffer)
  have h: "0 + 3 * PAGE_SIZE < two64" by simp
  have n: "ramfs_find_node s ''/a'' = None" using b(7) by (simp add: ramfs_find_node_def find_from_None)
  note e = fs_errors [OF b(3) h, of "''/a''" "\<lparr>f_vn = 0, f_name = [], f_offset = 0, f_size = 0\<rparr>" buf]
  have "fs_register_file ''/a'' buf 0 s = Some (False, s) \<and> fs_open ''/a'' \<lparr>f_vn = 0, f_name = [], f_offset = 0, f_size = 0\<rparr> s = Some (None, s)"
    using e b(7) n by simp
  with b(1,2) show ?thesis by blast
qed

end
