(* ===== verification/Mmu_Table.thy ===== *)
theory Mmu_Table
  imports Fs
begin

text \<open>
  Translation tables: the state of the MMU code, descriptors, the registry of table pages of
  \<^verbatim>\<open>src/src/kernel/mmu_table.c\<close> and the boot maps of \<^verbatim>\<open>src/src/kernel/mmu_boot.c\<close> and \<^verbatim>\<open>src/src/kernel/mmu.c\<close>.
  Tables live in the physical memory of the page allocator, one descriptor for each 8-byte cell, and are read
  and written through kernel pointers.  Descriptors and user virtual addresses are 64-bit words, physical addresses natural
  numbers.  TLB maintenance is a log of instructions.  The linker symbols of the kernel image are a parameter.
\<close>

section \<open>Constants\<close>

abbreviation MMU_L1_BLOCK_SIZE :: nat where "MMU_L1_BLOCK_SIZE \<equiv> 0x40000000"
abbreviation MMU_L2_BLOCK_SIZE :: nat where "MMU_L2_BLOCK_SIZE \<equiv> 0x200000"
abbreviation MMU_KERNEL_FINE_MAP_MIN_CHUNKS :: nat where "MMU_KERNEL_FINE_MAP_MIN_CHUNKS \<equiv> 2"

abbreviation MMU_DESC_VALID :: u64 where "MMU_DESC_VALID \<equiv> 1"
abbreviation MMU_DESC_TABLE :: u64 where "MMU_DESC_TABLE \<equiv> 3"
abbreviation MMU_DESC_BLOCK :: u64 where "MMU_DESC_BLOCK \<equiv> 1"
abbreviation MMU_DESC_PAGE :: u64 where "MMU_DESC_PAGE \<equiv> 3"
abbreviation MMU_DESC_TYPE_MASK :: u64 where "MMU_DESC_TYPE_MASK \<equiv> 3"
abbreviation MMU_DESC_ADDR_MASK :: u64 where "MMU_DESC_ADDR_MASK \<equiv> 0x0000FFFFFFFFF000"

abbreviation MMU_ATTR_DEVICE :: u64 where "MMU_ATTR_DEVICE \<equiv> 0"
abbreviation MMU_ATTR_NORMAL :: u64 where "MMU_ATTR_NORMAL \<equiv> 0x4"
abbreviation MMU_AP_RW :: u64 where "MMU_AP_RW \<equiv> 0"
abbreviation MMU_AP_RO :: u64 where "MMU_AP_RO \<equiv> 0x80"
abbreviation MMU_DESC_SOFTWARE_COW :: u64 where "MMU_DESC_SOFTWARE_COW \<equiv> 0x80000000000000"
abbreviation MMU_SH_NON_SHAREABLE :: u64 where "MMU_SH_NON_SHAREABLE \<equiv> 0"
abbreviation MMU_SH_INNER_SHAREABLE :: u64 where "MMU_SH_INNER_SHAREABLE \<equiv> 0x300"
abbreviation MMU_AF :: u64 where "MMU_AF \<equiv> 0x400"
abbreviation MMU_PXN :: u64 where "MMU_PXN \<equiv> 0x20000000000000"
abbreviation MMU_UXN :: u64 where "MMU_UXN \<equiv> 0x40000000000000"

definition L0_INDEX_FOR :: "u64 \<Rightarrow> nat" where "L0_INDEX_FOR va = unat (drop_bit 39 va AND 0x1FF)"
definition L1_INDEX_FOR :: "u64 \<Rightarrow> nat" where "L1_INDEX_FOR va = unat (drop_bit 30 va AND 0x1FF)"
definition L2_INDEX_FOR :: "u64 \<Rightarrow> nat" where "L2_INDEX_FOR va = unat (drop_bit 21 va AND 0x1FF)"
definition L3_INDEX_FOR :: "u64 \<Rightarrow> nat" where "L3_INDEX_FOR va = unat (drop_bit 12 va AND 0x1FF)"

text \<open>The address a descriptor points to.\<close>

definition desc_addr :: "u64 \<Rightarrow> nat" where
  "desc_addr e = unat (e AND MMU_DESC_ADDR_MASK)"

section \<open>State\<close>

datatype tlbi = TLBI_ALL | TLBI_ASID nat | TLBI_VA nat u64

text \<open>An address space; \<open>mm_pages\<close> are the first \<open>page_count\<close> entries of its page array.\<close>

record mm_context =
  root_pa :: nat
  mm_asid :: nat
  mm_refs :: nat
  mm_dying :: bool
  active_cpu_mask :: u32
  mm_pages :: "nat list"

datatype vm_type = VM_TYPE_ANON | VM_TYPE_ELF | VM_TYPE_HEAP

record vm_region =
  rg_start :: u64
  rg_end :: u64
  rg_type :: vm_type
  rg_flags :: u64
  elf_image :: nat
  elf_offset :: u64
  file_size :: u64

record process =
  pr_name :: string
  pr_mm :: nat
  entry_va :: u64
  stack_top :: u64
  heap_start :: u64
  pr_brk :: u64
  heap_limit :: u64
  heap_mapped_end :: u64
  regions :: "vm_region list"
  owned_images :: "nat list"
  user_sp :: u64
  pr_ref_count :: nat
  exec_in_progress :: bool

record mmus = fsys +
  table_pages :: "(nat \<times> string) list"
  table_pages_used :: nat
  mmu_l0_table :: nat
  mmu_l1_table :: nat
  mmu_l2_ram_table :: nat
  l0_table_ttbr1 :: nat
  l1_table_ttbr1 :: nat
  l2_ram_table_ttbr1 :: nat
  mmu_fine_map_chunks_used :: nat
  ttbr0_runtime_empty_root :: nat
  ttbr0 :: "nat \<Rightarrow> u64"
  ttbr1 :: "nat \<Rightarrow> u64"
  tlb_log :: "tlbi list"
  mm_st :: "nat \<Rightarrow> mm_context"
  proc_st :: "nat \<Rightarrow> process"
  next_asid :: nat
  asid_bitmap :: "nat \<Rightarrow> u64"
  mmu_cpu_context :: "nat \<Rightarrow> nat"
  mmu_shootdown_asid :: nat
  mmu_shootdown_pending_mask :: u32

definition upd_mm :: "nat \<Rightarrow> (mm_context \<Rightarrow> mm_context) \<Rightarrow> 'a mmus_scheme \<Rightarrow> 'a mmus_scheme" where
  "upd_mm mm f s = s\<lparr>mm_st := (mm_st s)(mm := f (mm_st s mm))\<rparr>"

definition upd_proc :: "nat \<Rightarrow> (process \<Rightarrow> process) \<Rightarrow> 'a mmus_scheme \<Rightarrow> 'a mmus_scheme" where
  "upd_proc p f s = s\<lparr>proc_st := (proc_st s)(p := f (proc_st s p))\<rparr>"

definition tlb :: "tlbi \<Rightarrow> 'a mmus_scheme \<Rightarrow> 'a mmus_scheme" where
  "tlb i s = s\<lparr>tlb_log := tlb_log s @ [i]\<rparr>"

text \<open>Entry \<open>i\<close> of the table at a kernel pointer.\<close>

definition tbl_get :: "'a palloc_scheme \<Rightarrow> nat \<Rightarrow> nat \<Rightarrow> u64" where
  "tbl_get s tbl i = load64 s (tbl + 8 * i)"

definition tbl_set :: "nat \<Rightarrow> nat \<Rightarrow> u64 \<Rightarrow> 'a palloc_scheme \<Rightarrow> 'a palloc_scheme" where
  "tbl_set tbl i e s = store64 (tbl + 8 * i) e s"

section \<open>The registry of table pages\<close>

abbreviation MMU_TABLE_MAX_PAGES :: nat where "MMU_TABLE_MAX_PAGES \<equiv> 67"
abbreviation MMU_TABLE_MAX_NAME_LEN :: nat where "MMU_TABLE_MAX_NAME_LEN \<equiv> 24"

definition copy_name :: "string \<Rightarrow> string" where
  "copy_name source = take (MMU_TABLE_MAX_NAME_LEN - 1) source"

fun name_has_prefix :: "string \<Rightarrow> string \<Rightarrow> bool" where
  "name_has_prefix name [] = True"
| "name_has_prefix [] (p # pfx) = False"
| "name_has_prefix (n # name) (p # pfx) = (if n \<noteq> p then False else name_has_prefix name pfx)"

fun chunk_digits :: "nat \<Rightarrow> string" where
  "chunk_digits n = (if n < 10 then [char_of (48 + n)] else chunk_digits (n div 10) @ [char_of (48 + n mod 10)])"

definition set_chunk_name :: "string \<Rightarrow> nat \<Rightarrow> string" where
  "set_chunk_name pfx chunk_index = take (MMU_TABLE_MAX_NAME_LEN - 1) (pfx @ chunk_digits chunk_index)"

definition mmu_table_registry_reset :: "'a mmus_scheme \<Rightarrow> 'a mmus_scheme" where
  "mmu_table_registry_reset s = s\<lparr>table_pages := [], table_pages_used := 0\<rparr>"

definition mmu_table_record_page :: "nat \<Rightarrow> string \<Rightarrow> 'a mmus_scheme \<Rightarrow> 'a mmus_scheme" where
  "mmu_table_record_page address name s =
     (if MMU_TABLE_MAX_PAGES \<le> length (table_pages s) then s
      else s\<lparr>table_pages := table_pages s @ [(address, copy_name name)], table_pages_used := add64 (table_pages_used s) 1\<rparr>)"

definition mmu_table_alloc_named_page :: "string \<Rightarrow> 'a mmus_scheme \<Rightarrow> nat \<times> 'a mmus_scheme" where
  "mmu_table_alloc_named_page name s =
     (let (table, s1) = page_alloc s in
      (table, if table \<noteq> 0 then mmu_table_record_page table name s1 else s1))"

definition mmu_table_alloc_chunk_page :: "string \<Rightarrow> nat \<Rightarrow> 'a mmus_scheme \<Rightarrow> nat \<times> 'a mmus_scheme" where
  "mmu_table_alloc_chunk_page pfx chunk_index s =
     (let (table, s1) = page_alloc s in
      if table = 0 then (0, s1) else (table, mmu_table_record_page table (set_chunk_name pfx chunk_index) s1))"

text \<open>The loop of \<open>mmu_table_release_boot_ttbr0\<close>: entries of TTBR1 tables are kept, in order, the others freed.\<close>

fun release_boot_pages :: "(nat \<times> string) list \<Rightarrow> (nat \<times> string) list \<Rightarrow> 'a mmus_scheme \<Rightarrow> (nat \<times> string) list \<times> 'a mmus_scheme" where
  "release_boot_pages [] kept s = (kept, s)"
| "release_boot_pages ((address, name) # ps) kept s =
     (if name_has_prefix name ''t1-'' then release_boot_pages ps (kept @ [(address, name)]) s
      else
        (let s1 = page_free address s;
             s2 = (if 0 < table_pages_used s1 then s1\<lparr>table_pages_used := table_pages_used s1 - 1\<rparr> else s1)
         in release_boot_pages ps kept s2))"

definition mmu_table_release_boot_ttbr0 :: "nat \<Rightarrow> 'a mmus_scheme \<Rightarrow> 'a mmus_scheme" where
  "mmu_table_release_boot_ttbr0 new_root s =
     (let (kept, s1) = release_boot_pages (table_pages s) [] s
      in mmu_table_record_page new_root ''t0-empty-root'' (s1\<lparr>table_pages := kept\<rparr>))"

definition mmu_table_page_count :: "'a mmus_scheme \<Rightarrow> nat" where
  "mmu_table_page_count s = length (table_pages s)"

definition mmu_table_page_address :: "'a mmus_scheme \<Rightarrow> nat \<Rightarrow> nat" where
  "mmu_table_page_address s index = (if index < length (table_pages s) then fst (table_pages s ! index) else 0)"

definition mmu_table_page_name :: "'a mmus_scheme \<Rightarrow> nat \<Rightarrow> string" where
  "mmu_table_page_name s index = (if index < length (table_pages s) then snd (table_pages s ! index) else ''mmu-table-invalid'')"

section \<open>The boot maps\<close>

text \<open>The linker symbols, as the virtual addresses they have.\<close>

record layout =
  text_start :: nat
  text_end :: nat
  rodata_start :: nat
  rodata_end :: nat
  data_start :: nat
  data_end :: nat
  bss_start :: nat
  bss_end :: nat
  stack_bottom :: nat
  stack_top_sym :: nat
  stack_guard :: nat
  stack_guard_end :: nat
  kernel_end :: nat

definition mmu_kernel_page_attrs :: "layout \<Rightarrow> nat \<Rightarrow> u64" where
  "mmu_kernel_page_attrs k address =
     (let pa = va_to_pa address in
      if va_to_pa (stack_guard k) \<le> pa \<and> pa < va_to_pa (stack_guard_end k) then 0
      else if va_to_pa (text_start k) \<le> pa \<and> pa < va_to_pa (text_end k)
      then MMU_ATTR_NORMAL OR MMU_AP_RO OR MMU_SH_INNER_SHAREABLE OR MMU_AF
      else if va_to_pa (rodata_start k) \<le> pa \<and> pa < va_to_pa (rodata_end k)
      then MMU_ATTR_NORMAL OR MMU_AP_RO OR MMU_SH_INNER_SHAREABLE OR MMU_AF OR MMU_PXN OR MMU_UXN
      else if va_to_pa (data_start k) \<le> pa \<and> pa < va_to_pa (data_end k)
      then MMU_ATTR_NORMAL OR MMU_AP_RW OR MMU_SH_INNER_SHAREABLE OR MMU_AF OR MMU_PXN OR MMU_UXN
      else if va_to_pa (bss_start k) \<le> pa \<and> pa < va_to_pa (bss_end k)
      then MMU_ATTR_NORMAL OR MMU_AP_RW OR MMU_SH_INNER_SHAREABLE OR MMU_AF OR MMU_PXN OR MMU_UXN
      else if va_to_pa (stack_bottom k) \<le> pa \<and> pa < va_to_pa (stack_top_sym k)
      then MMU_ATTR_NORMAL OR MMU_AP_RW OR MMU_SH_INNER_SHAREABLE OR MMU_AF OR MMU_PXN OR MMU_UXN
      else MMU_ATTR_NORMAL OR MMU_AP_RW OR MMU_SH_INNER_SHAREABLE OR MMU_AF OR MMU_PXN OR MMU_UXN)"

text \<open>The page loop of one 2 MiB chunk.\<close>

definition map_chunk_page :: "layout \<Rightarrow> nat \<Rightarrow> nat \<Rightarrow> 'a mmus_scheme \<Rightarrow> 'a mmus_scheme" where
  "map_chunk_page k l3_table address s =
     (let attrs = mmu_kernel_page_attrs k address in
      if attrs \<noteq> 0
      then tbl_set l3_table (L3_INDEX_FOR (word_of_nat address)) (word_of_nat address OR attrs OR MMU_DESC_PAGE) s
      else s)"

fun map_chunks :: "layout \<Rightarrow> string \<Rightarrow> nat \<Rightarrow> nat list \<Rightarrow> 'a mmus_scheme \<Rightarrow> bool \<times> 'a mmus_scheme" where
  "map_chunks k pfx l2 [] s = (True, s)"
| "map_chunks k pfx l2 (chunk_base # cs) s =
     (let (l3_table, s1) = mmu_table_alloc_chunk_page pfx ((chunk_base - QEMU_VIRT_RAM_BASE) div MMU_L2_BLOCK_SIZE) s in
      if l3_table = 0 then (False, s1)
      else
        (let s2 = tbl_set l2 (L2_INDEX_FOR (word_of_nat chunk_base)) (word_of_nat l3_table OR MMU_DESC_TABLE) s1
         in map_chunks k pfx l2 cs
              (fold (\<lambda>i. map_chunk_page k l3_table (chunk_base + PAGE_SIZE * i)) [0..<MMU_L2_BLOCK_SIZE div PAGE_SIZE] s2)))"

definition fine_map_end :: "layout \<Rightarrow> nat" where
  "fine_map_end k = max (align_up64 (va_to_pa (kernel_end k)) MMU_L2_BLOCK_SIZE)
     (QEMU_VIRT_RAM_BASE + MMU_KERNEL_FINE_MAP_MIN_CHUNKS * MMU_L2_BLOCK_SIZE)"

text \<open>The addresses of a \<open>for\<close> loop with a stride.\<close>

definition stride :: "nat \<Rightarrow> nat \<Rightarrow> nat \<Rightarrow> nat list" where
  "stride start till step = map (\<lambda>i. start + step * i) [0..<(till - start + step - 1) div step]"

text \<open>The three table pointers that \<open>build_generic_boot_map\<close> works on, by reference: those of the identity map or those of TTBR1.\<close>

datatype boot_map = Identity | Kernel

definition boot_tables :: "boot_map \<Rightarrow> 'a mmus_scheme \<Rightarrow> nat \<times> nat \<times> nat" where
  "boot_tables w s = (case w of Identity \<Rightarrow> (mmu_l0_table s, mmu_l1_table s, mmu_l2_ram_table s)
     | Kernel \<Rightarrow> (l0_table_ttbr1 s, l1_table_ttbr1 s, l2_ram_table_ttbr1 s))"

definition set_boot_tables :: "boot_map \<Rightarrow> nat \<times> nat \<times> nat \<Rightarrow> 'a mmus_scheme \<Rightarrow> 'a mmus_scheme" where
  "set_boot_tables w t s = (case w of
       Identity \<Rightarrow> s\<lparr>mmu_l0_table := fst t, mmu_l1_table := fst (snd t), mmu_l2_ram_table := snd (snd t)\<rparr>
     | Kernel \<Rightarrow> s\<lparr>l0_table_ttbr1 := fst t, l1_table_ttbr1 := fst (snd t), l2_ram_table_ttbr1 := snd (snd t)\<rparr>)"

definition alloc_boot_table :: "string \<Rightarrow> nat \<Rightarrow> 'a mmus_scheme \<Rightarrow> nat \<times> 'a mmus_scheme" where
  "alloc_boot_table pfx t s = (if t = 0 then mmu_table_alloc_named_page pfx s else (t, s))"

definition build_generic_boot_map :: "layout \<Rightarrow> boot_map \<Rightarrow> string \<Rightarrow> 'a mmus_scheme \<Rightarrow> bool \<times> 'a mmus_scheme" where
  "build_generic_boot_map k w pfx s0 =
     (let (l0, s1) = alloc_boot_table pfx (fst (boot_tables w s0)) s0;
          (l1, s2) = alloc_boot_table pfx (fst (snd (boot_tables w s0))) s1;
          (l2, s3) = alloc_boot_table pfx (snd (snd (boot_tables w s0))) s2;
          s4 = set_boot_tables w (l0, l1, l2) s3
      in if l0 = 0 \<or> l1 = 0 \<or> l2 = 0 then (False, s4)
         else
           (let s5 = tbl_set l1 (L1_INDEX_FOR 0)
                      (MMU_ATTR_DEVICE OR MMU_AP_RW OR MMU_SH_NON_SHAREABLE OR MMU_AF OR MMU_PXN OR MMU_UXN OR MMU_DESC_BLOCK) s4;
                s6 = tbl_set l0 (L0_INDEX_FOR 0) (word_of_nat l1 OR MMU_DESC_TABLE) s5;
                s7 = tbl_set l1 (L1_INDEX_FOR (word_of_nat QEMU_VIRT_RAM_BASE)) (word_of_nat l2 OR MMU_DESC_TABLE) s6;
                s8 = (if l2 = mmu_l2_ram_table s7
                      then s7\<lparr>mmu_fine_map_chunks_used := (fine_map_end k - QEMU_VIRT_RAM_BASE) div MMU_L2_BLOCK_SIZE\<rparr> else s7);
                (ok, s9) = map_chunks k pfx l2 (stride QEMU_VIRT_RAM_BASE (fine_map_end k) MMU_L2_BLOCK_SIZE) s8
            in if \<not> ok then (False, s9)
               else (True,
                 fold (\<lambda>address. tbl_set l2 (L2_INDEX_FOR (word_of_nat address))
                        (word_of_nat address OR MMU_ATTR_NORMAL OR MMU_AP_RW OR MMU_SH_INNER_SHAREABLE OR MMU_AF OR MMU_PXN OR MMU_UXN OR
                         MMU_DESC_BLOCK))
                   (stride (fine_map_end k) (QEMU_VIRT_RAM_BASE + QEMU_VIRT_RAM_SIZE) MMU_L2_BLOCK_SIZE) s9)))"

definition mmu_build_identity_map :: "layout \<Rightarrow> 'a mmus_scheme \<Rightarrow> bool \<times> 'a mmus_scheme" where
  "mmu_build_identity_map k s = build_generic_boot_map k Identity ''id'' s"

definition build_kernel_map :: "layout \<Rightarrow> 'a mmus_scheme \<Rightarrow> bool \<times> 'a mmus_scheme" where
  "build_kernel_map k s = build_generic_boot_map k Kernel ''t1-'' s"

text \<open>The system registers of one CPU: the roots are set and the TLB is emptied; memory attributes and the control
  registers are constants and have no state.\<close>

definition mmu_setup_core :: "nat \<Rightarrow> 'a mmus_scheme \<Rightarrow> 'a mmus_scheme" where
  "mmu_setup_core cpu s =
     tlb TLBI_ALL (s\<lparr>ttbr0 := (ttbr0 s)(cpu := word_of_nat (mmu_l0_table s)), ttbr1 := (ttbr1 s)(cpu := word_of_nat (l0_table_ttbr1 s))\<rparr>)"

definition mmu_init :: "layout \<Rightarrow> nat \<Rightarrow> 'a mmus_scheme \<Rightarrow> 'a mmus_scheme" where
  "mmu_init k cpu s =
     (if mmu_enabled s then s
      else
        (let (ok, s1) = mmu_build_identity_map k (mmu_table_registry_reset s) in
         if \<not> ok then s1
         else
           (let (ok, s2) = build_kernel_map k s1 in
            if \<not> ok then s2 else (mmu_setup_core cpu s2)\<lparr>mmu_enabled := True\<rparr>)))"

definition mmu_init_secondary :: "nat \<Rightarrow> 'a mmus_scheme \<Rightarrow> 'a mmus_scheme" where
  "mmu_init_secondary cpu s = mmu_setup_core cpu s"

end
