(* ===== verification/Mmu.thy ===== *)
theory Mmu
  imports Mmu_Table
begin

text \<open>
  User address spaces, \<^verbatim>\<open>src/src/kernel/mmu_vmsa.c\<close>: address-space identifiers, the pages an address space owns, walking and
  changing its four levels of tables, page faults with lazy allocation and copy-on-write, fork, user copies, and the life cycle of an
  \<open>mm_context\<close> that several tasks and CPUs share.  A context is the address of its heap object, 0 for null.  A function that
  frees the context, and so calls \<open>kfree\<close>, has an optional result.  Every section under a spinlock is one step; the CPU that runs
  a function is its first argument.
\<close>

section \<open>Bytes of physical memory\<close>

definition load8 :: "'a palloc_scheme \<Rightarrow> nat \<Rightarrow> u8" where
  "load8 s ptr = (let a = cpu_pa s ptr in ucast (drop_bit (8 * (a mod 8)) (mem s (a - a mod 8))))"

definition store8 :: "nat \<Rightarrow> u8 \<Rightarrow> 'a palloc_scheme \<Rightarrow> 'a palloc_scheme" where
  "store8 ptr b s =
     (let a = cpu_pa s ptr; k = 8 * (a mod 8); w = mem s (a - a mod 8)
      in s\<lparr>mem := (mem s)(a - a mod 8 := (w AND NOT (push_bit k 0xFF)) OR push_bit k (ucast b))\<rparr>)"

section \<open>Address-space identifiers\<close>

abbreviation MMU_ASID_MAX :: nat where "MMU_ASID_MAX \<equiv> 255"

definition mmu_tlbi_asid :: "nat \<Rightarrow> 'a mmus_scheme \<Rightarrow> 'a mmus_scheme" where
  "mmu_tlbi_asid asid s = (if asid = 0 then s else tlb (TLBI_ASID asid) s)"

definition mmu_asid_set :: "nat \<Rightarrow> 'a mmus_scheme \<Rightarrow> 'a mmus_scheme" where
  "mmu_asid_set asid s = s\<lparr>asid_bitmap := (asid_bitmap s)(asid div 64 := asid_bitmap s (asid div 64) OR push_bit (asid mod 64) 1)\<rparr>"

definition mmu_asid_clear :: "nat \<Rightarrow> 'a mmus_scheme \<Rightarrow> 'a mmus_scheme" where
  "mmu_asid_clear asid s = s\<lparr>asid_bitmap := (asid_bitmap s)(asid div 64 := asid_bitmap s (asid div 64) AND NOT (push_bit (asid mod 64) 1))\<rparr>"

definition mmu_asid_test :: "'a mmus_scheme \<Rightarrow> nat \<Rightarrow> bool" where
  "mmu_asid_test s asid \<longleftrightarrow> asid_bitmap s (asid div 64) AND push_bit (asid mod 64) 1 \<noteq> 0"

text \<open>The loop of \<open>mmu_asid_alloc\<close>, with the attempts that are left.\<close>

fun asid_attempts :: "nat \<Rightarrow> 'a mmus_scheme \<Rightarrow> nat \<times> 'a mmus_scheme" where
  "asid_attempts 0 s = (0, s)"
| "asid_attempts (Suc n) s =
     (let asid = next_asid s;
          s1 = s\<lparr>next_asid := (if MMU_ASID_MAX < next_asid s + 1 then 1 else next_asid s + 1)\<rparr>
      in if asid = 0 \<or> MMU_ASID_MAX < asid \<or> mmu_asid_test s1 asid then asid_attempts n s1
         else (asid, mmu_tlbi_asid asid (mmu_asid_set asid s1)))"

definition mmu_asid_alloc :: "'a mmus_scheme \<Rightarrow> nat \<times> 'a mmus_scheme" where
  "mmu_asid_alloc s = asid_attempts MMU_ASID_MAX s"

definition mmu_asid_free :: "nat \<Rightarrow> 'a mmus_scheme \<Rightarrow> 'a mmus_scheme" where
  "mmu_asid_free asid s =
     (if asid = 0 \<or> MMU_ASID_MAX < asid then s
      else if \<not> mmu_asid_test s asid then s
      else mmu_asid_clear asid (mmu_tlbi_asid asid s))"

section \<open>The pages an address space owns\<close>

abbreviation MM_MAX_TRACKED_PAGES :: nat where "MM_MAX_TRACKED_PAGES \<equiv> 256"

definition mmu_context_has_page_locked :: "'a mmus_scheme \<Rightarrow> nat \<Rightarrow> nat \<Rightarrow> bool" where
  "mmu_context_has_page_locked s mm pa \<longleftrightarrow> mm \<noteq> 0 \<and> List.member (mm_pages (mm_st s mm)) pa"

definition mmu_context_add_page_locked :: "nat \<Rightarrow> nat \<Rightarrow> 'a mmus_scheme \<Rightarrow> bool \<times> 'a mmus_scheme" where
  "mmu_context_add_page_locked mm pa s =
     (if mm = 0 \<or> pa = 0 then (False, s)
      else if mmu_context_has_page_locked s mm pa then (True, s)
      else if MM_MAX_TRACKED_PAGES \<le> length (mm_pages (mm_st s mm)) then (False, s)
      else (True, upd_mm mm (\<lambda>m. m\<lparr>mm_pages := mm_pages m @ [pa]\<rparr>) s))"

definition mmu_context_remove_page_locked :: "nat \<Rightarrow> nat \<Rightarrow> 'a mmus_scheme \<Rightarrow> bool \<times> 'a mmus_scheme" where
  "mmu_context_remove_page_locked mm pa s =
     (if mm = 0 \<or> pa = 0 then (False, s)
      else if List.member (mm_pages (mm_st s mm)) pa
      then (True, upd_mm mm (\<lambda>m. m\<lparr>mm_pages := remove1 pa (mm_pages m)\<rparr>) s)
      else (False, s))"

definition mmu_context_add_page :: "nat \<Rightarrow> nat \<Rightarrow> 'a mmus_scheme \<Rightarrow> bool \<times> 'a mmus_scheme" where
  "mmu_context_add_page mm pa s = (if mm = 0 \<or> pa = 0 then (False, s) else mmu_context_add_page_locked mm pa s)"

definition mmu_context_remove_page :: "nat \<Rightarrow> nat \<Rightarrow> 'a mmus_scheme \<Rightarrow> bool \<times> 'a mmus_scheme" where
  "mmu_context_remove_page mm pa s = (if mm = 0 \<or> pa = 0 then (False, s) else mmu_context_remove_page_locked mm pa s)"

definition mmu_alloc_sub_table_locked :: "nat \<Rightarrow> string \<Rightarrow> 'a mmus_scheme \<Rightarrow> nat \<times> 'a mmus_scheme" where
  "mmu_alloc_sub_table_locked mm name s =
     (let (new_page, s1) = page_alloc s in
      if new_page = 0 then (0, s1)
      else
        (let (ok, s2) = mmu_context_add_page_locked mm (va_to_pa new_page) s1 in
         if \<not> ok then (0, page_free new_page s2)
         else (new_page, mmu_table_record_page (va_to_pa new_page) name (zero_words (pa_to_va (va_to_pa new_page)) 0 512 s2))))"

section \<open>Walking the tables\<close>

definition is_table :: "u64 \<Rightarrow> bool" where
  "is_table entry \<longleftrightarrow> \<not> (entry AND MMU_DESC_VALID = 0 \<or> entry AND MMU_DESC_TYPE_MASK \<noteq> MMU_DESC_TABLE)"

text \<open>The result is the level 3 table and the index of the entry in it.\<close>

definition mmu_resolve_user_page_desc :: "'a mmus_scheme \<Rightarrow> nat \<Rightarrow> u64 \<Rightarrow> (nat \<times> nat) option" where
  "mmu_resolve_user_page_desc s mm va =
     (if mm = 0 then None
      else
        (let l0 = pa_to_va (root_pa (mm_st s mm)); entry = tbl_get s l0 (L0_INDEX_FOR va) in
         if \<not> is_table entry then None
         else
           (let l1 = pa_to_va (desc_addr entry); entry = tbl_get s l1 (L1_INDEX_FOR va) in
            if \<not> is_table entry then None
            else
              (let l2 = pa_to_va (desc_addr entry); entry = tbl_get s l2 (L2_INDEX_FOR va) in
               if \<not> is_table entry then None
               else Some (pa_to_va (desc_addr entry), L3_INDEX_FOR va)))))"

definition mmu_resolve_user_page :: "'a mmus_scheme \<Rightarrow> nat \<Rightarrow> u64 \<Rightarrow> (nat \<times> u64) option" where
  "mmu_resolve_user_page s mm va =
     (case mmu_resolve_user_page_desc s mm va of
        None \<Rightarrow> None
      | Some (l3, i) \<Rightarrow>
          (let entry = tbl_get s l3 i in
           if entry AND MMU_DESC_VALID = 0 \<or> entry AND MMU_DESC_TYPE_MASK \<noteq> MMU_DESC_PAGE then None
           else Some (desc_addr entry, entry)))"

abbreviation MMU_USER_PAGE_NORMAL :: u64 where "MMU_USER_PAGE_NORMAL \<equiv> 0x4"
abbreviation MMU_USER_PAGE_AF :: u64 where "MMU_USER_PAGE_AF \<equiv> 0x400"
abbreviation MMU_USER_PAGE_INNER_SH :: u64 where "MMU_USER_PAGE_INNER_SH \<equiv> 0x300"
abbreviation MMU_USER_PAGE_AP_RO :: u64 where "MMU_USER_PAGE_AP_RO \<equiv> 0xC0"
abbreviation MMU_USER_PAGE_AP_RW :: u64 where "MMU_USER_PAGE_AP_RW \<equiv> 0x40"
abbreviation MMU_USER_PAGE_UXN :: u64 where "MMU_USER_PAGE_UXN \<equiv> 0x40000000000000"
abbreviation MMU_USER_PAGE_PXN :: u64 where "MMU_USER_PAGE_PXN \<equiv> 0x20000000000000"

definition mmu_user_access_allowed :: "u64 \<Rightarrow> bool \<Rightarrow> bool" where
  "mmu_user_access_allowed entry write =
     (let ap_bits = entry AND 0xC0 in
      if write then ap_bits = MMU_USER_PAGE_AP_RW
      else ap_bits = MMU_USER_PAGE_AP_RW \<or> ap_bits = MMU_USER_PAGE_AP_RO)"

definition mmu_user_page_pa :: "'a mmus_scheme \<Rightarrow> nat \<Rightarrow> u64 \<Rightarrow> nat option" where
  "mmu_user_page_pa s mm va = (if mm = 0 then None else map_option fst (mmu_resolve_user_page s mm va))"

section \<open>Changing the tables\<close>

definition mmu_split_block_locked :: "nat \<Rightarrow> nat \<Rightarrow> nat \<Rightarrow> nat \<Rightarrow> 'a mmus_scheme \<Rightarrow> 'a mmus_scheme" where
  "mmu_split_block_locked mm tbl idx level s =
     (let entry = tbl_get s tbl idx;
          block_pa = entry AND MMU_DESC_ADDR_MASK;
          block_attrs = entry AND NOT MMU_DESC_ADDR_MASK;
          step = word_of_nat (if level = 1 then MMU_L2_BLOCK_SIZE else PAGE_SIZE);
          next_type = (if level = 1 then MMU_DESC_BLOCK else MMU_DESC_PAGE);
          (new_page, s1) = mmu_alloc_sub_table_locked mm (if level = 1 then ''split-l2'' else ''split-l3'') s
      in if new_page = 0 then s1
         else
           (let s2 = fold (\<lambda>i. tbl_set (pa_to_va new_page) i ((block_pa + word_of_nat i * step) OR block_attrs OR next_type)) [0..<512] s1
            in tbl_set tbl idx (word_of_nat (va_to_pa new_page) OR MMU_DESC_TABLE) s2))"

text \<open>The two steps that \<open>mmu_find_pte_locked\<close> takes at a level: split a block, and allocate a table that is missing.  The result says
  whether to go on.\<close>

definition pte_split :: "nat \<Rightarrow> nat \<Rightarrow> nat \<Rightarrow> bool \<Rightarrow> nat \<Rightarrow> 'a mmus_scheme \<Rightarrow> bool \<times> 'a mmus_scheme" where
  "pte_split mm tbl idx create level s =
     (let e = tbl_get s tbl idx in
      if e AND MMU_DESC_VALID \<noteq> 0 \<and> e AND MMU_DESC_TYPE_MASK = MMU_DESC_BLOCK
      then (if \<not> create then (False, s) else (True, mmu_split_block_locked mm tbl idx level s))
      else (True, s))"

definition pte_table :: "nat \<Rightarrow> nat \<Rightarrow> nat \<Rightarrow> bool \<Rightarrow> string \<Rightarrow> 'a mmus_scheme \<Rightarrow> bool \<times> 'a mmus_scheme" where
  "pte_table mm tbl idx create name s =
     (if tbl_get s tbl idx AND MMU_DESC_VALID = 0 then
        (if \<not> create then (False, s)
         else
           (let (new_page, s1) = mmu_alloc_sub_table_locked mm name s in
            if new_page = 0 then (False, s1)
            else (True, tbl_set tbl idx (word_of_nat (va_to_pa new_page) OR MMU_DESC_TABLE) s1)))
      else (True, s))"

definition mmu_find_pte_locked :: "nat \<Rightarrow> u64 \<Rightarrow> bool \<Rightarrow> 'a mmus_scheme \<Rightarrow> nat \<times> 'a mmus_scheme" where
  "mmu_find_pte_locked mm va create s =
     (if mm = 0 then (0, s)
      else
        (let l0 = pa_to_va (root_pa (mm_st s mm));
             (ok, s1) = pte_table mm l0 (L0_INDEX_FOR va) create ''l1'' s
         in if \<not> ok then (0, s1)
         else
           (let l1 = pa_to_va (desc_addr (tbl_get s1 l0 (L0_INDEX_FOR va)));
                (ok, s2) = pte_split mm l1 (L1_INDEX_FOR va) create 1 s1
            in if \<not> ok then (0, s2)
            else
              (let (ok, s3) = pte_table mm l1 (L1_INDEX_FOR va) create ''l2'' s2
               in if \<not> ok then (0, s3)
               else
                 (let l2 = pa_to_va (desc_addr (tbl_get s3 l1 (L1_INDEX_FOR va)));
                      (ok, s4) = pte_split mm l2 (L2_INDEX_FOR va) create 2 s3
                  in if \<not> ok then (0, s4)
                  else
                    (let (ok, s5) = pte_table mm l2 (L2_INDEX_FOR va) create ''l3'' s4
                     in if \<not> ok then (0, s5)
                     else (pa_to_va (desc_addr (tbl_get s5 l2 (L2_INDEX_FOR va))), s5)))))))"

definition mmu_map_user_page_locked :: "nat \<Rightarrow> u64 \<Rightarrow> nat \<Rightarrow> u64 \<Rightarrow> 'a mmus_scheme \<Rightarrow> bool \<times> 'a mmus_scheme" where
  "mmu_map_user_page_locked mm va pa flags s =
     (if mm = 0 then (False, s)
      else
        (let (l3, s1) = mmu_find_pte_locked mm va True s in
         if l3 = 0 then (False, s1)
         else
           (let s2 = tbl_set l3 (L3_INDEX_FOR va) ((word_of_nat pa AND MMU_DESC_ADDR_MASK) OR flags OR MMU_DESC_PAGE OR 0x800) s1
            in (True, tlb (TLBI_VA (mm_asid (mm_st s2 mm)) va) s2))))"

definition mmu_map_user_page :: "nat \<Rightarrow> u64 \<Rightarrow> nat \<Rightarrow> u64 \<Rightarrow> 'a mmus_scheme \<Rightarrow> bool \<times> 'a mmus_scheme" where
  "mmu_map_user_page mm va pa flags s = (if mm = 0 then (False, s) else mmu_map_user_page_locked mm va pa flags s)"

text \<open>The scan of \<open>mmu_try_merge_table_locked\<close>: all 512 entries continue the first one.\<close>

definition merge_entries :: "'a mmus_scheme \<Rightarrow> nat \<Rightarrow> nat \<Rightarrow> nat \<Rightarrow> u64 \<Rightarrow> bool" where
  "merge_entries s table block_size sub_step sub_type \<longleftrightarrow>
     list_all (\<lambda>i.
       (let e = tbl_get s table i; cur_pa = desc_addr e; cur_attrs = e AND NOT MMU_DESC_ADDR_MASK; base = tbl_get s table 0 in
        e AND MMU_DESC_VALID \<noteq> 0 \<and> e AND MMU_DESC_TYPE_MASK = sub_type \<and>
        (if i = 0 then cur_pa AND (block_size - 1) = 0
         else cur_pa = desc_addr base + i * sub_step \<and> cur_attrs = base AND NOT MMU_DESC_ADDR_MASK))) [0..<512]"

function mmu_try_merge_table_locked :: "nat \<Rightarrow> u64 \<Rightarrow> nat \<Rightarrow> 'a mmus_scheme \<Rightarrow> 'a mmus_scheme" where
  "mmu_try_merge_table_locked mm va level s =
     (let block_size = (if level = 2 then MMU_L1_BLOCK_SIZE else MMU_L2_BLOCK_SIZE);
          sub_step = (if level = 2 then MMU_L2_BLOCK_SIZE else PAGE_SIZE);
          sub_type = (if level = 2 then MMU_DESC_BLOCK else MMU_DESC_PAGE);
          l0 = pa_to_va (root_pa (mm_st s mm));
          l1 = pa_to_va (desc_addr (tbl_get s l0 (L0_INDEX_FOR va)));
          l2 = pa_to_va (desc_addr (tbl_get s l1 (L1_INDEX_FOR va)));
          table = (if level = 2 then l1 else if level = 3 then pa_to_va (desc_addr (tbl_get s l2 (L2_INDEX_FOR va))) else l2)
      in if \<not> merge_entries s table block_size sub_step sub_type then s
         else
           (let base = tbl_get s table 0;
                parent = (if level = 2 then l0 else if level = 3 then l2 else l1);
                idx = (if level = 2 then L0_INDEX_FOR va else if level = 3 then L2_INDEX_FOR va else L1_INDEX_FOR va);
                table_pa = desc_addr (tbl_get s parent idx);
                s1 = tbl_set parent idx
                       ((base AND MMU_DESC_ADDR_MASK) OR (base AND NOT MMU_DESC_ADDR_MASK AND NOT MMU_DESC_TYPE_MASK) OR MMU_DESC_BLOCK) s;
                s2 = page_free table_pa (snd (mmu_context_remove_page_locked mm table_pa s1));
                s3 = tlb (TLBI_VA (mm_asid (mm_st s2 mm)) (va AND NOT (word_of_nat block_size - 1))) s2
            in if 2 < level then mmu_try_merge_table_locked mm va (level - 1) s3 else s3))"
  by pat_completeness auto
termination
  by (relation "measure (\<lambda>(mm, va, level, s). level)") auto

definition mmu_unmap_user_page :: "nat \<Rightarrow> u64 \<Rightarrow> 'a mmus_scheme \<Rightarrow> bool \<times> 'a mmus_scheme" where
  "mmu_unmap_user_page mm va s =
     (if mm = 0 then (False, s)
      else
        (let (l3, s1) = mmu_find_pte_locked mm va False s in
         if l3 = 0 then (False, s1)
         else
           (let idx = L3_INDEX_FOR va in
            if tbl_get s1 l3 idx AND MMU_DESC_VALID = 0 then (False, s1)
            else
              (let s2 = tbl_set l3 idx 0 s1;
                   s3 = tlb (TLBI_VA (mm_asid (mm_st s2 mm)) va) s2
               in (True, mmu_try_merge_table_locked mm va 3 s3)))))"

text \<open>One round of the loop of \<open>mmu_unmap_user_range\<close>; the entry that it reads and clears is the one that the pointer
  points to, which is entry 0 of the level 3 table.\<close>

definition unmap_range_page :: "nat \<Rightarrow> u64 \<Rightarrow> 'a mmus_scheme \<Rightarrow> 'a mmus_scheme" where
  "unmap_range_page mm curr_va s =
     (let (pte, s1) = mmu_find_pte_locked mm curr_va False s in
      if pte \<noteq> 0 \<and> tbl_get s1 pte 0 AND MMU_DESC_VALID \<noteq> 0 then
        (let pa = desc_addr (tbl_get s1 pte 0);
             s2 = tbl_set pte 0 0 s1;
             s3 = snd (mmu_context_remove_page_locked mm pa s2);
             s4 = snd (page_ref_dec pa s3)
         in tlb (TLBI_VA (mm_asid (mm_st s4 mm)) curr_va) s4)
      else s1)"

definition mmu_unmap_user_range :: "nat \<Rightarrow> u64 \<Rightarrow> u64 \<Rightarrow> 'a mmus_scheme \<Rightarrow> 'a mmus_scheme" where
  "mmu_unmap_user_range mm va len s =
     (if mm = 0 \<or> len = 0 then s
      else
        (let start = va AND NOT 0xFFF; stop = (va + len + 0xFFF) AND NOT 0xFFF
         in fold (\<lambda>i. unmap_range_page mm (start + word_of_nat (PAGE_SIZE * i))) [0..<(unat stop - unat start) div PAGE_SIZE] s))"

section \<open>Page faults\<close>

abbreviation USER_HEAP_BASE :: u64 where "USER_HEAP_BASE \<equiv> 0x10000000"
abbreviation USER_STACK_TOP :: u64 where "USER_STACK_TOP \<equiv> 0x80000000"

text \<open>Copying a page byte by byte, and bytes of an image in kernel memory to a page.\<close>

definition copy_page_bytes :: "nat \<Rightarrow> nat \<Rightarrow> nat \<Rightarrow> 'a palloc_scheme \<Rightarrow> 'a palloc_scheme" where
  "copy_page_bytes dst src n s = fold (\<lambda>i s. store8 (dst + i) (load8 s (src + i)) s) [0..<n] s"

definition copy_image_bytes :: "nat \<Rightarrow> nat \<Rightarrow> nat \<Rightarrow> 'a fsys_scheme \<Rightarrow> 'a fsys_scheme" where
  "copy_image_bytes dst src n s = fold (\<lambda>i s. store8 (dst + i) (kbytes s (src + i)) s) [0..<n] s"

definition zero_page_bytes :: "nat \<Rightarrow> 'a palloc_scheme \<Rightarrow> 'a palloc_scheme" where
  "zero_page_bytes dst s = fold (\<lambda>i. store8 (dst + i) 0) [0..<PAGE_SIZE] s"

text \<open>The copy-on-write branch, for the entry \<open>i\<close> of the level 3 table.\<close>

definition cow_fault :: "nat \<Rightarrow> u64 \<Rightarrow> nat \<Rightarrow> nat \<Rightarrow> 'a mmus_scheme \<Rightarrow> bool \<times> 'a mmus_scheme" where
  "cow_fault mm far l3 i s =
     (let entry = tbl_get s l3 i; old_pa = desc_addr entry; page_va = far AND NOT 0xFFF in
      if page_ref_get s old_pa = 1
      then (True, tlb (TLBI_VA (mm_asid (mm_st s mm)) page_va)
                    (tbl_set l3 i ((entry AND NOT MMU_AP_RO AND NOT MMU_DESC_SOFTWARE_COW) OR MMU_AP_RW) s))
      else
        (let (copy_page, s1) = page_alloc s in
         if copy_page = 0 then (False, s1)
         else
           (let s2 = copy_page_bytes (pa_to_va copy_page) (pa_to_va old_pa) PAGE_SIZE s1;
                (ok, s3) = mmu_context_add_page_locked mm (va_to_pa copy_page) s2
            in if \<not> ok then (False, page_free copy_page s3)
               else
                 (let s4 = tbl_set l3 i ((word_of_nat (va_to_pa copy_page) AND MMU_DESC_ADDR_MASK) OR
                             (entry AND NOT MMU_DESC_ADDR_MASK AND NOT MMU_AP_RO AND NOT MMU_DESC_SOFTWARE_COW) OR MMU_AP_RW) s3;
                      s5 = snd (mmu_context_remove_page_locked mm old_pa s4);
                      s6 = snd (page_ref_dec old_pa s5)
                  in (True, tlb (TLBI_VA (mm_asid (mm_st s6 mm)) page_va) s6)))))"

text \<open>The last region that holds an address: later regions hide earlier ones.\<close>

definition find_region :: "process \<Rightarrow> u64 \<Rightarrow> vm_region option" where
  "find_region p far = find (\<lambda>r. rg_start r \<le> far \<and> far < rg_end r) (rev (regions p))"

text \<open>Owning and mapping a page that is filled, which both lazy branches end with.\<close>

definition publish_page :: "nat \<Rightarrow> u64 \<Rightarrow> nat \<Rightarrow> u64 \<Rightarrow> 'a mmus_scheme \<Rightarrow> bool \<times> 'a mmus_scheme" where
  "publish_page mm page_va new_page flags s =
     (let (ok, s1) = mmu_context_add_page_locked mm (va_to_pa new_page) s in
      if \<not> ok then (False, page_free new_page s1)
      else
        (let (ok, s2) = mmu_map_user_page_locked mm page_va (va_to_pa new_page) flags s1 in
         if \<not> ok then (False, page_free new_page (snd (mmu_context_remove_page_locked mm (va_to_pa new_page) s2)))
         else (True, s2)))"

definition fill_region_page :: "vm_region \<Rightarrow> u64 \<Rightarrow> nat \<Rightarrow> 'a mmus_scheme \<Rightarrow> 'a mmus_scheme" where
  "fill_region_page r page_va new_page s =
     (let s1 = zero_page_bytes (pa_to_va new_page) s; region_offset = page_va - rg_start r in
      if rg_type r = VM_TYPE_ELF \<and> elf_image r \<noteq> 0 \<and> region_offset < file_size r
      then copy_image_bytes (pa_to_va new_page) (elf_image r + unat (elf_offset r + region_offset))
             (min PAGE_SIZE (unat (file_size r - region_offset))) s1
      else s1)"

definition mmu_handle_process_page_fault_locked :: "nat \<Rightarrow> u64 \<Rightarrow> u64 \<Rightarrow> 'a mmus_scheme \<Rightarrow> bool \<times> 'a mmus_scheme" where
  "mmu_handle_process_page_fault_locked p far esr s =
     (if \<not> mmu_enabled s then (False, s)
      else if p = 0 \<or> pr_mm (proc_st s p) = 0 then (False, s)
      else
        (let mm = pr_mm (proc_st s p); fsc_type = esr AND 0x3F AND 0x3C; page_va = far AND NOT 0xFFF in
         if fsc_type = 0x04 \<and> mmu_resolve_user_page s mm far \<noteq> None then (True, s)
         else if fsc_type = 0x0C then
           (case mmu_resolve_user_page_desc s mm far of
              None \<Rightarrow> (False, s)
            | Some (l3, i) \<Rightarrow>
                (let entry = tbl_get s l3 i in
                 if entry AND MMU_DESC_VALID \<noteq> 0 \<and> entry AND MMU_AP_RO = MMU_AP_RO \<and> entry AND MMU_DESC_SOFTWARE_COW \<noteq> 0
                 then cow_fault mm far l3 i s else (False, s)))
         else if fsc_type = 0x04 then
           (case find_region (proc_st s p) far of
              Some r \<Rightarrow>
                (let (new_page, s1) = page_alloc s in
                 if new_page = 0 then (False, s1)
                 else publish_page mm page_va new_page (rg_flags r) (fill_region_page r page_va new_page s1))
            | None \<Rightarrow>
                if (USER_HEAP_BASE \<le> far \<and> far < pr_brk (proc_st s p)) \<or> (USER_STACK_TOP - 0x100000 \<le> far \<and> far < USER_STACK_TOP) then
                  (let (new_page, s1) = page_alloc s in
                   if new_page = 0 then (False, s1)
                   else publish_page mm page_va new_page
                          (MMU_USER_PAGE_NORMAL OR MMU_USER_PAGE_AF OR MMU_USER_PAGE_INNER_SH OR MMU_USER_PAGE_AP_RW OR
                           MMU_USER_PAGE_UXN OR MMU_USER_PAGE_PXN) s1)
                else (False, s))
         else (False, s)))"

definition mmu_handle_process_page_fault :: "nat \<Rightarrow> u64 \<Rightarrow> u64 \<Rightarrow> 'a mmus_scheme \<Rightarrow> bool \<times> 'a mmus_scheme" where
  "mmu_handle_process_page_fault p far esr s =
     (if \<not> mmu_enabled s \<or> p = 0 then (False, s)
      else if pr_mm (proc_st s p) = 0 then (False, s)
      else mmu_handle_process_page_fault_locked p far esr s)"

text \<open>\<open>cur_process\<close> is the process of the current task, 0 if it has none.\<close>

definition mmu_handle_page_fault :: "nat \<Rightarrow> u64 \<Rightarrow> u64 \<Rightarrow> 'a mmus_scheme \<Rightarrow> bool \<times> 'a mmus_scheme" where
  "mmu_handle_page_fault cur_process far esr s =
     (if cur_process = 0 then (False, s) else mmu_handle_process_page_fault cur_process far esr s)"

section \<open>Copies between the kernel and user space\<close>

text \<open>\<open>cur\<close> is the context and the process of the current task, when it has both.  The kernel buffer is a list of bytes and a position
  in it; the loop goes on with the same page after a fault that was resolved.\<close>

partial_function (option) mmu_copy_user_range ::
    "(nat \<times> nat) option \<Rightarrow> nat \<Rightarrow> u8 list \<Rightarrow> nat \<Rightarrow> u64 \<Rightarrow> nat \<Rightarrow> bool \<Rightarrow> 'a mmus_scheme \<Rightarrow> (bool \<times> u8 list \<times> 'a mmus_scheme) option" where
  "mmu_copy_user_range cur mm buf pos user_va len write s =
     (if len = 0 then Some (True, buf, s)
      else
        (let fault = (\<lambda>esr. case cur of
               Some (cmm, p) \<Rightarrow> if cmm = mm \<and> p \<noteq> 0 then mmu_handle_process_page_fault p user_va esr s else (False, s)
             | None \<Rightarrow> (False, s))
         in case mmu_resolve_user_page s mm user_va of
           None \<Rightarrow>
             (if fst (fault 0x04) then mmu_copy_user_range cur mm buf pos user_va len write (snd (fault 0x04))
              else Some (False, buf, snd (fault 0x04)))
         | Some (page_pa, entry) \<Rightarrow>
             if \<not> mmu_user_access_allowed entry write then
               (if write then
                  (if fst (fault 0x0F) then mmu_copy_user_range cur mm buf pos user_va len write (snd (fault 0x0F))
                   else Some (False, buf, snd (fault 0x0F)))
                else Some (False, buf, s))
             else
               (let page_offset = unat (user_va AND 0xFFF);
                    chunk = min (PAGE_SIZE - page_offset) len;
                    page_va = pa_to_va (page_pa + page_offset)
                in mmu_copy_user_range cur mm
                     (if write then buf else fold (\<lambda>i b. b[pos + i := load8 s (page_va + i)]) [0..<chunk] buf)
                     (pos + chunk) (user_va + word_of_nat chunk) (len - chunk) write
                     (if write then fold (\<lambda>i. store8 (page_va + i) (buf ! (pos + i))) [0..<chunk] s else s))))"

definition mmu_copy_from_user ::
    "(nat \<times> nat) option \<Rightarrow> nat \<Rightarrow> u8 list option \<Rightarrow> u64 \<Rightarrow> nat \<Rightarrow> 'a mmus_scheme \<Rightarrow> (bool \<times> u8 list \<times> 'a mmus_scheme) option" where
  "mmu_copy_from_user cur mm dst src_va len s =
     (if len = 0 then Some (True, (case dst of None \<Rightarrow> [] | Some b \<Rightarrow> b), s)
      else case dst of None \<Rightarrow> Some (False, [], s) | Some b \<Rightarrow> mmu_copy_user_range cur mm b 0 src_va len False s)"

definition mmu_copy_to_user ::
    "(nat \<times> nat) option \<Rightarrow> nat \<Rightarrow> u64 \<Rightarrow> u8 list option \<Rightarrow> nat \<Rightarrow> 'a mmus_scheme \<Rightarrow> (bool \<times> 'a mmus_scheme) option" where
  "mmu_copy_to_user cur mm dst_va src len s =
     (if len = 0 then Some (True, s)
      else case src of None \<Rightarrow> Some (False, s)
           | Some b \<Rightarrow> do { (ok, _, s1) \<leftarrow> mmu_copy_user_range cur mm b 0 dst_va len True s; Some (ok, s1) })"

section \<open>Life cycle\<close>

text \<open>\<open>sizeof (struct mm_context)\<close>: root, identifier, lock, three counters, 256 page addresses and their count.\<close>

abbreviation sizeof_mm_context :: nat where "sizeof_mm_context \<equiv> 2088"

definition mmu_context_create :: "'a mmus_scheme \<Rightarrow> (nat \<times> 'a mmus_scheme) option" where
  "mmu_context_create s = do {
     (mm, s1) \<leftarrow> kmalloc sizeof_mm_context s;
     if mm = 0 then Some (0, s1)
     else do {
       let (root, s2) = page_alloc s1;
       if root = 0 then do { s3 \<leftarrow> kfree mm s2; Some (0, s3) }
       else do {
         let (asid, s3) = mmu_asid_alloc s2;
         let s4 = upd_mm mm (\<lambda>_. \<lparr>root_pa = root, mm_asid = asid, mm_refs = 1, mm_dying = False, active_cpu_mask = 0, mm_pages = []\<rparr>) s3;
         if asid = 0 then do { s5 \<leftarrow> kfree mm (page_free root s4); Some (0, s5) }
         else do {
           let (ok, s5) = mmu_context_add_page mm root s4;
           if \<not> ok then do { s6 \<leftarrow> kfree mm (mmu_asid_free asid (page_free root s5)); Some (0, s6) }
           else Some (mm, s5)
         }
       }
     }
   }"

definition mmu_context_get :: "nat \<Rightarrow> 'a mmus_scheme \<Rightarrow> bool \<times> 'a mmus_scheme" where
  "mmu_context_get mm s =
     (if mm = 0 then (False, s)
      else if mm_refs (mm_st s mm) \<noteq> 0 \<and> \<not> mm_dying (mm_st s mm)
      then (True, upd_mm mm (\<lambda>m. m\<lparr>mm_refs := add32 (mm_refs m) 1\<rparr>) s)
      else (False, s))"

definition mmu_context_release :: "nat \<Rightarrow> 'a mmus_scheme \<Rightarrow> 'a mmus_scheme option" where
  "mmu_context_release mm s =
     (let owned_pages = mm_pages (mm_st s mm);
          s1 = upd_mm mm (\<lambda>m. m\<lparr>mm_pages := []\<rparr>) s;
          s2 = mmu_tlbi_asid (mm_asid (mm_st s1 mm)) s1;
          s3 = fold (\<lambda>pa s. if pa \<noteq> 0 then page_free pa s else s) (rev owned_pages) s2
      in kfree mm (mmu_asid_free (mm_asid (mm_st s3 mm)) s3))"

definition mmu_context_put :: "nat \<Rightarrow> 'a mmus_scheme \<Rightarrow> 'a mmus_scheme option" where
  "mmu_context_put mm s =
     (if mm = 0 then Some s
      else if mm_refs (mm_st s mm) = 0 then Some s
      else
        (let s1 = upd_mm mm (\<lambda>m. m\<lparr>mm_refs := mm_refs m - 1\<rparr>) s in
         if mm_refs (mm_st s1 mm) = 0 then
           (let s2 = upd_mm mm (\<lambda>m. m\<lparr>mm_dying := True\<rparr>) s1
            in if active_cpu_mask (mm_st s2 mm) = 0 then mmu_context_release mm s2 else Some s2)
         else Some s1))"

definition mmu_context_destroy :: "nat \<Rightarrow> 'a mmus_scheme \<Rightarrow> 'a mmus_scheme option" where
  "mmu_context_destroy mm s = mmu_context_put mm s"

definition mmu_context_switch :: "nat \<Rightarrow> nat \<Rightarrow> 'a mmus_scheme \<Rightarrow> 'a mmus_scheme option" where
  "mmu_context_switch cpu mm s =
     (if \<not> mmu_enabled s then Some s
      else
        (let old_mm = mmu_cpu_context s cpu;
             s1 = (if old_mm \<noteq> 0 then upd_mm old_mm (\<lambda>m. m\<lparr>active_cpu_mask := active_cpu_mask m AND NOT (push_bit cpu 1)\<rparr>) s else s);
             release = old_mm \<noteq> 0 \<and> mm_dying (mm_st s1 old_mm) \<and> mm_refs (mm_st s1 old_mm) = 0 \<and> active_cpu_mask (mm_st s1 old_mm) = 0;
             install = mm \<noteq> 0 \<and> \<not> mm_dying (mm_st s1 mm) \<and> mm_refs (mm_st s1 mm) \<noteq> 0;
             s2 = (if install
                   then (upd_mm mm (\<lambda>m. m\<lparr>active_cpu_mask := active_cpu_mask m OR push_bit cpu 1\<rparr>) s1)
                          \<lparr>mmu_cpu_context := (mmu_cpu_context s1)(cpu := mm)\<rparr>
                   else s1\<lparr>mmu_cpu_context := (mmu_cpu_context s1)(cpu := 0)\<rparr>);
             ttbr0_val = (if install then word_of_nat (root_pa (mm_st s2 mm)) OR push_bit 48 (word_of_nat (mm_asid (mm_st s2 mm)))
                          else word_of_nat (va_to_pa (ttbr0_runtime_empty_root s2)));
             s3 = tlb TLBI_ALL (s2\<lparr>ttbr0 := (ttbr0 s2)(cpu := ttbr0_val)\<rparr>)
         in if release then mmu_context_release old_mm s3 else Some s3))"

definition mmu_context_test_snapshot :: "nat \<Rightarrow> 'a mmus_scheme \<Rightarrow> (nat \<times> bool \<times> u32) option" where
  "mmu_context_test_snapshot mm s =
     (if mm = 0 then None else Some (mm_refs (mm_st s mm), mm_dying (mm_st s mm), active_cpu_mask (mm_st s mm)))"

section \<open>Fork\<close>

text \<open>\<open>mmu_clone_walk_locked\<close> from entry \<open>i\<close> of a table on; the tables are kernel pointers.\<close>

function mmu_clone_walk_locked :: "nat \<Rightarrow> nat \<Rightarrow> nat \<Rightarrow> nat \<Rightarrow> nat \<Rightarrow> 'a mmus_scheme \<Rightarrow> bool \<times> 'a mmus_scheme" where
  "mmu_clone_walk_locked dst_mm src_tbl dst_tbl level i s =
     (if 512 \<le> i then (True, s)
      else
        (let entry = tbl_get s src_tbl i in
         if entry AND MMU_DESC_VALID = 0 then mmu_clone_walk_locked dst_mm src_tbl dst_tbl level (i + 1) s
         else if level < 3 \<and> entry AND MMU_DESC_TYPE_MASK = MMU_DESC_TABLE then
           (let next_src = pa_to_va (desc_addr entry);
                (next_dst_pa, s1) = page_alloc s
            in if next_dst_pa = 0 then (False, s1)
               else
                 (let (ok, s2) = mmu_context_add_page_locked dst_mm next_dst_pa s1
                  in if \<not> ok then (False, page_free next_dst_pa s2)
                     else
                       (let next_dst_va = pa_to_va next_dst_pa;
                            s3 = zero_words next_dst_va 0 512 s2;
                            s4 = tbl_set dst_tbl i ((word_of_nat next_dst_pa AND MMU_DESC_ADDR_MASK) OR (entry AND NOT MMU_DESC_ADDR_MASK)) s3;
                            (ok, s5) = mmu_clone_walk_locked dst_mm next_src next_dst_va (level + 1) 0 s4
                        in if \<not> ok then (False, s5)
                           else mmu_clone_walk_locked dst_mm src_tbl dst_tbl level (i + 1) s5)))
         else if level = 3 then
           (let pa = desc_addr entry;
                cow_entry = (entry AND NOT MMU_AP_RW) OR MMU_AP_RO OR MMU_DESC_SOFTWARE_COW;
                (ok, s1) = mmu_context_add_page_locked dst_mm pa s
            in if \<not> ok then (False, s1)
               else mmu_clone_walk_locked dst_mm src_tbl dst_tbl level (i + 1)
                      (tbl_set src_tbl i cow_entry (tbl_set dst_tbl i cow_entry (page_ref_inc pa s1))))
         else mmu_clone_walk_locked dst_mm src_tbl dst_tbl level (i + 1) s))"
  by pat_completeness auto
termination
  by (relation "measures [\<lambda>(dst_mm, src_tbl, dst_tbl, level, i, s). 3 - level, \<lambda>(dst_mm, src_tbl, dst_tbl, level, i, s). 512 - i]") auto

definition mmu_context_clone :: "nat \<Rightarrow> 'a mmus_scheme \<Rightarrow> (nat \<times> 'a mmus_scheme) option" where
  "mmu_context_clone src s =
     (if src = 0 then Some (0, s)
      else do {
        (dst, s1) \<leftarrow> mmu_context_create s;
        if dst = 0 then Some (0, s1)
        else do {
          let (clone_ok, s2) = mmu_clone_walk_locked dst (pa_to_va (root_pa (mm_st s1 src))) (pa_to_va (root_pa (mm_st s1 dst))) 0 0 s1;
          let s3 = tlb (TLBI_ASID (mm_asid (mm_st s2 src))) s2;
          if \<not> clone_ok then do { s4 \<leftarrow> mmu_context_destroy dst s3; Some (0, s4) }
          else Some (dst, s3)
        }
      })"

section \<open>TLB shootdown\<close>

definition mmu_handle_shootdown_ipi :: "nat \<Rightarrow> 'a mmus_scheme \<Rightarrow> 'a mmus_scheme" where
  "mmu_handle_shootdown_ipi cpu s =
     (if 4 \<le> cpu then s
      else if mmu_shootdown_pending_mask s AND push_bit cpu 1 = 0 then s
      else
        (let s1 = mmu_tlbi_asid (mmu_shootdown_asid s) s
         in s1\<lparr>mmu_shootdown_pending_mask := mmu_shootdown_pending_mask s1 AND NOT (push_bit cpu 1)\<rparr>))"

text \<open>The request part of \<open>mmu_context_shootdown\<close>, up to the wait; and the function, with the order in which CPUs take the interrupt while
  it waits.  It returns once no CPU is pending, \<open>None\<close> if it would wait on.\<close>

definition shootdown_request :: "nat \<Rightarrow> nat \<Rightarrow> 'a mmus_scheme \<Rightarrow> 'a mmus_scheme" where
  "shootdown_request cpu mm s =
     (let target_mask = active_cpu_mask (mm_st s mm) AND 0x0F AND NOT (push_bit cpu 1);
          s1 = s\<lparr>mmu_shootdown_asid := mm_asid (mm_st s mm), mmu_shootdown_pending_mask := target_mask\<rparr>
      in mmu_tlbi_asid (mm_asid (mm_st s1 mm)) s1)"

fun shootdown_wait :: "nat list \<Rightarrow> 'a mmus_scheme \<Rightarrow> 'a mmus_scheme option" where
  "shootdown_wait cpus s =
     (if mmu_shootdown_pending_mask s = 0 then Some s
      else case cpus of [] \<Rightarrow> None | c # cs \<Rightarrow> shootdown_wait cs (mmu_handle_shootdown_ipi c s))"

definition mmu_context_shootdown :: "nat \<Rightarrow> nat \<Rightarrow> nat list \<Rightarrow> 'a mmus_scheme \<Rightarrow> (bool \<times> 'a mmus_scheme) option" where
  "mmu_context_shootdown cpu mm interrupts s =
     (if mm = 0 \<or> \<not> mmu_enabled s then Some (False, s)
      else if 4 \<le> cpu then Some (False, s)
      else do { s1 \<leftarrow> shootdown_wait interrupts (shootdown_request cpu mm s); Some (True, s1) })"

section \<open>The empty lower half\<close>

definition mmu_install_empty_ttbr0_root :: "nat \<Rightarrow> 'a mmus_scheme \<Rightarrow> 'a mmus_scheme" where
  "mmu_install_empty_ttbr0_root cpu s =
     (if \<not> mmu_enabled s then s
      else if ttbr0_runtime_empty_root s \<noteq> 0 \<and> mmu_l0_table s = ttbr0_runtime_empty_root s then s
      else
        (let (new_root, s1) = page_alloc s in
         if new_root = 0 then s1
         else
           (let s2 = zero_words new_root 0 512 s1;
                s3 = tlb TLBI_ALL (s2\<lparr>ttbr0 := (ttbr0 s2)(cpu := word_of_nat new_root)\<rparr>);
                s4 = s3\<lparr>ttbr0_runtime_empty_root := new_root, mmu_l0_table := new_root, mmu_l1_table := 0, mmu_l2_ram_table := 0\<rparr>
            in mmu_table_release_boot_ttbr0 new_root s4)))"

end
