(* ===== verification/Wait_Queue.thy ===== *)
theory Wait_Queue
  imports Prelude "HOL-Library.Monad_Syntax"
begin

text \<open>
  The intrusive FIFO wait queues of \<^verbatim>\<open>src/src/kernel/wait_queue.c\<close>.  A task pointer is the
  slot of the task in the task table, null is \<open>None\<close>, and the \<open>wait_next\<close> fields of all tasks form
  one link map that every queue threads through.  A walk along the links is a partial function:
  its undefined value is a walk over a cyclic list, which never ends.
\<close>

section \<open>Data and operations\<close>

type_synonym links = "nat \<Rightarrow> nat option"

record wait_queue =
  wq_head :: "nat option"
  wq_tail :: "nat option"

definition wait_queue_init :: wait_queue where
  "wait_queue_init = \<lparr>wq_head = None, wq_tail = None\<rparr>"

definition wait_queue_empty :: "wait_queue \<Rightarrow> bool" where
  "wait_queue_empty queue \<longleftrightarrow> wq_head queue = None"

partial_function (option) contains_from :: "links \<Rightarrow> nat \<Rightarrow> nat option \<Rightarrow> bool option" where
  "contains_from nx task current =
     (case current of None \<Rightarrow> Some False
      | Some c \<Rightarrow> if c = task then Some True else contains_from nx task (nx c))"

definition wait_queue_contains :: "wait_queue \<Rightarrow> nat option \<Rightarrow> links \<Rightarrow> bool option" where
  "wait_queue_contains queue task nx =
     (case task of None \<Rightarrow> Some False | Some t \<Rightarrow> contains_from nx t (wq_head queue))"

definition wait_queue_enqueue ::
    "wait_queue \<Rightarrow> nat option \<Rightarrow> links \<Rightarrow> (bool \<times> wait_queue \<times> links) option" where
  "wait_queue_enqueue queue task nx =
     (case task of None \<Rightarrow> Some (False, queue, nx)
      | Some t \<Rightarrow> do {
          present \<leftarrow> wait_queue_contains queue (Some t) nx;
          if present then Some (False, queue, nx)
          else
            (let nx1 = nx(t := None) in
             case wq_tail queue of
               None \<Rightarrow> Some (True, \<lparr>wq_head = Some t, wq_tail = Some t\<rparr>, nx1)
             | Some l \<Rightarrow> Some (True, queue\<lparr>wq_tail := Some t\<rparr>, nx1(l := Some t)))
        })"

definition wait_queue_dequeue :: "wait_queue \<Rightarrow> links \<Rightarrow> nat option \<times> wait_queue \<times> links" where
  "wait_queue_dequeue queue nx =
     (case wq_head queue of
        None \<Rightarrow> (None, queue, nx)
      | Some t \<Rightarrow>
          (let q1 = queue\<lparr>wq_head := nx t\<rparr>;
               q2 = (if wq_head q1 = None then q1\<lparr>wq_tail := None\<rparr> else q1)
           in (Some t, q2, nx(t := None))))"

partial_function (option) remove_from ::
    "wait_queue \<Rightarrow> nat \<Rightarrow> nat option \<Rightarrow> nat option \<Rightarrow> links \<Rightarrow> (bool \<times> wait_queue \<times> links) option" where
  "remove_from queue task previous current nx =
     (case current of None \<Rightarrow> Some (False, queue, nx)
      | Some c \<Rightarrow>
          if c = task then
            (let (q1, nx1) = (case previous of
                   None \<Rightarrow> (queue\<lparr>wq_head := nx c\<rparr>, nx)
                 | Some p \<Rightarrow> (queue, nx(p := nx c)));
                 q2 = (if wq_tail q1 = Some c then q1\<lparr>wq_tail := previous\<rparr> else q1)
             in Some (True, q2, nx1(c := None)))
          else remove_from queue task (Some c) (nx c) nx)"

definition wait_queue_remove ::
    "wait_queue \<Rightarrow> nat option \<Rightarrow> links \<Rightarrow> (bool \<times> wait_queue \<times> links) option" where
  "wait_queue_remove queue task nx =
     (case task of None \<Rightarrow> Some (False, queue, nx)
      | Some t \<Rightarrow> remove_from queue t None (wq_head queue) nx)"

section \<open>Specification: a queue is a list of distinct tasks\<close>

definition last_opt :: "'a list \<Rightarrow> 'a option" where
  "last_opt xs = (if xs = [] then None else Some (last xs))"

definition wq_list :: "wait_queue \<Rightarrow> links \<Rightarrow> nat list \<Rightarrow> bool" where
  "wq_list queue nx xs \<longleftrightarrow> chain nx (wq_head queue) xs \<and> wq_tail queue = last_opt xs"

text \<open>Entering several tasks in turn, and taking out the first \<open>n\<close>, of any queue.\<close>

primrec enq_all :: "(nat \<Rightarrow> 's \<Rightarrow> (bool \<times> 's) option) \<Rightarrow> nat list \<Rightarrow> 's \<Rightarrow> 's option" where
  "enq_all enq [] s = Some s"
| "enq_all enq (t # ts) s = do { (_, s') \<leftarrow> enq t s; enq_all enq ts s' }"

primrec drain :: "('s \<Rightarrow> nat option \<times> 's) \<Rightarrow> nat \<Rightarrow> 's \<Rightarrow> nat option list \<times> 's" where
  "drain deq 0 s = ([], s)"
| "drain deq (Suc n) s = (let (t, s1) = deq s; (ts, s2) = drain deq n s1 in (t # ts, s2))"

section \<open>First in, first out\<close>

text \<open>
  The contract that every intrusive queue of the kernel keeps: \<open>ok\<close> says which tasks may enter.
\<close>

locale fifo =
  fixes rep :: "'s \<Rightarrow> nat list \<Rightarrow> bool"
    and ok :: "nat \<Rightarrow> 's \<Rightarrow> bool"
    and enq :: "nat \<Rightarrow> 's \<Rightarrow> (bool \<times> 's) option"
    and deq :: "'s \<Rightarrow> nat option \<times> 's"
  assumes enq_new: "rep s xs \<Longrightarrow> t \<notin> set xs \<Longrightarrow> ok t s \<Longrightarrow>
      \<exists>s'. enq t s = Some (True, s') \<and> rep s' (xs @ [t]) \<and> (\<forall>u. u \<noteq> t \<longrightarrow> ok u s' = ok u s)"
    and deq_none: "rep s [] \<Longrightarrow> deq s = (None, s)"
    and deq_some: "rep s (x # xs) \<Longrightarrow> \<exists>s'. deq s = (Some x, s') \<and> rep s' xs"
begin

lemma enq_all_rep:
  "rep s xs \<Longrightarrow> distinct (xs @ ts) \<Longrightarrow> (\<And>t. t \<in> set ts \<Longrightarrow> ok t s) \<Longrightarrow>
     \<exists>s'. enq_all enq ts s = Some s' \<and> rep s' (xs @ ts)"
proof (induction ts arbitrary: s xs)
  case (Cons t ts)
  from enq_new [OF Cons.prems(1), of t] Cons.prems(2,3) obtain s1 where
    s1: "enq t s = Some (True, s1)" "rep s1 (xs @ [t])" "\<And>u. u \<noteq> t \<Longrightarrow> ok u s1 = ok u s" by auto
  have "\<exists>s'. enq_all enq ts s1 = Some s' \<and> rep s' ((xs @ [t]) @ ts)"
  proof (rule Cons.IH [OF s1(2)])
    show "distinct ((xs @ [t]) @ ts)" using Cons.prems(2) by simp
    show "ok u s1" if "u \<in> set ts" for u
      using Cons.prems(2,3) that s1(3) [of u] by auto
  qed
  with s1(1) show ?case by simp
qed simp

lemma drain_rep: "rep s (xs @ ys) \<Longrightarrow> \<exists>s'. drain deq (length xs) s = (map Some xs, s') \<and> rep s' ys"
proof (induction xs arbitrary: s)
  case (Cons x xs)
  then obtain s1 where "deq s = (Some x, s1)" "rep s1 (xs @ ys)" using deq_some [of s x "xs @ ys"] by auto
  with Cons.IH [of s1] show ?case by auto
qed simp

text \<open>Tasks leave in the order they entered, and the queue is empty after that.\<close>

lemma first_in_first_out:
  assumes "rep s []" "distinct ts" "\<And>t. t \<in> set ts \<Longrightarrow> ok t s"
  shows "\<exists>s1 s2. enq_all enq ts s = Some s1 \<and> drain deq (length ts) s1 = (map Some ts, s2) \<and> deq s2 = (None, s2)"
proof -
  from enq_all_rep [of s "[]" ts] assms obtain s1 where s1: "enq_all enq ts s = Some s1" "rep s1 (ts @ [])" by auto
  from drain_rep [OF s1(2)] s1(1) deq_none show ?thesis by blast
qed

end

section \<open>Lemmas\<close>

lemma last_opt_simps [simp]: "last_opt [] = None" "last_opt (xs @ [x]) = Some x"
  by (simp_all add: last_opt_def)

lemma last_opt_None [simp]: "last_opt xs = None \<longleftrightarrow> xs = []"
  by (simp add: last_opt_def)

lemma last_opt_Cons: "last_opt (x # xs) = (if xs = [] then Some x else last_opt xs)"
  by (simp add: last_opt_def)

lemma wq_list_distinct: "wq_list queue nx xs \<Longrightarrow> distinct xs"
  by (auto simp: wq_list_def dest: chain_distinct)

lemma wq_list_unique: "wq_list queue nx xs \<Longrightarrow> wq_list queue nx ys \<Longrightarrow> xs = ys"
  by (auto simp: wq_list_def dest: chain_unique)

lemma wq_list_cong: "(\<And>x. x \<in> set xs \<Longrightarrow> nx' x = nx x) \<Longrightarrow> wq_list queue nx' xs = wq_list queue nx xs"
  using chain_cong [of xs nx' nx] by (simp add: wq_list_def)

lemma wq_init_list [simp]: "wq_list wait_queue_init nx xs \<longleftrightarrow> xs = []"
  by (auto simp: wq_list_def wait_queue_init_def)

lemma wq_empty_list: "wq_list queue nx xs \<Longrightarrow> wait_queue_empty queue \<longleftrightarrow> xs = []"
  by (cases xs) (auto simp: wq_list_def wait_queue_empty_def)

lemma contains_from_chain: "chain nx p xs \<Longrightarrow> contains_from nx t p = Some (t \<in> set xs)"
proof (induction xs arbitrary: p)
  case Nil
  then show ?case by (subst contains_from.simps) simp
next
  case (Cons x xs)
  then show ?case by (subst contains_from.simps) simp
qed

lemma wait_queue_contains_list: "wq_list queue nx xs \<Longrightarrow> wait_queue_contains queue (Some t) nx = Some (t \<in> set xs)"
  by (simp add: wait_queue_contains_def wq_list_def contains_from_chain)

lemma wait_queue_enqueue_list:
  assumes q: "wq_list queue nx xs"
  shows "\<exists>queue' nx'. wait_queue_enqueue queue (Some t) nx = Some (t \<notin> set xs, queue', nx') \<and>
    wq_list queue' nx' (if t \<in> set xs then xs else xs @ [t]) \<and>
    (\<forall>x. x \<notin> set xs \<and> x \<noteq> t \<longrightarrow> nx' x = nx x)"
proof (cases "t \<in> set xs")
  case True
  with q show ?thesis by (simp add: wait_queue_enqueue_def wait_queue_contains_list)
next
  case False
  with q have new: "wait_queue_contains queue (Some t) nx = Some False" by (simp add: wait_queue_contains_list)
  show ?thesis
  proof (cases xs rule: rev_cases)
    case Nil
    with q False show ?thesis
      by (auto simp: wait_queue_enqueue_def new wq_list_def Let_def last_opt_def)
  next
    case (snoc ys l)
    from q have "chain nx (wq_head queue) (ys @ [l])" by (simp add: wq_list_def snoc)
    with False have "chain ((nx(t := None))(l := Some t)) (wq_head queue) ((ys @ [l]) @ [t])"
      using chain_append_node [of nx "wq_head queue" ys l t] snoc by (auto simp: fun_upd_twist)
    with q False snoc show ?thesis
      by (auto simp: wait_queue_enqueue_def new wq_list_def Let_def last_opt_def)
  qed
qed

lemma wait_queue_dequeue_list:
  assumes q: "wq_list queue nx xs"
  shows "case xs of [] \<Rightarrow> wait_queue_dequeue queue nx = (None, queue, nx)
    | x # ys \<Rightarrow> \<exists>queue' . wait_queue_dequeue queue nx = (Some x, queue', nx(x := None)) \<and> wq_list queue' (nx(x := None)) ys"
proof (cases xs)
  case (Cons x ys)
  with q have "chain nx (nx x) ys" "wq_head queue = Some x" "wq_tail queue = last_opt (x # ys)" "x \<notin> set ys"
    using wq_list_distinct [OF q] by (auto simp: wq_list_def)
  then show ?thesis
    by (cases ys) (auto simp: Cons wait_queue_dequeue_def wq_list_def Let_def last_opt_Cons chain_simps)
qed (use q in \<open>simp add: wait_queue_dequeue_def wq_list_def\<close>)

lemma remove_from_chain:
  assumes "chain nx (wq_head queue) (ps @ xs)" "wq_tail queue = last_opt (ps @ xs)" "t \<notin> set ps"
    "seg nx (wq_head queue) ps cur" "chain nx cur xs"
  shows "\<exists>queue' nx'. remove_from queue t (last_opt ps) cur nx = Some (t \<in> set xs, queue', nx') \<and>
    wq_list queue' nx' (ps @ remove1 t xs) \<and> (\<forall>x. x \<notin> set (ps @ xs) \<longrightarrow> nx' x = nx x)"
  using assms
proof (induction xs arbitrary: ps cur)
  case Nil
  then show ?case by (subst remove_from.simps) (simp add: wq_list_def)
next
  case (Cons c xs)
  have d: "distinct (ps @ c # xs)" using Cons.prems(1) by (rule chain_distinct)
  from Cons.prems have cur: "cur = Some c" "chain nx (nx c) xs" by auto
  show ?case
  proof (cases "c = t")
    case False
    have "\<exists>queue' nx'. remove_from queue t (last_opt (ps @ [c])) (nx c) nx = Some (t \<in> set xs, queue', nx') \<and>
        wq_list queue' nx' ((ps @ [c]) @ remove1 t xs) \<and> (\<forall>x. x \<notin> set ((ps @ [c]) @ xs) \<longrightarrow> nx' x = nx x)"
      by (rule Cons.IH) (use Cons.prems cur False in \<open>auto simp: seg_snoc\<close>)
    then show ?thesis using False cur(1) by (subst remove_from.simps) auto
  next
    case True
    show ?thesis
    proof (cases ps rule: rev_cases)
      case Nil
      with Cons.prems cur True d show ?thesis
        by (subst remove_from.simps) (auto simp: wq_list_def Let_def chain_simps last_opt_def split: if_splits)
    next
      case (snoc ps' p)
      have ch: "chain ((nx(p := nx t))(t := None)) (wq_head queue) (ps @ xs)"
        using chain_unlink_mid [of nx "wq_head queue" ps' p t xs] Cons.prems(1) True d snoc by (simp add: chain_simps)
      with Cons.prems cur True d snoc show ?thesis
        by (subst remove_from.simps) (auto simp: wq_list_def Let_def last_opt_def)
    qed
  qed
qed

lemma wait_queue_remove_list:
  assumes "wq_list queue nx xs"
  shows "\<exists>queue' nx'. wait_queue_remove queue (Some t) nx = Some (t \<in> set xs, queue', nx') \<and>
    wq_list queue' nx' (remove1 t xs) \<and> (\<forall>x. x \<notin> set xs \<longrightarrow> nx' x = nx x)"
  using remove_from_chain [of nx queue "[]" xs t "wq_head queue"] assms
  by (simp add: wq_list_def wait_queue_remove_def)

section \<open>The wait queue is a FIFO queue\<close>

definition wq_rep :: "wait_queue \<times> links \<Rightarrow> nat list \<Rightarrow> bool" where
  "wq_rep s xs \<longleftrightarrow> wq_list (fst s) (snd s) xs"

interpretation wq: fifo wq_rep "\<lambda>_ _. True" "\<lambda>t s. wait_queue_enqueue (fst s) (Some t) (snd s)"
  "\<lambda>s. wait_queue_dequeue (fst s) (snd s)"
proof unfold_locales
  fix s :: "wait_queue \<times> links" and xs t
  assume "wq_rep s xs" "t \<notin> set xs"
  then show "\<exists>s'. wait_queue_enqueue (fst s) (Some t) (snd s) = Some (True, s') \<and> wq_rep s' (xs @ [t]) \<and>
      (\<forall>u. u \<noteq> t \<longrightarrow> True = True)"
    using wait_queue_enqueue_list [of "fst s" "snd s" xs t] by (auto simp: wq_rep_def)
next
  fix s :: "wait_queue \<times> links"
  assume "wq_rep s []"
  then show "wait_queue_dequeue (fst s) (snd s) = (None, s)"
    using wait_queue_dequeue_list [of "fst s" "snd s" "[]"] by (simp add: wq_rep_def)
next
  fix s :: "wait_queue \<times> links" and x xs
  assume "wq_rep s (x # xs)"
  then show "\<exists>s'. wait_queue_dequeue (fst s) (snd s) = (Some x, s') \<and> wq_rep s' xs"
    using wait_queue_dequeue_list [of "fst s" "snd s" "x # xs"] by (auto simp: wq_rep_def)
qed

section \<open>Properties\<close>

text \<open>C12: tasks leave a wait queue in the order they entered it, whatever stale links they carried
  in, and no entry is refused or lost.\<close>

theorem wait_queue_fifo:
  assumes "distinct ts"
  shows "\<exists>s1 s2. enq_all (\<lambda>t s. wait_queue_enqueue (fst s) (Some t) (snd s)) ts (wait_queue_init, nx) = Some s1 \<and>
    drain (\<lambda>s. wait_queue_dequeue (fst s) (snd s)) (length ts) s1 = (map Some ts, s2) \<and> wait_queue_empty (fst s2)"
proof -
  from wq.first_in_first_out [of "(wait_queue_init, nx)" ts] assms obtain s1 s2 where
    1: "enq_all (\<lambda>t s. wait_queue_enqueue (fst s) (Some t) (snd s)) ts (wait_queue_init, nx) = Some s1"
    "drain (\<lambda>s. wait_queue_dequeue (fst s) (snd s)) (length ts) s1 = (map Some ts, s2)"
    "wait_queue_dequeue (fst s2) (snd s2) = (None, s2)" by (auto simp: wq_rep_def)
  from 1(3) have "wait_queue_empty (fst s2)"
    by (auto simp: wait_queue_dequeue_def wait_queue_empty_def Let_def split: option.splits if_splits)
  with 1 show ?thesis by blast
qed

theorem wait_queue_fifo_witness:
  "\<exists>s1 s2. enq_all (\<lambda>t s. wait_queue_enqueue (fst s) (Some t) (snd s)) [7, 5, 9] (wait_queue_init, \<lambda>_. Some 5) = Some s1 \<and>
    drain (\<lambda>s. wait_queue_dequeue (fst s) (snd s)) 3 s1 = ([Some 7, Some 5, Some 9], s2) \<and> wait_queue_empty (fst s2)"
proof -
  have d: "distinct [7, 5, 9 :: nat]" and l: "length [7, 5, 9 :: nat] = 3" by simp_all
  show ?thesis using wait_queue_fifo [OF d, of "\<lambda>_. Some 5"] unfolding l list.map .
qed

text \<open>C11: on a well-formed queue every operation returns, and does to the list of waiting tasks
  what its name says; a second entry of a task and the removal of an absent one are refused, and
  the links of tasks outside the queue are left alone.\<close>

theorem wait_queue_ops_correct:
  assumes q: "wq_list queue nx xs"
  shows "wait_queue_contains queue (Some t) nx = Some (t \<in> set xs) \<and>
    (\<exists>q' nx'. wait_queue_enqueue queue (Some t) nx = Some (t \<notin> set xs, q', nx') \<and>
       wq_list q' nx' (if t \<in> set xs then xs else xs @ [t]) \<and> (\<forall>x. x \<notin> set xs \<and> x \<noteq> t \<longrightarrow> nx' x = nx x)) \<and>
    (\<exists>q' nx'. wait_queue_remove queue (Some t) nx = Some (t \<in> set xs, q', nx') \<and>
       wq_list q' nx' (remove1 t xs) \<and> (\<forall>x. x \<notin> set xs \<longrightarrow> nx' x = nx x)) \<and>
    (case xs of [] \<Rightarrow> wait_queue_dequeue queue nx = (None, queue, nx)
     | x # ys \<Rightarrow> \<exists>q'. wait_queue_dequeue queue nx = (Some x, q', nx(x := None)) \<and> wq_list q' (nx(x := None)) ys)"
  using wait_queue_contains_list [OF q] wait_queue_enqueue_list [OF q] wait_queue_remove_list [OF q]
    wait_queue_dequeue_list [OF q] by (intro conjI)

theorem wait_queue_ops_correct_witness:
  "\<exists>q' nx'. wait_queue_remove \<lparr>wq_head = Some 4, wq_tail = Some 6\<rparr> (Some 5) [4 \<mapsto> 5, 5 \<mapsto> 6] = Some (True, q', nx') \<and>
     wq_list q' nx' [4, 6]"
proof -
  have "wq_list \<lparr>wq_head = Some 4, wq_tail = Some 6\<rparr> [4 \<mapsto> 5, 5 \<mapsto> 6] [4, 5, 6]" by (simp add: wq_list_def last_opt_def)
  from wait_queue_ops_correct [OF this, of 5] show ?thesis by auto
qed

end
