(* ===== verification/Sched.thy ===== *)
theory Sched
  imports Wait_Queue
begin

text \<open>
  The scheduler, \<^verbatim>\<open>src/src/kernel/sched.c\<close>: the task table, one run queue per CPU, the park and
  unpark handshake, sleeping, killing and waiting.  A task pointer is the slot of the task in
  \<open>tasks\<close>; the pointer fields \<open>next\<close>, \<open>rq_next\<close> and \<open>wait_next\<close> of all tasks are three link maps.
  What the C code does under one acquisition of \<open>sched_lock\<close> is one definition, so a definition is
  an atomic step, and every operation that reads the current CPU takes it as its first argument.
  The parts of the scheduler that call into other components are composed in a later theory.
\<close>

section \<open>Data\<close>

datatype task_state = RUNNING | READY | BLOCKED | DEAD | ZOMBIE | REAPING

abbreviation TASK_NO_CPU :: nat where "TASK_NO_CPU \<equiv> 0xffffffff"
abbreviation SCHED_MAX_CPUS :: nat where "SCHED_MAX_CPUS \<equiv> 4"
abbreviation MAX_TASKS :: nat where "MAX_TASKS \<equiv> 32"
abbreviation SCHED_NO_PARENT :: nat where "SCHED_NO_PARENT \<equiv> 0xffffffffffffffff"

text \<open>Where a saved context resumes.\<close>

datatype code_label = Nowhere | Task_entry_trampoline | El0_entry_trampoline | Fork_child_exit | In_schedule

record task_context =
  x19 :: nat
  x20 :: nat
  x21_x29 :: "nat list"
  x30 :: code_label
  ctx_sp :: nat
  tpidr_el0 :: nat

record task =
  tk_context :: task_context
  tk_id :: nat
  tk_state :: task_state
  stack_base :: nat
  stack_size :: nat
  sleep_ticks :: nat
  kill_pending :: bool
  wake_pending :: bool
  current_cpu :: nat
  rq_cpu :: nat
  on_rq :: bool
  preempt_count :: nat
  tk_name :: "string option"
  tk_mm :: "nat option"
  tk_process :: "nat option"
  parent_id :: nat
  exit_status :: int
  tk_files :: "nat \<Rightarrow> nat option"

record sched_run_queue =
  rq_head :: "nat option"
  rq_tail :: "nat option"
  nr_running :: nat
  need_resched :: bool
  irq_depth :: nat

text \<open>
  \<open>cpu_task\<close> is \<open>TPIDR_EL1\<close> of each CPU, \<open>cpu_regs\<close> its callee-saved registers, and \<open>ipis\<close> records
  the masks of the interrupts sent with \<open>gic_send_ipi\<close>, latest first.
\<close>

record sched =
  tasks :: "nat \<Rightarrow> task"
  task_next :: links
  rq_next :: links
  wait_next :: links
  run_queues :: "nat \<Rightarrow> sched_run_queue"
  next_task_id :: nat
  switch_count :: "nat \<Rightarrow> nat"
  init_task_id :: nat
  task_slot_exhaustion_reported :: bool
  next_enqueue_cpu :: nat
  cpu_task :: "nat \<Rightarrow> nat"
  cpu_regs :: "nat \<Rightarrow> task_context"
  ipis :: "u32 list"

definition zero_context :: task_context where
  "zero_context = \<lparr>x19 = 0, x20 = 0, x21_x29 = replicate 9 0, x30 = Nowhere, ctx_sp = 0, tpidr_el0 = 0\<rparr>"

definition zero_task :: task where
  "zero_task = \<lparr>tk_context = zero_context, tk_id = 0, tk_state = RUNNING, stack_base = 0, stack_size = 0,
     sleep_ticks = 0, kill_pending = False, wake_pending = False, current_cpu = 0, rq_cpu = 0, on_rq = False,
     preempt_count = 0, tk_name = None, tk_mm = None, tk_process = None, parent_id = 0, exit_status = 0,
     tk_files = \<lambda>_. None\<rparr>"

definition upd_task :: "nat \<Rightarrow> (task \<Rightarrow> task) \<Rightarrow> 'a sched_scheme \<Rightarrow> 'a sched_scheme" where
  "upd_task t f s = s\<lparr>tasks := (tasks s)(t := f (tasks s t))\<rparr>"

definition upd_rq :: "nat \<Rightarrow> (sched_run_queue \<Rightarrow> sched_run_queue) \<Rightarrow> 'a sched_scheme \<Rightarrow> 'a sched_scheme" where
  "upd_rq c f s = s\<lparr>run_queues := (run_queues s)(c := f (run_queues s c))\<rparr>"

definition gic_send_ipi :: "u32 \<Rightarrow> 'a sched_scheme \<Rightarrow> 'a sched_scheme" where
  "gic_send_ipi target_list s = s\<lparr>ipis := target_list # ipis s\<rparr>"

definition sched_current :: "nat \<Rightarrow> 'a sched_scheme \<Rightarrow> nat" where
  "sched_current cpu s = cpu_task s cpu"

section \<open>Run queues\<close>

definition sched_rq_init :: sched_run_queue where
  "sched_rq_init = \<lparr>rq_head = None, rq_tail = None, nr_running = 0, need_resched = False, irq_depth = 0\<rparr>"

definition sched_rq_enqueue_locked :: "nat \<Rightarrow> nat \<Rightarrow> 'a sched_scheme \<Rightarrow> 'a sched_scheme" where
  "sched_rq_enqueue_locked task cpu s =
     (if tk_id (tasks s task) < SCHED_MAX_CPUS \<or> on_rq (tasks s task) \<or> SCHED_MAX_CPUS \<le> cpu then s
      else
        (let s1 = upd_task task (\<lambda>t. t\<lparr>rq_cpu := cpu, on_rq := True\<rparr>) (s\<lparr>rq_next := (rq_next s)(task := None)\<rparr>);
             s2 = (case rq_tail (run_queues s1 cpu) of
                     None \<Rightarrow> upd_rq cpu (\<lambda>rq. rq\<lparr>rq_head := Some task, rq_tail := Some task\<rparr>) s1
                   | Some l \<Rightarrow> upd_rq cpu (\<lambda>rq. rq\<lparr>rq_tail := Some task\<rparr>)
                                 (s1\<lparr>rq_next := (rq_next s1)(l := Some task)\<rparr>))
         in upd_rq cpu (\<lambda>rq. rq\<lparr>nr_running := add32 (nr_running rq) 1\<rparr>) s2))"

definition sched_rq_dequeue_locked :: "nat \<Rightarrow> 'a sched_scheme \<Rightarrow> nat option \<times> 'a sched_scheme" where
  "sched_rq_dequeue_locked cpu s =
     (case rq_head (run_queues s cpu) of
        None \<Rightarrow> (None, s)
      | Some task \<Rightarrow>
          (let n = rq_next s task;
               s1 = upd_rq cpu (\<lambda>rq. rq\<lparr>rq_head := n, rq_tail := (if n = None then None else rq_tail rq),
                      nr_running := (if 0 < nr_running rq then nr_running rq - 1 else nr_running rq)\<rparr>) s
           in (Some task, upd_task task (\<lambda>t. t\<lparr>on_rq := False\<rparr>) (s1\<lparr>rq_next := (rq_next s1)(task := None)\<rparr>))))"

partial_function (option) rq_remove_from ::
    "nat \<Rightarrow> nat \<Rightarrow> nat option \<Rightarrow> nat option \<Rightarrow> 'a sched_scheme \<Rightarrow> (bool \<times> 'a sched_scheme) option" where
  "rq_remove_from cpu task previous current s =
     (case current of
        None \<Rightarrow> Some (False, upd_task task (\<lambda>t. t\<lparr>on_rq := False\<rparr>) (s\<lparr>rq_next := (rq_next s)(task := None)\<rparr>))
      | Some c \<Rightarrow>
          if c = task then
            (let n = rq_next s c;
                 s1 = (case previous of
                         None \<Rightarrow> upd_rq cpu (\<lambda>rq. rq\<lparr>rq_head := n\<rparr>) s
                       | Some p \<Rightarrow> s\<lparr>rq_next := (rq_next s)(p := n)\<rparr>);
                 s2 = upd_rq cpu (\<lambda>rq. rq\<lparr>rq_tail := (if rq_tail rq = Some c then previous else rq_tail rq),
                        nr_running := (if 0 < nr_running rq then nr_running rq - 1 else nr_running rq)\<rparr>) s1
             in Some (True, upd_task c (\<lambda>t. t\<lparr>on_rq := False\<rparr>) (s2\<lparr>rq_next := (rq_next s2)(c := None)\<rparr>)))
          else rq_remove_from cpu task (Some c) (rq_next s c) s)"

definition sched_rq_remove_locked :: "nat \<Rightarrow> 'a sched_scheme \<Rightarrow> (bool \<times> 'a sched_scheme) option" where
  "sched_rq_remove_locked task s =
     (if \<not> on_rq (tasks s task) \<or> SCHED_MAX_CPUS \<le> rq_cpu (tasks s task) then Some (False, s)
      else rq_remove_from (rq_cpu (tasks s task)) task None (rq_head (run_queues s (rq_cpu (tasks s task)))) s)"

text \<open>The search for the least loaded queue, starting at a rotating CPU.\<close>

definition sched_least_loaded_cpu_locked :: "'a sched_scheme \<Rightarrow> nat \<times> 'a sched_scheme" where
  "sched_least_loaded_cpu_locked s =
     (let first = next_enqueue_cpu s;
          load = (\<lambda>c. nr_running (run_queues s c));
          best = fold (\<lambda>k best. let cpu = (first + k) mod SCHED_MAX_CPUS in
                         if load cpu < load best then cpu else best) [1, 2, 3] first
      in (best, s\<lparr>next_enqueue_cpu := (best + 1) mod SCHED_MAX_CPUS\<rparr>))"

text \<open>\<open>do task = dequeue while (task && task->state != READY)\<close>.\<close>

partial_function (option) dequeue_ready :: "nat \<Rightarrow> 'a sched_scheme \<Rightarrow> (nat option \<times> 'a sched_scheme) option" where
  "dequeue_ready cpu s =
     (let r = sched_rq_dequeue_locked cpu s in
      case fst r of
        None \<Rightarrow> Some r
      | Some t \<Rightarrow> if tk_state (tasks (snd r) t) = READY then Some r else dequeue_ready cpu (snd r))"

text \<open>The search for the longest remote queue; ties go to the CPU itself, then to the lowest.\<close>

definition busiest_cpu :: "nat \<Rightarrow> 'a sched_scheme \<Rightarrow> nat" where
  "busiest_cpu cpu s =
     fold (\<lambda>other busiest. if nr_running (run_queues s busiest) < nr_running (run_queues s other) then other else busiest)
       [0, 1, 2, 3] cpu"

definition sched_pick_next_locked :: "nat \<Rightarrow> 'a sched_scheme \<Rightarrow> (nat option \<times> 'a sched_scheme) option" where
  "sched_pick_next_locked cpu s = do {
     (task, s1) \<leftarrow> dequeue_ready cpu s;
     if task \<noteq> None then Some (task, s1)
     else
       (let busiest = busiest_cpu cpu s1
        in if busiest = cpu \<or> nr_running (run_queues s1 busiest) = 0 then Some (None, s1)
           else do {
             (task, s2) \<leftarrow> dequeue_ready busiest s1;
             case task of
               None \<Rightarrow> Some (None, s2)
             | Some t \<Rightarrow> Some (Some t, upd_task t (\<lambda>t. t\<lparr>rq_cpu := cpu\<rparr>) s2)
           })
   }"

definition sched_make_ready_locked :: "nat \<Rightarrow> 'a sched_scheme \<Rightarrow> 'a sched_scheme" where
  "sched_make_ready_locked task s =
     (if tk_id (tasks s task) < SCHED_MAX_CPUS then s
      else
        (let s1 = upd_task task (\<lambda>t. t\<lparr>tk_state := READY\<rparr>) s;
             (cpu, s2) = sched_least_loaded_cpu_locked s1
         in upd_rq cpu (\<lambda>rq. rq\<lparr>need_resched := True\<rparr>) (sched_rq_enqueue_locked task cpu s2)))"

definition sched_state_name :: "task_state \<Rightarrow> string" where
  "sched_state_name st =
     (case st of RUNNING \<Rightarrow> ''running'' | READY \<Rightarrow> ''ready'' | BLOCKED \<Rightarrow> ''blocked''
      | DEAD \<Rightarrow> ''dead'' | ZOMBIE \<Rightarrow> ''zombie'' | REAPING \<Rightarrow> ''reaping'')"

section \<open>Initialisation and slots\<close>

definition sched_clear_task :: "nat \<Rightarrow> 'a sched_scheme \<Rightarrow> 'a sched_scheme" where
  "sched_clear_task t s =
     s\<lparr>tasks := (tasks s)(t := zero_task), task_next := (task_next s)(t := None),
       rq_next := (rq_next s)(t := None), wait_next := (wait_next s)(t := None)\<rparr>"

definition sched_allocate_task_slot :: "'a sched_scheme \<Rightarrow> nat option" where
  "sched_allocate_task_slot s = find_from (\<lambda>i. tk_name (tasks s i) = None) 4 (MAX_TASKS - 4)"

text \<open>
  \<open>sched_init\<close>; the page it allocates for each idle name and drops is an effect on the page
  allocator, added where the two components meet.
\<close>

definition idle_task :: "nat \<Rightarrow> task" where
  "idle_task i = zero_task\<lparr>tk_id := i, tk_state := RUNNING, current_cpu := i, rq_cpu := i,
     tk_name := Some (''idle'' @ [char_of (48 + i)])\<rparr>"

definition sched_init :: "'a sched_scheme \<Rightarrow> 'a sched_scheme" where
  "sched_init s =
     (let s1 = s\<lparr>init_task_id := SCHED_NO_PARENT, task_slot_exhaustion_reported := False, next_enqueue_cpu := 0\<rparr>;
          s2 = fold (\<lambda>c s. s\<lparr>run_queues := (run_queues s)(c := sched_rq_init),
                           switch_count := (switch_count s)(c := 0)\<rparr>) [0..<SCHED_MAX_CPUS] s1;
          s3 = fold sched_clear_task [0..<MAX_TASKS] s2;
          s4 = fold (\<lambda>i s. s\<lparr>tasks := (tasks s)(i := idle_task i),
                           task_next := (task_next s)(i := Some ((i + 1) mod 4))\<rparr>) [0..<4] s3
      in s4\<lparr>next_task_id := 4, cpu_task := (cpu_task s4)(0 := 0)\<rparr>)"

section \<open>Preemption, interrupts and the clock\<close>

definition sched_request_reschedule :: "nat \<Rightarrow> 'a sched_scheme \<Rightarrow> 'a sched_scheme" where
  "sched_request_reschedule cpu_id s =
     (if SCHED_MAX_CPUS \<le> cpu_id then s else upd_rq cpu_id (\<lambda>rq. rq\<lparr>need_resched := True\<rparr>) s)"

definition sched_preempt_disable :: "nat \<Rightarrow> 'a sched_scheme \<Rightarrow> 'a sched_scheme" where
  "sched_preempt_disable cpu s =
     upd_task (sched_current cpu s) (\<lambda>t. t\<lparr>preempt_count := add32 (preempt_count t) 1\<rparr>) s"

definition sched_preempt_enable :: "nat \<Rightarrow> 'a sched_scheme \<Rightarrow> 'a sched_scheme" where
  "sched_preempt_enable cpu s =
     upd_task (sched_current cpu s)
       (\<lambda>t. if preempt_count t \<noteq> 0 then t\<lparr>preempt_count := preempt_count t - 1\<rparr> else t) s"

definition sched_preemptible :: "nat \<Rightarrow> 'a sched_scheme \<Rightarrow> bool" where
  "sched_preemptible cpu s \<longleftrightarrow>
     preempt_count (tasks s (sched_current cpu s)) = 0 \<and> cpu < SCHED_MAX_CPUS \<and> irq_depth (run_queues s cpu) = 0"

definition sched_irq_enter :: "nat \<Rightarrow> 'a sched_scheme \<Rightarrow> 'a sched_scheme" where
  "sched_irq_enter cpu s =
     (if cpu < SCHED_MAX_CPUS then upd_rq cpu (\<lambda>rq. rq\<lparr>irq_depth := add32 (irq_depth rq) 1\<rparr>) s else s)"

text \<open>\<open>sched_irq_exit\<close> up to its call of \<open>schedule\<close>, which the flag reports.\<close>

definition irq_exit_locked :: "nat \<Rightarrow> 'a sched_scheme \<Rightarrow> bool \<times> 'a sched_scheme" where
  "irq_exit_locked cpu s =
     (if SCHED_MAX_CPUS \<le> cpu \<or> irq_depth (run_queues s cpu) = 0 then (False, s)
      else
        (let s1 = upd_rq cpu (\<lambda>rq. rq\<lparr>irq_depth := irq_depth rq - 1\<rparr>) s
         in (irq_depth (run_queues s1 cpu) = 0 \<and> need_resched (run_queues s1 cpu) \<and>
             preempt_count (tasks s1 (sched_current cpu s1)) = 0, s1)))"

definition tick_task :: "nat \<Rightarrow> nat \<Rightarrow> u32 \<times> 'a sched_scheme \<Rightarrow> u32 \<times> 'a sched_scheme" where
  "tick_task cpu i = (\<lambda>(target_mask, s).
     (let t = tasks s i in
      if tk_name t \<noteq> None \<and> tk_state t = BLOCKED \<and> 0 < sleep_ticks t then
        (let s1 = upd_task i (\<lambda>t. t\<lparr>sleep_ticks := sleep_ticks t - 1\<rparr>) s in
         if sleep_ticks (tasks s1 i) = 0 then
           (let s2 = sched_make_ready_locked i s1; c = rq_cpu (tasks s2 i)
            in (if c < SCHED_MAX_CPUS \<and> c \<noteq> cpu then target_mask OR push_bit c 1 else target_mask, s2))
         else (target_mask, s1))
      else (target_mask, s)))"

definition sched_tick :: "nat \<Rightarrow> 'a sched_scheme \<Rightarrow> 'a sched_scheme" where
  "sched_tick cpu s =
     (let (target_mask, s1) = (if cpu = 0 then fold (tick_task cpu) [0..<MAX_TASKS] (0, s) else (0, s));
          s2 = (if cpu < SCHED_MAX_CPUS then upd_rq cpu (\<lambda>rq. rq\<lparr>need_resched := True\<rparr>) s1 else s1)
      in if target_mask \<noteq> 0 then gic_send_ipi target_mask s2 else s2)"

section \<open>The context switch\<close>

text \<open>\<open>switch_context\<close> of \<^verbatim>\<open>switch.S\<close>: the caller's registers, with the return address in
  \<open>schedule\<close>, go to the old context and the new context is loaded.\<close>

definition switch_context :: "nat \<Rightarrow> nat \<Rightarrow> nat \<Rightarrow> 'a sched_scheme \<Rightarrow> 'a sched_scheme" where
  "switch_context cpu old new s =
     (let s1 = upd_task old (\<lambda>t. t\<lparr>tk_context := (cpu_regs s cpu)\<lparr>x30 := In_schedule\<rparr>\<rparr>) s
      in s1\<lparr>cpu_regs := (cpu_regs s1)(cpu := tk_context (tasks s1 new))\<rparr>)"

text \<open>
  \<open>schedule\<close> from the acquisition of \<open>sched_lock\<close> to the context switch.  The result is the task
  that was switched to, if any; switching the address space is added where the components meet.
\<close>

definition schedule_locked :: "nat \<Rightarrow> 'a sched_scheme \<Rightarrow> (nat option \<times> 'a sched_scheme) option" where
  "schedule_locked cpu s0 =
     (let s = sched_preempt_disable cpu s0 in
      if SCHED_MAX_CPUS \<le> cpu then Some (None, sched_preempt_enable cpu s)
      else
        (let prev = cpu_task s cpu;
             s1 = (if 4 \<le> tk_id (tasks s prev) \<and> kill_pending (tasks s prev)
                   then upd_task prev (\<lambda>t. t\<lparr>kill_pending := False, tk_state := DEAD\<rparr>) s else s);
             s2 = upd_rq cpu (\<lambda>rq. rq\<lparr>need_resched := False\<rparr>) s1;
             s3 = (if SCHED_MAX_CPUS \<le> tk_id (tasks s2 prev) then
                     upd_task prev (\<lambda>t. t\<lparr>current_cpu := TASK_NO_CPU\<rparr>)
                       (if tk_state (tasks s2 prev) = RUNNING
                        then sched_rq_enqueue_locked prev cpu (upd_task prev (\<lambda>t. t\<lparr>tk_state := READY\<rparr>) s2)
                        else s2)
                   else s2)
         in do {
           (picked, s4) \<leftarrow> sched_pick_next_locked cpu s3;
           let next = (case picked of None \<Rightarrow> cpu | Some t \<Rightarrow> t);
               s5 = upd_task next (\<lambda>t. t\<lparr>tk_state := RUNNING, current_cpu := cpu\<rparr>) s4
           in if next = prev then Some (None, sched_preempt_enable cpu s5)
              else Some (Some next, switch_context cpu prev next
                     (s5\<lparr>cpu_task := (cpu_task s5)(cpu := next),
                         switch_count := (switch_count s5)(cpu := add64 (switch_count s5 cpu) 1)\<rparr>))
         }))"

text \<open>
  What the incoming task does first: a task that was switched out inside \<open>schedule\<close> leaves its
  critical section, a new one enters through a trampoline that only releases the lock.
\<close>

definition schedule_resume :: "nat \<Rightarrow> 'a sched_scheme \<Rightarrow> 'a sched_scheme" where
  "schedule_resume cpu s =
     (if x30 (cpu_regs s cpu) = In_schedule then sched_preempt_enable cpu s else s)"

section \<open>Blocking, waking, sleeping\<close>

definition finished :: "task_state \<Rightarrow> bool" where
  "finished st \<longleftrightarrow> st = DEAD \<or> st = ZOMBIE \<or> st = REAPING"

definition other_cpus :: "nat \<Rightarrow> u32" where
  "other_cpus cpu = fold (\<lambda>i target_mask. if i \<noteq> cpu then target_mask OR push_bit i 1 else target_mask) [0..<4] 0"

definition sched_block_task :: "nat option \<Rightarrow> 'a sched_scheme \<Rightarrow> 'a sched_scheme option" where
  "sched_block_task task s =
     (case task of None \<Rightarrow> Some s
      | Some t \<Rightarrow>
          if 4 \<le> tk_id (tasks s t) \<and> \<not> finished (tk_state (tasks s t)) \<and> \<not> kill_pending (tasks s t) then do {
            (_, s1) \<leftarrow> sched_rq_remove_locked t s;
            Some (upd_task t (\<lambda>t. t\<lparr>tk_state := BLOCKED\<rparr>) s1)
          } else Some s)"

definition sched_wake_task :: "nat \<Rightarrow> nat option \<Rightarrow> 'a sched_scheme \<Rightarrow> 'a sched_scheme" where
  "sched_wake_task cpu task s =
     (case task of None \<Rightarrow> s
      | Some t \<Rightarrow>
          if tk_state (tasks s t) = BLOCKED \<and> \<not> kill_pending (tasks s t)
          then gic_send_ipi (other_cpus cpu) (sched_make_ready_locked t s) else s)"

definition sched_park_task :: "nat option \<Rightarrow> 'a sched_scheme \<Rightarrow> bool \<times> 'a sched_scheme" where
  "sched_park_task task s =
     (case task of None \<Rightarrow> (False, s)
      | Some t \<Rightarrow>
          if tk_id (tasks s t) < 4 then (False, s)
          else if \<not> finished (tk_state (tasks s t)) \<and> \<not> kill_pending (tasks s t) then
            (if wake_pending (tasks s t) then (False, upd_task t (\<lambda>t. t\<lparr>wake_pending := False\<rparr>) s)
             else (True, upd_task t (\<lambda>t. t\<lparr>tk_state := BLOCKED\<rparr>) s))
          else (False, s))"

definition sched_unpark_task :: "nat \<Rightarrow> nat option \<Rightarrow> 'a sched_scheme \<Rightarrow> 'a sched_scheme" where
  "sched_unpark_task cpu task s =
     (case task of None \<Rightarrow> s
      | Some t \<Rightarrow>
          if tk_state (tasks s t) = BLOCKED \<and> \<not> kill_pending (tasks s t)
          then gic_send_ipi (other_cpus cpu) (sched_make_ready_locked t s)
          else if \<not> finished (tk_state (tasks s t)) \<and> \<not> kill_pending (tasks s t)
          then upd_task t (\<lambda>t. t\<lparr>wake_pending := True\<rparr>) s else s)"

definition sched_sleep_current :: "nat \<Rightarrow> nat \<Rightarrow> 'a sched_scheme \<Rightarrow> (bool \<times> 'a sched_scheme) option" where
  "sched_sleep_current cpu ticks s =
     (let task = sched_current cpu s in
      if tk_id (tasks s task) < 4 then Some (False, s)
      else if finished (tk_state (tasks s task)) \<or> kill_pending (tasks s task) then Some (False, s)
      else
        (let s1 = upd_task task (\<lambda>t. t\<lparr>sleep_ticks := ticks\<rparr>) s in
         if ticks = 0 then Some (True, sched_make_ready_locked task s1)
         else do {
           (_, s2) \<leftarrow> sched_rq_remove_locked task s1;
           Some (True, upd_task task (\<lambda>t. t\<lparr>tk_state := BLOCKED\<rparr>) s2)
         }))"

section \<open>Parents, exit status and waiting\<close>

text \<open>\<open>task_exit\<close> up to its call of \<open>schedule\<close>.\<close>

definition task_exit_locked :: "nat \<Rightarrow> 'a sched_scheme \<Rightarrow> 'a sched_scheme" where
  "task_exit_locked cpu s =
     (let me = cpu_task s cpu;
          s1 = fold (\<lambda>i s. if tk_name (tasks s i) \<noteq> None \<and> parent_id (tasks s i) = tk_id (tasks s me) \<and> i \<noteq> me
                           then upd_task i (\<lambda>t. t\<lparr>parent_id := init_task_id s\<rparr>) s else s) [0..<MAX_TASKS] s;
          parent = find_from (\<lambda>i. tk_name (tasks s1 i) \<noteq> None \<and> tk_id (tasks s1 i) = parent_id (tasks s1 me)) 0 MAX_TASKS;
          s2 = upd_task me (\<lambda>t. t\<lparr>tk_state := (if parent = None \<or> tk_id t = init_task_id s1 then DEAD else ZOMBIE)\<rparr>) s1
      in case parent of
           None \<Rightarrow> s2
         | Some p \<Rightarrow>
             if tk_state (tasks s2 p) = BLOCKED
             then gic_send_ipi (other_cpus cpu) (sched_make_ready_locked p s2) else s2)"

definition sched_register_init_task :: "nat option \<Rightarrow> 'a sched_scheme \<Rightarrow> bool \<times> 'a sched_scheme" where
  "sched_register_init_task task s =
     (case task of None \<Rightarrow> (False, s)
      | Some t \<Rightarrow>
          if tk_id (tasks s t) < 4 \<or> init_task_id s \<noteq> SCHED_NO_PARENT then (False, s)
          else (True, upd_task t (\<lambda>t. t\<lparr>parent_id := SCHED_NO_PARENT\<rparr>) (s\<lparr>init_task_id := tk_id (tasks s t)\<rparr>)))"

definition sched_adopt_task :: "nat option \<Rightarrow> 'a sched_scheme \<Rightarrow> bool \<times> 'a sched_scheme" where
  "sched_adopt_task task s =
     (case task of None \<Rightarrow> (False, s)
      | Some t \<Rightarrow>
          if tk_id (tasks s t) < 4 \<or> init_task_id s = SCHED_NO_PARENT \<or> tk_id (tasks s t) = init_task_id s
          then (False, s)
          else (True, upd_task t (\<lambda>t. t\<lparr>parent_id := init_task_id s\<rparr>) s))"

definition sched_test_set_parent :: "nat option \<Rightarrow> nat \<Rightarrow> 'a sched_scheme \<Rightarrow> bool \<times> 'a sched_scheme" where
  "sched_test_set_parent task parent s =
     (case task of None \<Rightarrow> (False, s)
      | Some t \<Rightarrow>
          if tk_id (tasks s t) < 4 then (False, s) else (True, upd_task t (\<lambda>t. t\<lparr>parent_id := parent\<rparr>) s))"

definition sched_test_cpu_snapshot :: "nat \<Rightarrow> 'a sched_scheme \<Rightarrow> (nat \<times> nat) option" where
  "sched_test_cpu_snapshot cpu_id s =
     (if SCHED_MAX_CPUS \<le> cpu_id then None else Some (nr_running (run_queues s cpu_id), switch_count s cpu_id))"

definition sched_set_current_exit_status :: "nat \<Rightarrow> int \<Rightarrow> 'a sched_scheme \<Rightarrow> 'a sched_scheme" where
  "sched_set_current_exit_status cpu status s =
     upd_task (sched_current cpu s) (\<lambda>t. t\<lparr>exit_status := status\<rparr>) s"

text \<open>One round of \<open>sched_wait4\<close>: a zombie child is collected, there is no child, or the caller blocks.\<close>

datatype wait_result = Collected nat int | No_child | Must_wait

definition to_long :: "nat \<Rightarrow> int" where
  "to_long n = (if n < 2 ^ 63 then int n else int n - 2 ^ 64)"

definition is_child :: "int \<Rightarrow> nat \<Rightarrow> 'a sched_scheme \<Rightarrow> nat \<Rightarrow> bool" where
  "is_child pid me s i \<longleftrightarrow> tk_name (tasks s i) \<noteq> None \<and> parent_id (tasks s i) = tk_id (tasks s me) \<and>
     (pid \<le> 0 \<or> to_long (tk_id (tasks s i)) = pid)"

definition wait4_locked :: "nat \<Rightarrow> int \<Rightarrow> 'a sched_scheme \<Rightarrow> wait_result \<times> 'a sched_scheme" where
  "wait4_locked cpu pid s =
     (let me = sched_current cpu s in
      case find_from (\<lambda>i. is_child pid me s i \<and> tk_state (tasks s i) = ZOMBIE) 0 MAX_TASKS of
        Some i \<Rightarrow> (Collected (tk_id (tasks s i)) (exit_status (tasks s i)), upd_task i (\<lambda>t. t\<lparr>tk_state := DEAD\<rparr>) s)
      | None \<Rightarrow>
          (case find_from (is_child pid me s) 0 MAX_TASKS of
             None \<Rightarrow> (No_child, s)
           | Some _ \<Rightarrow> (Must_wait, upd_task me (\<lambda>t. t\<lparr>tk_state := BLOCKED\<rparr>) s)))"

section \<open>Killing and reaping\<close>

definition sched_kill_task :: "nat \<Rightarrow> nat \<Rightarrow> 'a sched_scheme \<Rightarrow> bool \<times> 'a sched_scheme" where
  "sched_kill_task cpu task_id s =
     (case find_from (\<lambda>i. tk_name (tasks s i) \<noteq> None \<and> tk_id (tasks s i) = task_id) 0 MAX_TASKS of
        None \<Rightarrow> (False, s)
      | Some i \<Rightarrow>
          if i = sched_current cpu s \<or> tk_id (tasks s i) < 4 \<or> finished (tk_state (tasks s i)) then (False, s)
          else if tk_state (tasks s i) = RUNNING \<and> current_cpu (tasks s i) \<noteq> TASK_NO_CPU then
            (True, gic_send_ipi (push_bit (current_cpu (tasks s i)) 1) (upd_task i (\<lambda>t. t\<lparr>kill_pending := True\<rparr>) s))
          else (True, upd_task i (\<lambda>t. t\<lparr>tk_state := DEAD, sleep_ticks := 0, wake_pending := False\<rparr>) s))"

definition sched_task_snapshot :: "nat \<Rightarrow> 'a sched_scheme \<Rightarrow> (task_state \<times> nat \<times> bool) option" where
  "sched_task_snapshot task_id s =
     map_option (\<lambda>i. (tk_state (tasks s i), current_cpu (tasks s i), kill_pending (tasks s i)))
       (find_from (\<lambda>i. tk_name (tasks s i) \<noteq> None \<and> tk_id (tasks s i) = task_id) 0 MAX_TASKS)"

text \<open>
  The walk of \<open>sched_reap_dead\<close> round the ring of tasks for a task that is dead and off every CPU;
  the undefined value also stands for a null link in the ring.
\<close>

partial_function (option) find_dead :: "'a sched_scheme \<Rightarrow> nat \<Rightarrow> nat option \<Rightarrow> (nat \<times> nat) option option" where
  "find_dead s prev t =
     (case t of None \<Rightarrow> None
      | Some v \<Rightarrow>
          if v = 0 then Some None
          else if tk_state (tasks s v) = DEAD \<and> current_cpu (tasks s v) = TASK_NO_CPU then Some (Some (prev, v))
          else find_dead s v (task_next s v))"

text \<open>The first half of one round of \<open>sched_reap_dead\<close>: the victim, its stack and its process.\<close>

definition reap_detach_locked ::
    "'a sched_scheme \<Rightarrow> ((nat \<times> nat \<times> nat option) option \<times> 'a sched_scheme) option" where
  "reap_detach_locked s = do {
     found \<leftarrow> find_dead s 0 (task_next s 0);
     case found of
       None \<Rightarrow> Some (None, s)
     | Some (prev, v) \<Rightarrow> do {
         (_, s1) \<leftarrow> sched_rq_remove_locked v s;
         let s2 = s1\<lparr>task_next := (task_next s1)(prev := task_next s1 v)\<rparr>;
             t = tasks s2 v
         in Some (Some (v, stack_base t, tk_process t),
              upd_task v (\<lambda>t. t\<lparr>tk_state := REAPING, stack_base := 0, tk_process := None, tk_mm := None\<rparr>) s2)
       }
   }"

section \<open>Task creation\<close>

text \<open>
  \<open>task_create\<close> and \<open>task_create_user\<close> from the point where the stack at \<open>stack_va\<close> has been
  allocated for the free slot \<open>t\<close>, to their return.
\<close>

abbreviation TASK_TOTAL_PAGES :: nat where "TASK_TOTAL_PAGES \<equiv> 5"

definition task_stack_top :: "nat \<Rightarrow> nat" where
  "task_stack_top stack_va = unat (word_of_nat (stack_va + TASK_TOTAL_PAGES * 4096) AND NOT 0xF :: u64)"

definition task_link :: "nat \<Rightarrow> nat \<Rightarrow> 'a sched_scheme \<Rightarrow> 'a sched_scheme" where
  "task_link cpu t s =
     (let me = cpu_task s cpu; nx = (task_next s)(t := task_next s me) in s\<lparr>task_next := nx(me := Some t)\<rparr>)"

definition task_create_locked :: "nat \<Rightarrow> nat \<Rightarrow> nat \<Rightarrow> nat \<Rightarrow> string \<Rightarrow> 'a sched_scheme \<Rightarrow> 'a sched_scheme" where
  "task_create_locked cpu t stack_va entry name s =
     (let s1 = upd_task t (\<lambda>k. k\<lparr>tk_id := next_task_id s, current_cpu := TASK_NO_CPU, rq_cpu := TASK_NO_CPU,
                 on_rq := False, preempt_count := 0, stack_base := stack_va, stack_size := TASK_TOTAL_PAGES * 4096,
                 tk_name := Some name, tk_mm := None, tk_process := None, parent_id := SCHED_NO_PARENT,
                 tk_context := (tk_context k)\<lparr>x19 := entry, x20 := 0, x21_x29 := replicate 9 0,
                   x30 := Task_entry_trampoline, ctx_sp := task_stack_top stack_va\<rparr>\<rparr>) s;
          s2 = sched_make_ready_locked t (task_link cpu t s1);
          target_cpu = rq_cpu (tasks s2 t);
          s3 = s2\<lparr>next_task_id := add64 (next_task_id s2) 1\<rparr>
      in if target_cpu < SCHED_MAX_CPUS \<and> target_cpu \<noteq> cpu then gic_send_ipi (push_bit target_cpu 1) s3 else s3)"

definition task_create_user_locked ::
    "nat \<Rightarrow> nat \<Rightarrow> nat \<Rightarrow> nat \<Rightarrow> nat \<Rightarrow> nat \<Rightarrow> nat \<Rightarrow> string \<Rightarrow> nat option \<Rightarrow> 'a sched_scheme \<Rightarrow> 'a sched_scheme" where
  "task_create_user_locked cpu t stack_va process mm entry_va stack_top name console s =
     (let s1 = upd_task t (\<lambda>k. k\<lparr>tk_id := next_task_id s, current_cpu := TASK_NO_CPU, rq_cpu := TASK_NO_CPU,
                 on_rq := False, preempt_count := 0, stack_base := stack_va, stack_size := TASK_TOTAL_PAGES * 4096,
                 tk_name := Some name, tk_mm := Some mm, tk_process := Some process, parent_id := SCHED_NO_PARENT,
                 tk_files := (\<lambda>_. None)(1 := console),
                 tk_context := \<lparr>x19 = entry_va, x20 = stack_top, x21_x29 = replicate 9 0,
                   x30 = El0_entry_trampoline, ctx_sp = task_stack_top stack_va, tpidr_el0 = 0\<rparr>\<rparr>) s;
          s2 = upd_task t (\<lambda>k. k\<lparr>tk_state := BLOCKED\<rparr>) (task_link cpu t s1)
      in s2\<lparr>next_task_id := add64 (next_task_id s2) 1\<rparr>)"

section \<open>Specification\<close>

text \<open>The queue of one CPU holds the tasks \<open>xs\<close>; \<open>rqs s Q\<close>: the four queues hold \<open>Q\<close>, and a task
  marked as queued is in the queue its \<open>rq_cpu\<close> names.\<close>

definition rq_list :: "'a sched_scheme \<Rightarrow> nat \<Rightarrow> nat list \<Rightarrow> bool" where
  "rq_list s c xs \<longleftrightarrow> chain (rq_next s) (rq_head (run_queues s c)) xs \<and> rq_tail (run_queues s c) = last_opt xs \<and>
     nr_running (run_queues s c) = length xs \<and>
     (\<forall>t \<in> set xs. t < MAX_TASKS \<and> 4 \<le> tk_id (tasks s t) \<and> on_rq (tasks s t) \<and> rq_cpu (tasks s t) = c)"

definition rqs :: "'a sched_scheme \<Rightarrow> (nat \<Rightarrow> nat list) \<Rightarrow> bool" where
  "rqs s Q \<longleftrightarrow> next_enqueue_cpu s < SCHED_MAX_CPUS \<and> (\<forall>c < SCHED_MAX_CPUS. rq_list s c (Q c)) \<and>
     (\<forall>t. on_rq (tasks s t) \<longrightarrow> rq_cpu (tasks s t) < SCHED_MAX_CPUS \<and> t \<in> set (Q (rq_cpu (tasks s t))))"

text \<open>The state without its queue bookkeeping, which is all that the queue operations change.\<close>

definition sans_rq :: "'a sched_scheme \<Rightarrow> 'a sched_scheme" where
  "sans_rq s = s\<lparr>tasks := \<lambda>t. (tasks s t)\<lparr>on_rq := False, rq_cpu := 0\<rparr>, rq_next := Map.empty,
     run_queues := \<lambda>_. sched_rq_init, next_enqueue_cpu := 0\<rparr>"

text \<open>The scheduler's memory before boot.\<close>

definition sched_zero :: sched where
  "sched_zero = \<lparr>tasks = \<lambda>_. zero_task, task_next = \<lambda>_. None, rq_next = \<lambda>_. None, wait_next = \<lambda>_. None,
     run_queues = \<lambda>_. sched_rq_init, next_task_id = 0, switch_count = \<lambda>_. 0, init_task_id = 0,
     task_slot_exhaustion_reported = False, next_enqueue_cpu = 0, cpu_task = \<lambda>_. 0, cpu_regs = \<lambda>_. zero_context, ipis = []\<rparr>"

section \<open>Run queues as lists\<close>

lemma upd_task_simps [simp]:
  "tasks (upd_task t f s) = (tasks s)(t := f (tasks s t))" "run_queues (upd_task t f s) = run_queues s"
  "rq_next (upd_task t f s) = rq_next s" "task_next (upd_task t f s) = task_next s"
  "wait_next (upd_task t f s) = wait_next s" "next_enqueue_cpu (upd_task t f s) = next_enqueue_cpu s"
  "cpu_task (upd_task t f s) = cpu_task s" "cpu_regs (upd_task t f s) = cpu_regs s"
  "next_task_id (upd_task t f s) = next_task_id s" "init_task_id (upd_task t f s) = init_task_id s"
  "switch_count (upd_task t f s) = switch_count s" "ipis (upd_task t f s) = ipis s"
  "sched.more (upd_task t f s) = sched.more s"
  by (simp_all add: upd_task_def)

lemma upd_rq_simps [simp]:
  "tasks (upd_rq c g s) = tasks s" "run_queues (upd_rq c g s) = (run_queues s)(c := g (run_queues s c))"
  "rq_next (upd_rq c g s) = rq_next s" "task_next (upd_rq c g s) = task_next s"
  "wait_next (upd_rq c g s) = wait_next s" "next_enqueue_cpu (upd_rq c g s) = next_enqueue_cpu s"
  "cpu_task (upd_rq c g s) = cpu_task s" "cpu_regs (upd_rq c g s) = cpu_regs s"
  "next_task_id (upd_rq c g s) = next_task_id s" "init_task_id (upd_rq c g s) = init_task_id s"
  "switch_count (upd_rq c g s) = switch_count s" "ipis (upd_rq c g s) = ipis s"
  "sched.more (upd_rq c g s) = sched.more s"
  by (simp_all add: upd_rq_def)

lemma gic_send_ipi_simps [simp]:
  "tasks (gic_send_ipi m s) = tasks s" "run_queues (gic_send_ipi m s) = run_queues s"
  "rq_next (gic_send_ipi m s) = rq_next s" "task_next (gic_send_ipi m s) = task_next s"
  "wait_next (gic_send_ipi m s) = wait_next s" "next_enqueue_cpu (gic_send_ipi m s) = next_enqueue_cpu s"
  "cpu_task (gic_send_ipi m s) = cpu_task s" "cpu_regs (gic_send_ipi m s) = cpu_regs s"
  "next_task_id (gic_send_ipi m s) = next_task_id s" "init_task_id (gic_send_ipi m s) = init_task_id s"
  "switch_count (gic_send_ipi m s) = switch_count s" "sched.more (gic_send_ipi m s) = sched.more s"
  by (simp_all add: gic_send_ipi_def)

lemma sans_rq_fields:
  assumes "sans_rq s' = sans_rq s"
  shows "tk_state (tasks s' t) = tk_state (tasks s t)" "tk_id (tasks s' t) = tk_id (tasks s t)"
    "tk_name (tasks s' t) = tk_name (tasks s t)" "current_cpu (tasks s' t) = current_cpu (tasks s t)"
    "kill_pending (tasks s' t) = kill_pending (tasks s t)" "wake_pending (tasks s' t) = wake_pending (tasks s t)"
    "sleep_ticks (tasks s' t) = sleep_ticks (tasks s t)" "parent_id (tasks s' t) = parent_id (tasks s t)"
    "stack_base (tasks s' t) = stack_base (tasks s t)" "tk_process (tasks s' t) = tk_process (tasks s t)"
    "exit_status (tasks s' t) = exit_status (tasks s t)" "preempt_count (tasks s' t) = preempt_count (tasks s t)"
    "tk_mm (tasks s' t) = tk_mm (tasks s t)" "tk_context (tasks s' t) = tk_context (tasks s t)"
    "cpu_task s' = cpu_task s" "task_next s' = task_next s" "wait_next s' = wait_next s" "init_task_id s' = init_task_id s"
    "next_task_id s' = next_task_id s" "cpu_regs s' = cpu_regs s" "switch_count s' = switch_count s" "ipis s' = ipis s"
    "sched.more s' = sched.more s"
proof -
  have e: "f (sans_rq s') = f (sans_rq s)" for f :: "'a sched_scheme \<Rightarrow> 'c" using assms by simp
  show "tk_state (tasks s' t) = tk_state (tasks s t)" using e [of "\<lambda>s. tk_state (tasks s t)"] by (simp add: sans_rq_def)
  show "tk_id (tasks s' t) = tk_id (tasks s t)" using e [of "\<lambda>s. tk_id (tasks s t)"] by (simp add: sans_rq_def)
  show "tk_name (tasks s' t) = tk_name (tasks s t)" using e [of "\<lambda>s. tk_name (tasks s t)"] by (simp add: sans_rq_def)
  show "current_cpu (tasks s' t) = current_cpu (tasks s t)" using e [of "\<lambda>s. current_cpu (tasks s t)"] by (simp add: sans_rq_def)
  show "kill_pending (tasks s' t) = kill_pending (tasks s t)" using e [of "\<lambda>s. kill_pending (tasks s t)"] by (simp add: sans_rq_def)
  show "wake_pending (tasks s' t) = wake_pending (tasks s t)" using e [of "\<lambda>s. wake_pending (tasks s t)"] by (simp add: sans_rq_def)
  show "sleep_ticks (tasks s' t) = sleep_ticks (tasks s t)" using e [of "\<lambda>s. sleep_ticks (tasks s t)"] by (simp add: sans_rq_def)
  show "parent_id (tasks s' t) = parent_id (tasks s t)" using e [of "\<lambda>s. parent_id (tasks s t)"] by (simp add: sans_rq_def)
  show "stack_base (tasks s' t) = stack_base (tasks s t)" using e [of "\<lambda>s. stack_base (tasks s t)"] by (simp add: sans_rq_def)
  show "tk_process (tasks s' t) = tk_process (tasks s t)" using e [of "\<lambda>s. tk_process (tasks s t)"] by (simp add: sans_rq_def)
  show "exit_status (tasks s' t) = exit_status (tasks s t)" using e [of "\<lambda>s. exit_status (tasks s t)"] by (simp add: sans_rq_def)
  show "preempt_count (tasks s' t) = preempt_count (tasks s t)" using e [of "\<lambda>s. preempt_count (tasks s t)"] by (simp add: sans_rq_def)
  show "tk_mm (tasks s' t) = tk_mm (tasks s t)" using e [of "\<lambda>s. tk_mm (tasks s t)"] by (simp add: sans_rq_def)
  show "tk_context (tasks s' t) = tk_context (tasks s t)" using e [of "\<lambda>s. tk_context (tasks s t)"] by (simp add: sans_rq_def)
  show "cpu_task s' = cpu_task s" using e [of cpu_task] by (simp add: sans_rq_def)
  show "task_next s' = task_next s" using e [of task_next] by (simp add: sans_rq_def)
  show "wait_next s' = wait_next s" using e [of wait_next] by (simp add: sans_rq_def)
  show "init_task_id s' = init_task_id s" using e [of init_task_id] by (simp add: sans_rq_def)
  show "next_task_id s' = next_task_id s" using e [of next_task_id] by (simp add: sans_rq_def)
  show "cpu_regs s' = cpu_regs s" using e [of cpu_regs] by (simp add: sans_rq_def)
  show "switch_count s' = switch_count s" using e [of switch_count] by (simp add: sans_rq_def)
  show "ipis s' = ipis s" using e [of ipis] by (simp add: sans_rq_def)
  show "sched.more s' = sched.more s" using e [of sched.more] by (simp add: sans_rq_def)
qed

lemma rqs_distinct:
  assumes "rqs s Q" "c < SCHED_MAX_CPUS"
  shows "distinct (Q c)" "length (Q c) \<le> MAX_TASKS" "d < SCHED_MAX_CPUS \<Longrightarrow> d \<noteq> c \<Longrightarrow> set (Q c) \<inter> set (Q d) = {}"
proof -
  have q: "rq_list s d (Q d)" if "d < SCHED_MAX_CPUS" for d using assms(1) that by (simp add: rqs_def)
  show d: "distinct (Q c)" using q [OF assms(2)] by (auto simp: rq_list_def dest: chain_distinct)
  have "set (Q c) \<subseteq> {..<MAX_TASKS}" using q [OF assms(2)] by (auto simp: rq_list_def)
  then have "card (set (Q c)) \<le> MAX_TASKS" by (metis card_lessThan card_mono finite_lessThan)
  with d show "length (Q c) \<le> MAX_TASKS" by (simp add: distinct_card)
  show "set (Q c) \<inter> set (Q d) = {}" if "d < SCHED_MAX_CPUS" "d \<noteq> c"
    using q [OF assms(2)] q [OF that(1)] that(2) by (auto simp: rq_list_def)
qed

lemma rqs_queued:
  assumes "rqs s Q"
  shows "on_rq (tasks s t) \<longleftrightarrow> (\<exists>c < SCHED_MAX_CPUS. t \<in> set (Q c))"
    "c < SCHED_MAX_CPUS \<Longrightarrow> t \<in> set (Q c) \<Longrightarrow> rq_cpu (tasks s t) = c \<and> 4 \<le> tk_id (tasks s t) \<and> t < MAX_TASKS"
    "c < SCHED_MAX_CPUS \<Longrightarrow> nr_running (run_queues s c) = length (Q c)"
  using assms by (auto simp: rqs_def rq_list_def)

lemma rqs_upd:
  assumes q: "rqs s Q" and c: "c < SCHED_MAX_CPUS"
    and new: "rq_list s' c xs"
    and lk: "\<And>t. t \<notin> set (Q c) \<Longrightarrow> t \<notin> set xs \<Longrightarrow> rq_next s' t = rq_next s t \<and> on_rq (tasks s' t) = on_rq (tasks s t) \<and>
      rq_cpu (tasks s' t) = rq_cpu (tasks s t)"
    and id: "\<And>t. tk_id (tasks s' t) = tk_id (tasks s t)"
    and rq: "\<And>d. d \<noteq> c \<Longrightarrow> run_queues s' d = run_queues s d"
    and sub: "\<And>t. t \<in> set xs \<Longrightarrow> t \<notin> set (Q c) \<Longrightarrow> \<not> on_rq (tasks s t)"
    and off: "\<And>t. t \<in> set (Q c) \<Longrightarrow> t \<notin> set xs \<Longrightarrow> \<not> on_rq (tasks s' t)"
    and n: "next_enqueue_cpu s' < SCHED_MAX_CPUS"
  shows "rqs s' (Q(c := xs))"
proof -
  have other: "rq_list s' d (Q d)" if d: "d < SCHED_MAX_CPUS" "d \<noteq> c" for d
  proof -
    have out: "t \<notin> set (Q c) \<and> t \<notin> set xs" if "t \<in> set (Q d)" for t
      using rqs_distinct(3) [OF q c d] that rqs_queued(1) [OF q, of t] sub [of t] d(1) by auto
    have "rq_list s d (Q d)" using q d(1) by (simp add: rqs_def)
    then show ?thesis
      using out lk chain_cong [of "Q d" "rq_next s'" "rq_next s"] by (simp add: rq_list_def rq [OF d(2)] id)
  qed
  have on: "rq_cpu (tasks s' t) < SCHED_MAX_CPUS \<and> t \<in> set ((Q(c := xs)) (rq_cpu (tasks s' t)))" if "on_rq (tasks s' t)" for t
  proof (cases "t \<in> set xs")
    case True
    then have "rq_cpu (tasks s' t) = c" using new by (auto simp: rq_list_def)
    with True c show ?thesis by simp
  next
    case False
    with off that have "t \<notin> set (Q c)" by blast
    with False lk [of t] that q show ?thesis by (auto simp: rqs_def)
  qed
  show ?thesis using other new on n by (auto simp: rqs_def)
qed

lemma enqueue_rqs:
  assumes q: "rqs s Q" and t: "t < MAX_TASKS" "4 \<le> tk_id (tasks s t)" "\<not> on_rq (tasks s t)" and c: "c < SCHED_MAX_CPUS"
    and s': "s' = sched_rq_enqueue_locked t c s"
  shows "rqs s' (Q(c := Q c @ [t]))" "sans_rq s' = sans_rq s"
    "tasks s' = (tasks s)(t := (tasks s t)\<lparr>rq_cpu := c, on_rq := True\<rparr>)"
proof -
  note d = rqs_distinct [OF q c] and in_q = rqs_queued [OF q]
  have l: "rq_list s c (Q c)" using q c by (simp add: rqs_def)
  have tq: "t \<notin> set (Q c)" using t(3) c in_q(1) by blast
  have ts: "tasks s' = (tasks s)(t := (tasks s t)\<lparr>rq_cpu := c, on_rq := True\<rparr>)"
    "next_enqueue_cpu s' = next_enqueue_cpu s" "\<And>d. d \<noteq> c \<Longrightarrow> run_queues s' d = run_queues s d"
    using t c by (auto simp: s' sched_rq_enqueue_locked_def Let_def split: option.splits)
  show "tasks s' = (tasks s)(t := (tasks s t)\<lparr>rq_cpu := c, on_rq := True\<rparr>)" by (rule ts(1))
  show "sans_rq s' = sans_rq s"
    using t c by (auto simp: s' sched_rq_enqueue_locked_def Let_def sans_rq_def upd_task_def upd_rq_def fun_eq_iff split: option.splits)
  have n: "nr_running (run_queues s c) + 1 < two32" using l d(2) by (simp add: rq_list_def)
  have new: "rq_list s' c (Q c @ [t])" and lk: "\<And>u. u \<notin> set (Q c) \<Longrightarrow> u \<noteq> t \<Longrightarrow> rq_next s' u = rq_next s u"
  proof -
    show "rq_list s' c (Q c @ [t])"
    proof (cases "Q c" rule: rev_cases)
      case Nil
      with l t c n show ?thesis
        by (auto simp: s' sched_rq_enqueue_locked_def Let_def rq_list_def add32_exact last_opt_def)
    next
      case (snoc ys y)
      with l have "chain (rq_next s) (rq_head (run_queues s c)) (ys @ [y])" "rq_tail (run_queues s c) = Some y" by (simp_all add: rq_list_def)
      then have "chain ((rq_next s)(t := None, y := Some t)) (rq_head (run_queues s c)) (ys @ [y, t])"
        using chain_append_node [of "rq_next s" _ ys y t] tq snoc by simp
      with l t c n snoc tq show ?thesis
        by (auto simp: s' sched_rq_enqueue_locked_def Let_def rq_list_def add32_exact last_opt_def)
    qed
    show "rq_next s' u = rq_next s u" if "u \<notin> set (Q c)" "u \<noteq> t" for u
      using l t c that by (auto simp: s' sched_rq_enqueue_locked_def Let_def rq_list_def last_opt_def split: option.splits if_splits)
  qed
  show "rqs s' (Q(c := Q c @ [t]))"
    by (rule rqs_upd [OF q c new]) (use ts lk t q in \<open>auto simp: rqs_def\<close>)
qed

lemma dequeue_rqs:
  assumes q: "rqs s Q" and c: "c < SCHED_MAX_CPUS"
  shows "Q c = [] \<Longrightarrow> sched_rq_dequeue_locked c s = (None, s)"
    "Q c = x # xs \<Longrightarrow> \<exists>s'. sched_rq_dequeue_locked c s = (Some x, s') \<and> rqs s' (Q(c := xs)) \<and> sans_rq s' = sans_rq s \<and>
       tasks s' = (tasks s)(x := (tasks s x)\<lparr>on_rq := False\<rparr>)"
proof -
  have l: "rq_list s c (Q c)" using q c by (simp add: rqs_def)
  show "Q c = [] \<Longrightarrow> sched_rq_dequeue_locked c s = (None, s)"
    using l by (simp add: sched_rq_dequeue_locked_def rq_list_def)
  assume Q: "Q c = x # xs"
  define s' where "s' = snd (sched_rq_dequeue_locked c s)"
  have h: "rq_head (run_queues s c) = Some x" using l by (simp add: rq_list_def Q)
  have res: "sched_rq_dequeue_locked c s = (Some x, s')" by (simp add: s'_def sched_rq_dequeue_locked_def h Let_def)
  have ts: "tasks s' = (tasks s)(x := (tasks s x)\<lparr>on_rq := False\<rparr>)" "rq_next s' = (rq_next s)(x := None)"
    "next_enqueue_cpu s' = next_enqueue_cpu s" "\<And>d. d \<noteq> c \<Longrightarrow> run_queues s' d = run_queues s d"
    "rq_head (run_queues s' c) = rq_next s x"
    "rq_tail (run_queues s' c) = (if rq_next s x = None then None else rq_tail (run_queues s c))"
    "nr_running (run_queues s' c) = nr_running (run_queues s c) - 1"
    by (simp_all add: s'_def sched_rq_dequeue_locked_def h Let_def)
  have sans: "sans_rq s' = sans_rq s"
    by (auto simp: s'_def sched_rq_dequeue_locked_def h Let_def sans_rq_def upd_task_def upd_rq_def fun_eq_iff)
  have x: "x \<notin> set xs" using rqs_distinct(1) [OF q c] Q by simp
  have new: "rq_list s' c xs"
    using l x Q by (cases xs) (auto simp: rq_list_def ts chain_simps last_opt_def)
  have "rqs s' (Q(c := xs))"
    by (rule rqs_upd [OF q c new]) (use ts Q q x in \<open>auto simp: rqs_def\<close>)
  with res sans ts(1) show "\<exists>s'. sched_rq_dequeue_locked c s = (Some x, s') \<and> rqs s' (Q(c := xs)) \<and> sans_rq s' = sans_rq s \<and>
       tasks s' = (tasks s)(x := (tasks s x)\<lparr>on_rq := False\<rparr>)" by blast
qed

text \<open>The walk of \<open>sched_rq_remove_locked\<close> finds the task and unlinks it.\<close>

lemma rq_remove_walk:
  "seg (rq_next s) p ps cur \<Longrightarrow> chain (rq_next s) cur (xs @ t # ys) \<Longrightarrow> t \<notin> set xs \<Longrightarrow>
     rq_remove_from c t (last_opt ps) cur s = rq_remove_from c t (last_opt (ps @ xs)) (Some t) s"
proof (induction xs arbitrary: ps cur)
  case (Cons x xs)
  then have cur: "cur = Some x" "x \<noteq> t" by auto
  have "rq_remove_from c t (last_opt ps) cur s = rq_remove_from c t (last_opt (ps @ [x])) (rq_next s x) s"
    using cur by (subst rq_remove_from.simps) simp
  also have "\<dots> = rq_remove_from c t (last_opt ((ps @ [x]) @ xs)) (Some t) s"
    by (rule Cons.IH) (use Cons.prems cur in \<open>auto simp: seg_snoc\<close>)
  finally show ?case by simp
qed auto

lemma remove_rqs_queued:
  assumes q: "rqs s Q" and on: "on_rq (tasks s t)" and c: "rq_cpu (tasks s t) = c"
  shows "\<exists>s'. sched_rq_remove_locked t s = Some (True, s') \<and> rqs s' (Q(c := remove1 t (Q c))) \<and> sans_rq s' = sans_rq s \<and>
    tasks s' = (tasks s)(t := (tasks s t)\<lparr>on_rq := False\<rparr>)"
proof -
  have c4: "c < SCHED_MAX_CPUS" "t \<in> set (Q c)" using q on c by (auto simp: rqs_def)
  then obtain xs ys where Q: "Q c = xs @ t # ys" "t \<notin> set xs" by (meson split_list_first)
  have l: "rq_list s c (xs @ t # ys)" using q c4(1) Q(1) by (auto simp: rqs_def)
  then have ch: "chain (rq_next s) (rq_head (run_queues s c)) (xs @ t # ys)" by (simp add: rq_list_def)
  have d: "distinct (xs @ t # ys)" using ch by (rule chain_distinct)
  define s1 where "s1 = (case last_opt xs of None \<Rightarrow> upd_rq c (\<lambda>rq. rq\<lparr>rq_head := rq_next s t\<rparr>) s
      | Some p \<Rightarrow> s\<lparr>rq_next := (rq_next s)(p := rq_next s t)\<rparr>)"
  define s2 where "s2 = upd_rq c (\<lambda>rq. rq\<lparr>rq_tail := (if rq_tail rq = Some t then last_opt xs else rq_tail rq),
      nr_running := (if 0 < nr_running rq then nr_running rq - 1 else nr_running rq)\<rparr>) s1"
  define s' where "s' = upd_task t (\<lambda>t. t\<lparr>on_rq := False\<rparr>) (s2\<lparr>rq_next := (rq_next s2)(t := None)\<rparr>)"
  have res: "sched_rq_remove_locked t s = Some (True, s')"
    using on c c4 rq_remove_walk [of s _ "[]" "rq_head (run_queues s c)" xs t ys c] ch Q(2)
    by (simp add: sched_rq_remove_locked_def)
      (subst rq_remove_from.simps, simp add: s'_def s2_def s1_def Let_def)
  have ts: "tasks s' = (tasks s)(t := (tasks s t)\<lparr>on_rq := False\<rparr>)" "next_enqueue_cpu s' = next_enqueue_cpu s"
    "\<And>d. d \<noteq> c \<Longrightarrow> run_queues s' d = run_queues s d" "nr_running (run_queues s' c) = length (xs @ ys)"
    "rq_tail (run_queues s' c) = (if ys = [] then last_opt xs else last_opt ys)"
  proof -
    have s1: "tasks s1 = tasks s" "next_enqueue_cpu s1 = next_enqueue_cpu s" "\<And>d. d \<noteq> c \<Longrightarrow> run_queues s1 d = run_queues s d"
      "nr_running (run_queues s1 c) = nr_running (run_queues s c)" "rq_tail (run_queues s1 c) = rq_tail (run_queues s c)"
      by (simp_all add: s1_def split: option.split)
    have "nr_running (run_queues s c) = length (xs @ t # ys)" "rq_tail (run_queues s c) = last_opt (xs @ t # ys)"
      using l by (simp_all add: rq_list_def)
    moreover have "last_opt (xs @ t # ys) = Some t \<longleftrightarrow> ys = []" "ys \<noteq> [] \<Longrightarrow> last_opt (xs @ t # ys) = last_opt ys"
      using d by (auto simp: last_opt_def)
    ultimately show "tasks s' = (tasks s)(t := (tasks s t)\<lparr>on_rq := False\<rparr>)" "next_enqueue_cpu s' = next_enqueue_cpu s"
      "\<And>d. d \<noteq> c \<Longrightarrow> run_queues s' d = run_queues s d" "nr_running (run_queues s' c) = length (xs @ ys)"
      "rq_tail (run_queues s' c) = (if ys = [] then last_opt xs else last_opt ys)"
      by (simp_all add: s'_def s2_def s1)
  qed
  have lk: "chain (rq_next s') (rq_head (run_queues s' c)) (xs @ ys)"
    "\<And>u. u \<notin> set (xs @ t # ys) \<Longrightarrow> rq_next s' u = rq_next s u"
  proof -
    show "rq_next s' u = rq_next s u" if "u \<notin> set (xs @ t # ys)" for u
      using that by (auto simp: s'_def s2_def s1_def last_opt_def)
    show "chain (rq_next s') (rq_head (run_queues s' c)) (xs @ ys)"
    proof (cases xs rule: rev_cases)
      case Nil
      with ch d show ?thesis by (auto simp: s'_def s2_def s1_def chain_simps)
    next
      case (snoc zs z)
      with ch d chain_unlink_mid [of "rq_next s" _ zs z t ys] show ?thesis
        by (auto simp: s'_def s2_def s1_def chain_simps)
    qed
  qed
  have new: "rq_list s' c (xs @ ys)"
    unfolding rq_list_def ts(1,4,5)
  proof (intro conjI lk(1) ballI)
    show "(if ys = [] then last_opt xs else last_opt ys) = last_opt (xs @ ys)" by (simp add: last_opt_def)
    fix u assume "u \<in> set (xs @ ys)"
    then have "u \<in> set (xs @ t # ys)" "u \<noteq> t" using d by auto
    then show "u < MAX_TASKS" "4 \<le> tk_id (((tasks s)(t := (tasks s t)\<lparr>on_rq := False\<rparr>)) u)"
      "on_rq (((tasks s)(t := (tasks s t)\<lparr>on_rq := False\<rparr>)) u)" "rq_cpu (((tasks s)(t := (tasks s t)\<lparr>on_rq := False\<rparr>)) u) = c"
      using l by (auto simp: rq_list_def)
  qed simp
  have sans: "sans_rq s' = sans_rq s"
    by (cases "last_opt xs") (auto simp: s'_def s2_def s1_def sans_rq_def upd_task_def upd_rq_def fun_eq_iff)
  have "rqs s' (Q(c := xs @ ys))"
    by (rule rqs_upd [OF q c4(1) new]) (use ts lk(2) Q q in \<open>auto simp: rqs_def\<close>)
  moreover have "remove1 t (Q c) = xs @ ys" using Q by (simp add: remove1_append)
  ultimately show ?thesis using res sans ts(1) by (simp only: simp_thms) blast
qed

lemma remove_rqs:
  assumes q: "rqs s Q"
  obtains s' Q' where "sched_rq_remove_locked t s = Some (on_rq (tasks s t), s')" "rqs s' Q'" "sans_rq s' = sans_rq s"
    "tasks s' = (tasks s)(t := (tasks s t)\<lparr>on_rq := False\<rparr>)" "\<And>c. c < SCHED_MAX_CPUS \<Longrightarrow> Q' c = remove1 t (Q c)"
proof (cases "on_rq (tasks s t)")
  case True
  let ?c = "rq_cpu (tasks s t)"
  obtain s' where "sched_rq_remove_locked t s = Some (True, s')" "rqs s' (Q(?c := remove1 t (Q ?c)))" "sans_rq s' = sans_rq s"
    "tasks s' = (tasks s)(t := (tasks s t)\<lparr>on_rq := False\<rparr>)"
    using remove_rqs_queued [OF q True refl] by blast
  moreover have "(Q(?c := remove1 t (Q ?c))) c = remove1 t (Q c)" if "c < SCHED_MAX_CPUS" for c
    using rqs_queued(2) [OF q that, of t] by (auto intro!: remove1_idem [symmetric])
  ultimately show thesis using that True by simp
next
  case False
  have "tasks s = (tasks s)(t := (tasks s t)\<lparr>on_rq := False\<rparr>)" using False by (simp add: fun_upd_idem)
  moreover have "Q c = remove1 t (Q c)" if "c < SCHED_MAX_CPUS" for c
    using rqs_queued(1) [OF q, of t] False that by (auto simp: remove1_idem)
  moreover have "sched_rq_remove_locked t s = Some (on_rq (tasks s t), s)" using False by (simp add: sched_rq_remove_locked_def)
  ultimately show thesis using that [OF _ q refl] by blast
qed

text \<open>What \<open>dequeue_ready\<close> does to the queue of a CPU: it drops the tasks that are not ready up to
  the first one that is.\<close>

lemma dequeue_ready_rqs:
  assumes "rqs s Q" "c < SCHED_MAX_CPUS" "ys = dropWhile (\<lambda>t. tk_state (tasks s t) \<noteq> READY) (Q c)"
  shows "\<exists>s'. dequeue_ready c s = Some (case ys of [] \<Rightarrow> None | y # _ \<Rightarrow> Some y, s') \<and> rqs s' (Q(c := tl ys)) \<and>
    sans_rq s' = sans_rq s \<and> (\<forall>t. t \<notin> set (Q c) \<longrightarrow> tasks s' t = tasks s t) \<and>
    (\<forall>t. t \<in> set (tl ys) \<longrightarrow> tasks s' t = tasks s t)"
  using assms
proof (induction "Q c" arbitrary: s Q)
  case Nil
  then have "dequeue_ready c s = Some (None, s)"
    using dequeue_rqs(1) [OF Nil(2,3)] by (subst dequeue_ready.simps) simp
  moreover have "ys = []" "Q(c := []) = Q" using Nil by (auto simp: fun_upd_idem)
  ultimately show ?case using Nil.prems(1) by (intro exI [of _ s]) simp
next
  case (Cons x xs)
  obtain s1 where s1: "sched_rq_dequeue_locked c s = (Some x, s1)" "rqs s1 (Q(c := xs))" "sans_rq s1 = sans_rq s"
    "tasks s1 = (tasks s)(x := (tasks s x)\<lparr>on_rq := False\<rparr>)"
    using dequeue_rqs(2) [OF Cons.prems(1,2) Cons.hyps(2) [symmetric]] by blast
  note f = sans_rq_fields [OF s1(3)]
  have x: "x \<notin> set xs" using rqs_distinct(1) [OF Cons.prems(1,2)] Cons.hyps(2) by (metis distinct.simps(2))
  show ?case
  proof (cases "tk_state (tasks s x) = READY")
    case True
    then have "dequeue_ready c s = Some (Some x, s1)" using s1(1) f(1) by (subst dequeue_ready.simps) simp
    with True Cons.hyps(2) Cons.prems(3) s1 x show ?thesis by (auto simp: Cons.hyps(2) [symmetric])
  next
    case False
    then have e: "dequeue_ready c s = dequeue_ready c s1" using s1(1) f(1) by (subst dequeue_ready.simps) simp
    have "ys = dropWhile (\<lambda>t. tk_state (tasks s1 t) \<noteq> READY) ((Q(c := xs)) c)"
      using Cons.prems(3) Cons.hyps(2) [symmetric] False f(1) by simp
    moreover have "xs = (Q(c := xs)) c" by simp
    ultimately have "\<exists>s'. dequeue_ready c s1 = Some (case ys of [] \<Rightarrow> None | y # _ \<Rightarrow> Some y, s') \<and> rqs s' (Q(c := xs, c := tl ys)) \<and>
      sans_rq s' = sans_rq s1 \<and> (\<forall>t. t \<notin> set ((Q(c := xs)) c) \<longrightarrow> tasks s' t = tasks s1 t) \<and>
      (\<forall>t. t \<in> set (tl ys) \<longrightarrow> tasks s' t = tasks s1 t)"
      using Cons.hyps(1) s1(2) Cons.prems(2) by blast
    then obtain s' where
      "dequeue_ready c s1 = Some (case ys of [] \<Rightarrow> None | y # _ \<Rightarrow> Some y, s')" "rqs s' (Q(c := xs, c := tl ys))"
      "sans_rq s' = sans_rq s1" "\<forall>t. t \<notin> set xs \<longrightarrow> tasks s' t = tasks s1 t" "\<forall>t. t \<in> set (tl ys) \<longrightarrow> tasks s' t = tasks s1 t"
      unfolding fun_upd_same by (elim exE conjE)
    moreover have "set (tl ys) \<subseteq> set xs"
    proof -
      have "ys = dropWhile (\<lambda>t. tk_state (tasks s t) \<noteq> READY) xs" using Cons.prems(3) Cons.hyps(2) [symmetric] False by simp
      then have "set ys \<subseteq> set xs" by (auto dest: set_dropWhileD)
      then show ?thesis by (cases ys) auto
    qed
    ultimately show ?thesis using e s1(3,4) x Cons.hyps(2) [symmetric] by auto
  qed
qed

lemma four_cpus: "c < SCHED_MAX_CPUS \<longleftrightarrow> c = 0 \<or> c = 1 \<or> c = 2 \<or> c = 3"
  by auto

text \<open>The two linear searches, for a smallest and for a largest value.\<close>

lemma fold_least:
  fixes load :: "nat \<Rightarrow> nat"
  shows "b = fold (\<lambda>k b. if load (g k) < load b then g k else b) ks b0 \<Longrightarrow>
    b \<in> insert b0 (g ` set ks) \<and> (\<forall>x \<in> insert b0 (g ` set ks). load b \<le> load x)"
  by (induction ks arbitrary: b0) (fastforce split: if_splits)+

lemma fold_greatest:
  fixes load :: "nat \<Rightarrow> nat"
  shows "b = fold (\<lambda>k b. if load b < load k then k else b) ks b0 \<Longrightarrow>
    b \<in> insert b0 (set ks) \<and> (\<forall>x \<in> insert b0 (set ks). load x \<le> load b)"
  by (induction ks arbitrary: b0) (fastforce split: if_splits)+

lemma four_from: "f < 4 \<Longrightarrow> insert f ((\<lambda>k. (f + k) mod 4) ` set [1, 2, 3]) = {..<SCHED_MAX_CPUS :: nat}"
  unfolding four_cpus by (elim disjE) auto

lemma least_loaded:
  assumes n: "next_enqueue_cpu s < SCHED_MAX_CPUS" and r: "sched_least_loaded_cpu_locked s = (b, s')"
  shows "b < SCHED_MAX_CPUS" "s' = s\<lparr>next_enqueue_cpu := (b + 1) mod SCHED_MAX_CPUS\<rparr>"
    "\<And>c. c < SCHED_MAX_CPUS \<Longrightarrow> nr_running (run_queues s b) \<le> nr_running (run_queues s c)"
proof -
  let ?n = "\<lambda>c. nr_running (run_queues s c)"
  from r have e: "fold (\<lambda>k b. if ?n ((next_enqueue_cpu s + k) mod 4) < ?n b then (next_enqueue_cpu s + k) mod 4 else b) [1, 2, 3] (next_enqueue_cpu s) = b \<and>
      s\<lparr>next_enqueue_cpu := (b + 1) mod SCHED_MAX_CPUS\<rparr> = s'"
    unfolding sched_least_loaded_cpu_locked_def Let_def prod.inject by (elim conjE) (intro conjI; simp only:)
  show "s' = s\<lparr>next_enqueue_cpu := (b + 1) mod SCHED_MAX_CPUS\<rparr>" using e by simp
  have "b \<in> {..<SCHED_MAX_CPUS} \<and> (\<forall>x \<in> {..<SCHED_MAX_CPUS}. ?n b \<le> ?n x)"
    using fold_least [OF conjunct1 [OF e, symmetric]] unfolding four_from [OF n] .
  then show "b < SCHED_MAX_CPUS" "\<And>c. c < SCHED_MAX_CPUS \<Longrightarrow> ?n b \<le> ?n c" by auto
qed

lemma rqs_cong:
  assumes "rqs s Q" "rq_next s' = rq_next s" "next_enqueue_cpu s' = next_enqueue_cpu s"
    "\<And>t. on_rq (tasks s' t) = on_rq (tasks s t) \<and> rq_cpu (tasks s' t) = rq_cpu (tasks s t) \<and> tk_id (tasks s' t) = tk_id (tasks s t)"
    "\<And>c. rq_head (run_queues s' c) = rq_head (run_queues s c) \<and> rq_tail (run_queues s' c) = rq_tail (run_queues s c) \<and>
       nr_running (run_queues s' c) = nr_running (run_queues s c)"
  shows "rqs s' Q"
  using assms(1) by (simp add: rqs_def rq_list_def assms(2-5))

lemma make_ready_rqs:
  assumes q: "rqs s Q" and t: "t < MAX_TASKS" "4 \<le> tk_id (tasks s t)" "\<not> on_rq (tasks s t)"
  obtains c Q' where "c < SCHED_MAX_CPUS" "rqs (sched_make_ready_locked t s) Q'" "Q' = Q(c := Q c @ [t])"
    "\<And>d. d < SCHED_MAX_CPUS \<Longrightarrow> length (Q c) \<le> length (Q d)"
    "sans_rq (sched_make_ready_locked t s) = sans_rq (upd_task t (\<lambda>t. t\<lparr>tk_state := READY\<rparr>) s)"
    "tasks (sched_make_ready_locked t s) = (tasks s)(t := (tasks s t)\<lparr>tk_state := READY, rq_cpu := c, on_rq := True\<rparr>)"
proof -
  define s1 where "s1 = upd_task t (\<lambda>t. t\<lparr>tk_state := READY\<rparr>) s"
  obtain c s2 where ll: "sched_least_loaded_cpu_locked s1 = (c, s2)" by (rule prod.exhaust)
  define s3 where "s3 = sched_rq_enqueue_locked t c s2"
  have q1: "rqs s1 Q" using q by (simp add: s1_def rqs_def rq_list_def)
  then have n: "next_enqueue_cpu s1 < SCHED_MAX_CPUS" by (simp add: rqs_def)
  note l = least_loaded [OF n ll]
  have q2: "rqs s2 Q" using q1 by (simp add: l(2) rqs_def rq_list_def)
  have t2: "4 \<le> tk_id (tasks s2 t)" "\<not> on_rq (tasks s2 t)" using t by (simp_all add: l(2) s1_def)
  note e = enqueue_rqs [OF q2 t(1) t2 l(1) s3_def]
  have r: "sched_make_ready_locked t s = upd_rq c (\<lambda>rq. rq\<lparr>need_resched := True\<rparr>) s3"
    using t(2) ll by (simp add: sched_make_ready_locked_def s1_def s3_def Let_def)
  have "rqs (sched_make_ready_locked t s) (Q(c := Q c @ [t]))"
    by (rule rqs_cong [OF e(1)]) (simp_all add: r)
  moreover have "length (Q c) \<le> length (Q d)" if "d < SCHED_MAX_CPUS" for d
    using l(1,3) that rqs_queued(3) [OF q1] by simp
  moreover have "sans_rq (sched_make_ready_locked t s) = sans_rq s1"
  proof -
    have "sans_rq (sched_make_ready_locked t s) = sans_rq s3" by (simp add: r sans_rq_def upd_rq_def)
    also have "\<dots> = sans_rq s1" unfolding e(2) by (simp add: l(2) sans_rq_def)
    finally show ?thesis .
  qed
  moreover have "tasks (sched_make_ready_locked t s) = (tasks s)(t := (tasks s t)\<lparr>tk_state := READY, rq_cpu := c, on_rq := True\<rparr>)"
    using e(3) by (simp add: r l(2) s1_def)
  ultimately show thesis using that [OF l(1) _ refl] by (simp add: s1_def)
qed

text \<open>The queue operations leave a task outside their queue alone and otherwise only unmark it.\<close>

lemma busiest:
  assumes c: "cpu < SCHED_MAX_CPUS"
  shows "busiest_cpu cpu s < SCHED_MAX_CPUS"
    "\<And>d. d < SCHED_MAX_CPUS \<Longrightarrow> nr_running (run_queues s d) \<le> nr_running (run_queues s (busiest_cpu cpu s))"
proof -
  have "insert cpu (set [0, 1, 2, 3]) = {..<SCHED_MAX_CPUS}" using c unfolding four_cpus by auto
  with fold_greatest [OF busiest_cpu_def [of cpu s]] show "busiest_cpu cpu s < SCHED_MAX_CPUS"
    "\<And>d. d < SCHED_MAX_CPUS \<Longrightarrow> nr_running (run_queues s d) \<le> nr_running (run_queues s (busiest_cpu cpu s))"
    by (simp_all only: lessThan_iff)
qed

lemma dequeue_ready_spec:
  assumes q: "rqs s Q" and c: "c < SCHED_MAX_CPUS"
  shows "\<exists>s' zs. dequeue_ready c s = Some (find (\<lambda>v. tk_state (tasks s v) = READY) (Q c), s') \<and>
    rqs s' (Q(c := zs)) \<and> sans_rq s' = sans_rq s \<and>
    (\<forall>u. on_rq (tasks s' u) \<longrightarrow> on_rq (tasks s u)) \<and>
    (\<forall>u. tk_state (tasks s u) = READY \<longrightarrow> on_rq (tasks s u) \<longrightarrow>
       on_rq (tasks s' u) \<or> find (\<lambda>v. tk_state (tasks s v) = READY) (Q c) = Some u) \<and>
    (\<forall>u. find (\<lambda>v. tk_state (tasks s v) = READY) (Q c) = Some u \<longrightarrow>
       on_rq (tasks s u) \<and> \<not> on_rq (tasks s' u) \<and> tk_state (tasks s u) = READY) \<and>
    (find (\<lambda>v. tk_state (tasks s v) = READY) (Q c) = None \<longrightarrow> zs = []) \<and>
    zs = tl (dropWhile (\<lambda>v. tk_state (tasks s v) \<noteq> READY) (Q c))"
proof -
  let ?P = "\<lambda>v. tk_state (tasks s v) = READY"
  define ys where "ys = dropWhile (\<lambda>t. tk_state (tasks s t) \<noteq> READY) (Q c)"
  have f: "find ?P (Q c) = (case ys of [] \<Rightarrow> None | y # _ \<Rightarrow> Some y)"
    by (simp add: find_dropWhile ys_def comp_def)
  obtain s' where s': "dequeue_ready c s = Some (find ?P (Q c), s')" "rqs s' (Q(c := tl ys))" "sans_rq s' = sans_rq s"
    using dequeue_ready_rqs [OF q c ys_def] unfolding f by blast
  note on = rqs_queued(1) [OF q] and on' = rqs_queued(1) [OF s'(2)] and d = rqs_distinct [OF q c]
  have tl: "set (tl ys) \<subseteq> set ys" by (cases ys) auto
  have ys: "set ys \<subseteq> set (Q c)" by (auto simp: ys_def dest: set_dropWhileD)
  have keep: "u \<in> set ys" if "u \<in> set (Q c)" "?P u" for u
    using that takeWhile_dropWhile_id [of "\<lambda>t. tk_state (tasks s t) \<noteq> READY" "Q c"]
    by (metis (mono_tags, lifting) Un_iff set_append set_takeWhileD ys_def)
  show ?thesis
  proof (intro exI [of _ s'] exI [of _ "tl ys"] conjI s' allI impI)
    show "on_rq (tasks s u)" if "on_rq (tasks s' u)" for u
      using that tl ys c unfolding on on' by (auto split: if_splits)
    show "on_rq (tasks s' u) \<or> find ?P (Q c) = Some u" if u: "?P u" "on_rq (tasks s u)" for u
    proof -
      from u(2) obtain e where e: "e < SCHED_MAX_CPUS" "u \<in> set (Q e)" unfolding on by blast
      show ?thesis
      proof (cases "e = c")
        case True
        with keep e u(1) have "u \<in> set ys" by simp
        then show ?thesis unfolding on' f using c by (cases ys) auto
      next
        case False
        with e show ?thesis unfolding on' by auto
      qed
    qed
    fix u assume that: "find ?P (Q c) = Some u"
    have "on_rq (tasks s u) \<and> \<not> on_rq (tasks s' u) \<and> ?P u"
    proof -
      from that f obtain zs where zs: "ys = u # zs" by (cases ys) auto
      have "u \<in> set (Q c)" "?P u" using that by (auto simp: find_Some_iff)
      moreover have "u \<notin> set zs"
      proof -
        have "distinct ys" unfolding ys_def by (rule distinct_dropWhile [OF d(1)])
        with zs show ?thesis by simp
      qed
      moreover have "u \<notin> set (Q e)" if "e < SCHED_MAX_CPUS" "e \<noteq> c" for e using d(3) [OF that] \<open>u \<in> set (Q c)\<close> by auto
      ultimately show ?thesis unfolding on on' using zs c by auto
    qed
    then show "on_rq (tasks s u)" "\<not> on_rq (tasks s' u)" "?P u" by simp_all
  next
    show "tl ys = []" if "find ?P (Q c) = None" using that f by (cases ys) auto
    show "tl ys = tl (dropWhile (\<lambda>v. tk_state (tasks s v) \<noteq> READY) (Q c))" by (simp add: ys_def)
  qed
qed

lemma rqs_set_cpu:
  assumes "rqs s Q" "\<not> on_rq (tasks s t)"
  shows "rqs (upd_task t (\<lambda>t. t\<lparr>rq_cpu := c\<rparr>) s) Q"
proof -
  have "t \<notin> set (Q d)" if "d < SCHED_MAX_CPUS" for d using assms that rqs_queued(1) by blast
  then show ?thesis using assms by (auto simp: rqs_def rq_list_def)
qed

lemma pick_next_rqs:
  assumes q: "rqs s Q" and c: "cpu < SCHED_MAX_CPUS"
  shows "\<exists>t s' Q'. sched_pick_next_locked cpu s = Some (t, s') \<and> rqs s' Q' \<and> sans_rq s' = sans_rq s \<and>
    (\<forall>u. on_rq (tasks s' u) \<longrightarrow> on_rq (tasks s u)) \<and>
    (\<forall>u. tk_state (tasks s u) = READY \<longrightarrow> on_rq (tasks s u) \<longrightarrow> on_rq (tasks s' u) \<or> t = Some u) \<and>
    (\<forall>u. t = Some u \<longrightarrow> on_rq (tasks s u) \<and> \<not> on_rq (tasks s' u) \<and> tk_state (tasks s u) = READY) \<and>
    (case find (\<lambda>v. tk_state (tasks s v) = READY) (Q cpu) of
       Some v \<Rightarrow> t = Some v \<and> Q' = Q(cpu := tl (dropWhile (\<lambda>v. tk_state (tasks s v) \<noteq> READY) (Q cpu)))
     | None \<Rightarrow> \<exists>d < SCHED_MAX_CPUS. (\<forall>e < SCHED_MAX_CPUS. e \<noteq> cpu \<longrightarrow> length (Q e) \<le> length (Q d)) \<and>
         t = find (\<lambda>v. tk_state (tasks s v) = READY) (Q d))"
proof -
  let ?P = "\<lambda>v. tk_state (tasks s v) = READY"
  from dequeue_ready_spec [OF q c] obtain s1 zs where
    s1: "dequeue_ready cpu s = Some (find ?P (Q cpu), s1)" "rqs s1 (Q(cpu := zs))" "sans_rq s1 = sans_rq s"
    "\<forall>u. on_rq (tasks s1 u) \<longrightarrow> on_rq (tasks s u)"
    "\<forall>u. ?P u \<longrightarrow> on_rq (tasks s u) \<longrightarrow> on_rq (tasks s1 u) \<or> find ?P (Q cpu) = Some u"
    "\<forall>u. find ?P (Q cpu) = Some u \<longrightarrow> on_rq (tasks s u) \<and> \<not> on_rq (tasks s1 u) \<and> ?P u"
    "find ?P (Q cpu) = None \<longrightarrow> zs = []" "zs = tl (dropWhile (\<lambda>v. tk_state (tasks s v) \<noteq> READY) (Q cpu))"
    by (elim exE conjE)
  show ?thesis
  proof (cases "find ?P (Q cpu)")
    case (Some v)
    then have "sched_pick_next_locked cpu s = Some (Some v, s1)" by (simp add: sched_pick_next_locked_def s1(1))
    then show ?thesis
      by (intro exI [of _ "Some v"] exI [of _ s1] exI [of _ "Q(cpu := zs)"] conjI s1(2,3,4))
        (use s1(5,6,8) Some in auto)
  next
    case None
    then have zs: "zs = []" using s1(7) by simp
    let ?load = "\<lambda>c. nr_running (run_queues s1 c)"
    define b where "b = busiest_cpu cpu s1"
    note bz = busiest [OF c, where s = s1, folded b_def]
    have load: "?load d = (if d = cpu then 0 else length (Q d))" if "d < SCHED_MAX_CPUS" for d
      using rqs_queued(3) [OF s1(2) that] zs by simp
    have most: "length (Q e) \<le> length (Q b)" if "e < SCHED_MAX_CPUS" "e \<noteq> cpu" for e
      using bz(2) [OF that(1)] load [OF that(1)] load [OF bz(1)] that by (simp split: if_splits)
    show ?thesis
    proof (cases "b = cpu \<or> ?load b = 0")
      case True
      then have r: "sched_pick_next_locked cpu s = Some (None, s1)"
        by (simp add: sched_pick_next_locked_def s1(1) None Let_def b_def [symmetric])
      have "find ?P (Q b) = None"
      proof (cases "b = cpu")
        case False
        with True load [OF bz(1)] have "Q b = []" by simp
        then show ?thesis by simp
      qed (simp add: None)
      then show ?thesis
        by (intro exI [of _ None] exI [of _ s1] exI [of _ "Q(cpu := zs)"] conjI r s1(2,3,4))
          (use s1(5) None most bz(1) in auto)
    next
      case False
      have P1: "tk_state (tasks s1 v) = tk_state (tasks s v)" for v using sans_rq_fields(1) [OF s1(3)] .
      have Qb: "(Q(cpu := zs)) b = Q b" using False by simp
      from dequeue_ready_spec [OF s1(2) bz(1)] obtain s2 ws where
        s2: "dequeue_ready b s1 = Some (find ?P (Q b), s2)" "rqs s2 (Q(cpu := zs, b := ws))" "sans_rq s2 = sans_rq s1"
        "\<forall>u. on_rq (tasks s2 u) \<longrightarrow> on_rq (tasks s1 u)"
        "\<forall>u. ?P u \<longrightarrow> on_rq (tasks s1 u) \<longrightarrow> on_rq (tasks s2 u) \<or> find ?P (Q b) = Some u"
        "\<forall>u. find ?P (Q b) = Some u \<longrightarrow> on_rq (tasks s1 u) \<and> \<not> on_rq (tasks s2 u) \<and> ?P u"
        unfolding P1 Qb by (elim exE conjE)
      define s3 where "s3 = (case find ?P (Q b) of None \<Rightarrow> s2 | Some t \<Rightarrow> upd_task t (\<lambda>t. t\<lparr>rq_cpu := cpu\<rparr>) s2)"
      have r: "sched_pick_next_locked cpu s = Some (find ?P (Q b), s3)"
        using False by (simp add: sched_pick_next_locked_def s1(1) None Let_def b_def [symmetric] s2(1) s3_def split: option.split)
      have q3: "rqs s3 (Q(cpu := zs, b := ws))"
        using s2(2) s2(6) rqs_set_cpu [OF s2(2)] by (simp add: s3_def split: option.split)
      have on3: "on_rq (tasks s3 u) = on_rq (tasks s2 u)" for u by (simp add: s3_def split: option.split)
      have sans: "sans_rq s3 = sans_rq s"
      proof -
        have "sans_rq s3 = sans_rq s2" by (auto simp: s3_def sans_rq_def upd_task_def fun_eq_iff split: option.split)
        with s2(3) s1(3) show ?thesis by simp
      qed
      show ?thesis
        by (intro exI [of _ "find ?P (Q b)"] exI [of _ s3] exI [of _ "Q(cpu := zs, b := ws)"] conjI r q3 sans; (unfold on3)?)
          (use s1(4,5) s2(4-6) None most bz(1) in auto)
    qed
  qed
qed

text \<open>What the scheduler does not touch.\<close>

lemma enqueue_more [simp]: "sched.more (sched_rq_enqueue_locked t c s) = sched.more s" "wait_next (sched_rq_enqueue_locked t c s) = wait_next s"
  by (simp_all add: sched_rq_enqueue_locked_def Let_def split: option.split)

lemma make_ready_more [simp]: "sched.more (sched_make_ready_locked t s) = sched.more s" "wait_next (sched_make_ready_locked t s) = wait_next s"
  by (simp_all add: sched_make_ready_locked_def sched_least_loaded_cpu_locked_def Let_def)

lemma unpark_more [simp]: "sched.more (sched_unpark_task c t s) = sched.more s" "wait_next (sched_unpark_task c t s) = wait_next s"
  by (simp_all add: sched_unpark_task_def split: option.split)

end
