(* ===== verification/Mutex.thy ===== *)
theory Mutex
  imports Sched
begin

text \<open>
  Mutexes and their user-visible pool, \<^verbatim>\<open>src/src/kernel/mutex.c\<close>.  A mutex pointer is an index
  of the pool.  Each critical section of a spinlock is one atomic definition; the C functions that
  consist of several sections are compositions of them.  \<open>mutex_lock\<close> is split where it parks:
  \<open>mutex_lock_enter\<close> is everything up to that point.
\<close>

section \<open>Generation-tagged handles\<close>

text \<open>The handle arithmetic that the three pools share: 6 bits of index under a 25-bit generation.\<close>

definition handle_index :: "int \<Rightarrow> int" where
  "handle_index handle = (if handle < 0 then -1 else uint ((word_of_int handle :: u32) AND 63))"

definition handle_generation :: "int \<Rightarrow> nat" where
  "handle_generation handle = unat (drop_bit 6 (word_of_int handle :: u32))"

definition make_handle :: "nat \<Rightarrow> nat \<Rightarrow> int" where
  "make_handle index generation = sint (push_bit 6 (word_of_nat generation :: u32) OR word_of_nat index)"

text \<open>\<open>generation[i]++\<close> with the wrap back to 1.\<close>

abbreviation HANDLE_GENERATION_MAX :: nat where "HANDLE_GENERATION_MAX \<equiv> 0x01ffffff"

definition next_generation :: "nat \<Rightarrow> nat" where
  "next_generation g = (let g1 = add32 g 1 in if g1 = 0 \<or> HANDLE_GENERATION_MAX < g1 then 1 else g1)"

section \<open>Data\<close>

abbreviation MAX_MUTEX_POOL :: nat where "MAX_MUTEX_POOL \<equiv> 64"

record mutex =
  m_locked :: bool
  m_owner :: "nat option"
  m_waiters :: wait_queue
  m_active_ops :: nat
  m_destroying :: bool

record mutexes = sched +
  mutex_pool :: "nat \<Rightarrow> mutex"
  mutex_pool_used :: "nat \<Rightarrow> bool"
  mutex_pool_generation :: "nat \<Rightarrow> nat"

definition upd_mutex :: "nat \<Rightarrow> (mutex \<Rightarrow> mutex) \<Rightarrow> 'a mutexes_scheme \<Rightarrow> 'a mutexes_scheme" where
  "upd_mutex i f s = s\<lparr>mutex_pool := (mutex_pool s)(i := f (mutex_pool s i))\<rparr>"

section \<open>Operations\<close>

definition mutex_handle_index :: "int \<Rightarrow> int" where
  "mutex_handle_index handle = handle_index handle"

definition mutex_handle_generation :: "int \<Rightarrow> nat" where
  "mutex_handle_generation handle = handle_generation handle"

definition mutex_make_handle :: "nat \<Rightarrow> nat \<Rightarrow> int" where
  "mutex_make_handle index generation = make_handle index generation"

definition mutex_init :: mutex where
  "mutex_init = \<lparr>m_locked = False, m_owner = None, m_waiters = wait_queue_init, m_active_ops = 0, m_destroying = False\<rparr>"

datatype lock_result = Acquired | Must_park | Refused

definition mutex_lock_enter :: "nat \<Rightarrow> nat \<Rightarrow> 'a mutexes_scheme \<Rightarrow> (lock_result \<times> 'a mutexes_scheme) option" where
  "mutex_lock_enter cpu i s =
     (if \<not> m_locked (mutex_pool s i) then
        Some (Acquired, upd_mutex i (\<lambda>m. m\<lparr>m_locked := True, m_owner := Some (sched_current cpu s)\<rparr>) s)
      else do {
        (entered, q, nx) \<leftarrow> wait_queue_enqueue (m_waiters (mutex_pool s i)) (Some (sched_current cpu s)) (wait_next s);
        if \<not> entered then Some (Refused, s)
        else Some (Must_park, upd_mutex i (\<lambda>m. m\<lparr>m_waiters := q\<rparr>) (s\<lparr>wait_next := nx\<rparr>))
      })"

definition mutex_trylock :: "nat \<Rightarrow> nat \<Rightarrow> 'a mutexes_scheme \<Rightarrow> bool \<times> 'a mutexes_scheme" where
  "mutex_trylock cpu i s =
     (if \<not> m_locked (mutex_pool s i) then
        (True, upd_mutex i (\<lambda>m. m\<lparr>m_locked := True, m_owner := Some (sched_current cpu s)\<rparr>) s)
      else (False, s))"

text \<open>The release of ownership that \<open>mutex_unlock\<close> and \<open>mutex_detach_task\<close> share: to the first waiter,
  which is the result, or to nobody.\<close>

definition mutex_hand_off :: "nat \<Rightarrow> 'a mutexes_scheme \<Rightarrow> nat option \<times> 'a mutexes_scheme" where
  "mutex_hand_off i s =
     (if wait_queue_empty (m_waiters (mutex_pool s i)) then
        (None, upd_mutex i (\<lambda>m. m\<lparr>m_locked := False, m_owner := None\<rparr>) s)
      else
        (let (t, q, nx) = wait_queue_dequeue (m_waiters (mutex_pool s i)) (wait_next s)
         in (t, upd_mutex i (\<lambda>m. m\<lparr>m_owner := t, m_waiters := q\<rparr>) (s\<lparr>wait_next := nx\<rparr>))))"

definition mutex_unlock :: "nat \<Rightarrow> nat \<Rightarrow> 'a mutexes_scheme \<Rightarrow> 'a mutexes_scheme" where
  "mutex_unlock cpu i s = (let (next_task, s1) = mutex_hand_off i s in sched_unpark_task cpu next_task s1)"

definition mutex_detach_one :: "nat \<Rightarrow> nat \<Rightarrow> nat \<Rightarrow> 'a mutexes_scheme \<Rightarrow> 'a mutexes_scheme option" where
  "mutex_detach_one cpu task i s =
     (if \<not> mutex_pool_used s i then Some s
      else do {
        let s1 = upd_mutex i (\<lambda>m. m\<lparr>m_active_ops := add32 (m_active_ops m) 1\<rparr>) s;
        (detached_waiter, q, nx) \<leftarrow> wait_queue_remove (m_waiters (mutex_pool s1 i)) (Some task) (wait_next s1);
        let s2 = upd_mutex i (\<lambda>m. m\<lparr>m_waiters := q\<rparr>) (s1\<lparr>wait_next := nx\<rparr>);
        let (wake_task, s3) = (if m_owner (mutex_pool s2 i) = Some task then mutex_hand_off i s2 else (None, s2));
        let s4 = upd_mutex i (\<lambda>m. m\<lparr>m_active_ops := sub32 (m_active_ops m) 1\<rparr>) s3;
        let s5 = (if detached_waiter \<and> 0 < m_active_ops (mutex_pool s4 i)
          then upd_mutex i (\<lambda>m. m\<lparr>m_active_ops := m_active_ops m - 1\<rparr>) s4 else s4);
        Some (sched_unpark_task cpu wake_task s5)
      })"

definition mutex_detach_task :: "nat \<Rightarrow> nat option \<Rightarrow> 'a mutexes_scheme \<Rightarrow> 'a mutexes_scheme option" where
  "mutex_detach_task cpu task s =
     (case task of None \<Rightarrow> Some s | Some t \<Rightarrow> foldM (mutex_detach_one cpu t) [0..<MAX_MUTEX_POOL] s)"

definition mutex_pool_pin :: "int \<Rightarrow> 'a mutexes_scheme \<Rightarrow> nat option \<times> 'a mutexes_scheme" where
  "mutex_pool_pin handle s =
     (let index = mutex_handle_index handle; generation = mutex_handle_generation handle; i = nat index in
      if index < 0 \<or> int MAX_MUTEX_POOL \<le> index \<or> generation = 0 then (None, s)
      else if \<not> mutex_pool_used s i \<or> mutex_pool_generation s i \<noteq> generation \<or> m_destroying (mutex_pool s i) then (None, s)
      else (Some i, upd_mutex i (\<lambda>m. m\<lparr>m_active_ops := add32 (m_active_ops m) 1\<rparr>) s))"

definition mutex_pool_unpin :: "nat \<Rightarrow> 'a mutexes_scheme \<Rightarrow> 'a mutexes_scheme" where
  "mutex_pool_unpin i s =
     (if 0 < m_active_ops (mutex_pool s i) then upd_mutex i (\<lambda>m. m\<lparr>m_active_ops := m_active_ops m - 1\<rparr>) s else s)"

definition mutex_pool_alloc :: "'a mutexes_scheme \<Rightarrow> int \<times> 'a mutexes_scheme" where
  "mutex_pool_alloc s =
     (case find_from (\<lambda>i. \<not> mutex_pool_used s i) 0 MAX_MUTEX_POOL of
        None \<Rightarrow> (-1, s)
      | Some i \<Rightarrow>
          (let g = next_generation (mutex_pool_generation s i)
           in (mutex_make_handle i g,
               s\<lparr>mutex_pool := (mutex_pool s)(i := mutex_init), mutex_pool_used := (mutex_pool_used s)(i := True),
                 mutex_pool_generation := (mutex_pool_generation s)(i := g)\<rparr>)))"

definition mutex_pool_trylock :: "nat \<Rightarrow> int \<Rightarrow> 'a mutexes_scheme \<Rightarrow> bool \<times> 'a mutexes_scheme" where
  "mutex_pool_trylock cpu handle s =
     (case mutex_pool_pin handle s of
        (None, s1) \<Rightarrow> (False, s1)
      | (Some i, s1) \<Rightarrow> (let (result, s2) = mutex_trylock cpu i s1 in (result, mutex_pool_unpin i s2)))"

definition mutex_pool_unlock :: "nat \<Rightarrow> int \<Rightarrow> 'a mutexes_scheme \<Rightarrow> bool \<times> 'a mutexes_scheme" where
  "mutex_pool_unlock cpu handle s =
     (case mutex_pool_pin handle s of
        (None, s1) \<Rightarrow> (False, s1)
      | (Some i, s1) \<Rightarrow> (True, mutex_pool_unpin i (mutex_unlock cpu i s1)))"

definition mutex_pool_free :: "int \<Rightarrow> 'a mutexes_scheme \<Rightarrow> bool \<times> 'a mutexes_scheme" where
  "mutex_pool_free handle s =
     (let index = mutex_handle_index handle; generation = mutex_handle_generation handle; i = nat index in
      if index < 0 \<or> int MAX_MUTEX_POOL \<le> index \<or> generation = 0 then (False, s)
      else if \<not> mutex_pool_used s i \<or> mutex_pool_generation s i \<noteq> generation \<or> m_destroying (mutex_pool s i) then (False, s)
      else
        (let s1 = upd_mutex i (\<lambda>m. m\<lparr>m_destroying := True\<rparr>) s;
             undo = upd_mutex i (\<lambda>m. m\<lparr>m_destroying := False\<rparr>)
         in if m_active_ops (mutex_pool s1 i) \<noteq> 0 then (False, undo s1)
            else if m_locked (mutex_pool s1 i) \<or> m_owner (mutex_pool s1 i) \<noteq> None \<or>
                    \<not> wait_queue_empty (m_waiters (mutex_pool s1 i)) then (False, undo s1)
            else if \<not> mutex_pool_used s1 i \<or> mutex_pool_generation s1 i \<noteq> generation then (False, undo s1)
            else (True, undo (s1\<lparr>mutex_pool_used := (mutex_pool_used s1)(i := False)\<rparr>))))"

section \<open>Specification\<close>

text \<open>A mutex as an owner and the list of its waiters.\<close>

definition mutex_holds :: "'a mutexes_scheme \<Rightarrow> nat \<Rightarrow> nat option \<Rightarrow> nat list \<Rightarrow> bool" where
  "mutex_holds s i owner xs \<longleftrightarrow> wq_list (m_waiters (mutex_pool s i)) (wait_next s) xs \<and> m_owner (mutex_pool s i) = owner \<and>
     m_locked (mutex_pool s i) = (owner \<noteq> None) \<and> (owner = None \<longrightarrow> xs = [])"

text \<open>Unlocking \<open>n\<close> times.\<close>

primrec unlock_times :: "nat \<Rightarrow> nat \<Rightarrow> nat \<Rightarrow> 'a mutexes_scheme \<Rightarrow> 'a mutexes_scheme" where
  "unlock_times c i 0 s = s"
| "unlock_times c i (Suc n) s = unlock_times c i n (mutex_unlock c i s)"

text \<open>Small states for the witnesses: no mutex in use, and one held by task 5 with two tasks waiting.\<close>

definition mutexes_zero :: mutexes where
  "mutexes_zero = sched.extend sched_zero (mutexes.fields (\<lambda>_. mutex_init) (\<lambda>_. False) (\<lambda>_. 0))"

definition mutex_demo :: mutexes where
  "mutex_demo = mutexes_zero\<lparr>cpu_task := \<lambda>_. 4, wait_next := Map.empty(6 := Some 7),
     mutex_pool := (\<lambda>_. mutex_init)(3 := mutex_init\<lparr>m_locked := True, m_owner := Some 5, m_waiters := \<lparr>wq_head = Some 6, wq_tail = Some 7\<rparr>\<rparr>)\<rparr>"

section \<open>Handles\<close>

lemma bit_small: "bit (i :: nat) n \<Longrightarrow> i < 2 ^ k \<Longrightarrow> n < k"
  by (metis bit_take_bit_iff take_bit_nat_eq_self)

lemma handle_roundtrip:
  assumes i: "i < 64" and g: "g \<le> HANDLE_GENERATION_MAX"
  shows "0 \<le> make_handle i g" "handle_index (make_handle i g) = int i" "handle_generation (make_handle i g) = g"
proof -
  have bi: "n < 6" if "bit i n" for n using bit_small [OF that, of 6] i by simp
  have bg: "n < 25" if "bit g n" for n using bit_small [OF that, of 25] g by simp
  define w where "w = push_bit 6 (word_of_nat g :: u32) OR word_of_nat i"
  have "\<not> bit w 31" using bi [of 31] bg [of 25] by (auto simp: w_def bit_simps)
  then have "n < 31" if "bit w n" "n < 32" for n using that by (cases "n = 31") auto
  then have "take_bit 31 (uint w) = uint w" by (intro bit_eqI) (auto simp: bit_take_bit_iff bit_uint_iff)
  with \<open>\<not> bit w 31\<close> have u: "sint w = uint w" by (simp add: sint_uint signed_take_bit_eq_if_positive bit_uint_iff)
  then show p: "0 \<le> make_handle i g" by (simp add: make_handle_def w_def [symmetric])
  have h: "word_of_int (make_handle i g) = w" by (simp add: make_handle_def w_def [symmetric])
  have "w AND 63 = word_of_nat i"
  proof (rule bit_eqI)
    fix n assume "possible_bit TYPE(u32) n"
    have "bit (63 :: u32) n \<longleftrightarrow> n < 6"
      using bit_mask_iff [of 6 n, where 'a = u32] by (auto simp: mask_eq_exp_minus_1)
    then show "bit (w AND 63) n = bit (word_of_nat i :: u32) n"
      by (auto simp: w_def bit_simps dest: bi)
  qed
  moreover have "uint (word_of_nat i :: u32) = int i" using i by (simp add: unsigned_of_nat take_bit_nat_eq_self)
  ultimately show "handle_index (make_handle i g) = int i" using p by (simp add: handle_index_def h)
  have "drop_bit 6 w = word_of_nat g"
    by (rule bit_eqI) (auto simp: w_def bit_simps dest: bi bg)
  moreover have "unat (word_of_nat g :: u32) = g" using g by (simp add: unsigned_of_nat take_bit_nat_eq_self)
  ultimately show "handle_generation (make_handle i g) = g" by (simp add: handle_generation_def h)
qed


section \<open>Ownership and waiters\<close>

lemma mutex_more: "sched.more s' = sched.more s \<Longrightarrow> mutex_pool s' = mutex_pool s \<and> mutex_pool_used s' = mutex_pool_used s \<and>
    mutex_pool_generation s' = mutex_pool_generation s"
  by (cases s, cases s') simp

lemma upd_mutex_simps [simp]: "mutex_pool (upd_mutex i f s) = (mutex_pool s)(i := f (mutex_pool s i))"
  "wait_next (upd_mutex i f s) = wait_next s" "mutex_pool_used (upd_mutex i f s) = mutex_pool_used s"
  "mutex_pool_generation (upd_mutex i f s) = mutex_pool_generation s" "tasks (upd_mutex i f s) = tasks s"
  "cpu_task (upd_mutex i f s) = cpu_task s"
  by (simp_all add: upd_mutex_def)

lemma lock_enter_holds:
  assumes h: "mutex_holds s i owner xs" and me: "me = cpu_task s c"
  shows "\<exists>r s'. mutex_lock_enter c i s = Some (r, s') \<and>
    (if owner = None then r = Acquired \<and> mutex_holds s' i (Some me) []
     else if me \<in> set xs then r = Refused \<and> s' = s
     else r = Must_park \<and> mutex_holds s' i owner (xs @ [me]))"
proof (cases owner)
  case None
  with h show ?thesis by (auto simp: mutex_holds_def mutex_lock_enter_def sched_current_def me)
next
  case (Some o')
  with h have q: "wq_list (m_waiters (mutex_pool s i)) (wait_next s) xs" and l: "m_locked (mutex_pool s i)" "m_owner (mutex_pool s i) = owner"
    by (auto simp: mutex_holds_def)
  from wait_queue_enqueue_list [OF q, of me] obtain q' nx' where
    e: "wait_queue_enqueue (m_waiters (mutex_pool s i)) (Some me) (wait_next s) = Some (me \<notin> set xs, q', nx')"
    "wq_list q' nx' (if me \<in> set xs then xs else xs @ [me])" by auto
  show ?thesis using e l Some by (auto simp: mutex_lock_enter_def sched_current_def me [symmetric] mutex_holds_def)
qed

lemma hand_off_holds:
  assumes h: "mutex_holds s i (Some o') xs" and r: "mutex_hand_off i s = (t, s')"
  shows "t = (case xs of [] \<Rightarrow> None | x # _ \<Rightarrow> Some x) \<and> mutex_holds s' i t (tl xs) \<and> (\<forall>j. j \<noteq> i \<longrightarrow> mutex_pool s' j = mutex_pool s j) \<and>
    (\<forall>x. x \<notin> set xs \<longrightarrow> wait_next s' x = wait_next s x) \<and> tasks s' = tasks s \<and> cpu_task s' = cpu_task s"
proof -
  have q: "wq_list (m_waiters (mutex_pool s i)) (wait_next s) xs" and l: "m_locked (mutex_pool s i)" using h by (auto simp: mutex_holds_def)
  show ?thesis
  proof (cases xs)
    case Nil
    then have "wait_queue_empty (m_waiters (mutex_pool s i))" using q by (simp add: wait_queue_empty_def wq_list_def)
    with r q Nil show ?thesis by (auto simp: mutex_hand_off_def mutex_holds_def upd_mutex_def)
  next
    case (Cons x ys)
    then have n: "\<not> wait_queue_empty (m_waiters (mutex_pool s i))" using q by (simp add: wait_queue_empty_def wq_list_def)
    from wait_queue_dequeue_list [OF q] Cons obtain q' where
      "wait_queue_dequeue (m_waiters (mutex_pool s i)) (wait_next s) = (Some x, q', (wait_next s)(x := None))"
      "wq_list q' ((wait_next s)(x := None)) ys" by auto
    with r n l Cons show ?thesis by (auto simp: mutex_hand_off_def mutex_holds_def upd_mutex_def)
  qed
qed


lemma unlock_holds:
  assumes h: "mutex_holds s i (Some o') xs"
  shows "mutex_holds (mutex_unlock c i s) i (case xs of [] \<Rightarrow> None | x # _ \<Rightarrow> Some x) (tl xs)"
proof -
  obtain t s1 where r: "mutex_hand_off i s = (t, s1)" by (rule prod.exhaust)
  note h1 = hand_off_holds [OF h r]
  have e: "mutex_unlock c i s = sched_unpark_task c t s1" by (simp add: mutex_unlock_def r)
  have "mutex_pool (sched_unpark_task c t s1) = mutex_pool s1" using mutex_more [OF unpark_more(1)] by blast
  with h1 show ?thesis by (simp add: e mutex_holds_def)
qed

lemma mutex_demo: "mutex_holds mutex_demo 3 (Some 5) [6, 7]"
  by (simp add: mutex_holds_def mutex_demo_def wq_list_def last_opt_def)

section \<open>Properties\<close>

text \<open>C20: A mutex implements an owner and a queue of waiters: locking a free mutex takes it, locking a held one queues the caller
  once, trying never queues, and unlocking gives a held mutex to its first waiter, with the lock never free in between, or frees it.\<close>

theorem mutex_ops_correct:
  assumes h: "mutex_holds s i owner xs" and me: "me = cpu_task s c"
  shows "(\<exists>r s'. mutex_lock_enter c i s = Some (r, s') \<and>
      (if owner = None then r = Acquired \<and> mutex_holds s' i (Some me) []
       else if me \<in> set xs then r = Refused \<and> s' = s
       else r = Must_park \<and> mutex_holds s' i owner (xs @ [me]))) \<and>
    (\<exists>s'. mutex_trylock c i s = (owner = None, s') \<and> mutex_holds s' i (if owner = None then Some me else owner) xs) \<and>
    (owner \<noteq> None \<longrightarrow> mutex_holds (mutex_unlock c i s) i (case xs of [] \<Rightarrow> None | x # _ \<Rightarrow> Some x) (tl xs))"
proof (intro conjI impI)
  show "\<exists>r s'. mutex_lock_enter c i s = Some (r, s') \<and>
      (if owner = None then r = Acquired \<and> mutex_holds s' i (Some me) []
       else if me \<in> set xs then r = Refused \<and> s' = s
       else r = Must_park \<and> mutex_holds s' i owner (xs @ [me]))" by (rule lock_enter_holds [OF h me])
  show "\<exists>s'. mutex_trylock c i s = (owner = None, s') \<and> mutex_holds s' i (if owner = None then Some me else owner) xs"
    using h by (auto simp: mutex_trylock_def mutex_holds_def sched_current_def me)
  show "mutex_holds (mutex_unlock c i s) i (case xs of [] \<Rightarrow> None | x # _ \<Rightarrow> Some x) (tl xs)" if "owner \<noteq> None"
    using that h unlock_holds by blast
qed

theorem mutex_ops_correct_witness:
  "\<exists>s'. mutex_lock_enter 0 3 mutex_demo = Some (Must_park, s') \<and> mutex_holds s' 3 (Some 5) [6, 7, 4]"
  using mutex_ops_correct [OF mutex_demo refl, of 0] by (auto simp: mutex_demo_def)

text \<open>C21: The hand-off is first come, first served, and every waiter gets the mutex: the waiter at position \<open>k\<close> is the owner after
  \<open>k + 1\<close> calls of \<open>mutex_unlock\<close>.\<close>

theorem mutex_waiters_served:
  assumes "mutex_holds s i (Some o') xs" "k < length xs"
  shows "mutex_holds (unlock_times c i (Suc k) s) i (Some (xs ! k)) (drop (Suc k) xs)"
  using assms
proof (induction k arbitrary: s xs o')
  case 0
  then show ?case using unlock_holds [OF 0(1), of c] by (cases xs) auto
next
  case (Suc k)
  then obtain x ys where x: "xs = x # ys" by (cases xs) auto
  have "mutex_holds (mutex_unlock c i s) i (Some x) ys" using unlock_holds [OF Suc.prems(1), of c] x by simp
  from Suc.IH [OF this] Suc.prems(2) show ?case by (simp add: x)
qed


theorem mutex_waiters_served_witness:
  "mutex_holds (unlock_times 0 3 2 mutex_demo) 3 (Some 7) []"
  using mutex_waiters_served [OF mutex_demo, of 1 0] by (simp add: numeral_2_eq_2)

lemma next_generation: "g \<le> HANDLE_GENERATION_MAX \<Longrightarrow> 1 \<le> next_generation g \<and> next_generation g \<le> HANDLE_GENERATION_MAX \<and> next_generation g \<noteq> g"
  by (simp add: next_generation_def Let_def add32_exact)

lemma if_flip: "(if \<not> a \<or> b \<noteq> c \<or> d then x else y) = (if a \<and> b = c \<and> \<not> d then y else x)"
  by simp

lemma pool_slot:
  assumes i: "i < MAX_MUTEX_POOL" and g: "1 \<le> g" "g \<le> HANDLE_GENERATION_MAX"
  shows "mutex_pool_pin (mutex_make_handle i g) s =
      (if mutex_pool_used s i \<and> mutex_pool_generation s i = g \<and> \<not> m_destroying (mutex_pool s i)
       then (Some i, upd_mutex i (\<lambda>m. m\<lparr>m_active_ops := add32 (m_active_ops m) 1\<rparr>) s) else (None, s))"
    "\<not> (mutex_pool_used s i \<and> mutex_pool_generation s i = g) \<Longrightarrow> mutex_pool_free (mutex_make_handle i g) s = (False, s)"
    "mutex_pool_used s i \<Longrightarrow> mutex_pool_generation s i = g \<Longrightarrow> mutex_pool s i = mutex_init \<Longrightarrow>
      mutex_pool_free (mutex_make_handle i g) s = (True, s\<lparr>mutex_pool_used := (mutex_pool_used s)(i := False)\<rparr>)"
proof -
  define h where "h = mutex_make_handle i g"
  have h: "mutex_handle_index h = int i" "mutex_handle_generation h = g"
    using handle_roundtrip [OF i g(2)] by (simp_all add: h_def mutex_make_handle_def mutex_handle_index_def mutex_handle_generation_def)
  have ok: "\<not> (int i < 0 \<or> int MAX_MUTEX_POOL \<le> int i \<or> g = 0)" using i g by simp
  show "mutex_pool_pin (mutex_make_handle i g) s =
      (if mutex_pool_used s i \<and> mutex_pool_generation s i = g \<and> \<not> m_destroying (mutex_pool s i)
       then (Some i, upd_mutex i (\<lambda>m. m\<lparr>m_active_ops := add32 (m_active_ops m) 1\<rparr>) s) else (None, s))"
    unfolding h_def [symmetric] mutex_pool_pin_def h Let_def if_not_P [OF ok] nat_int by (rule if_flip)
  show "mutex_pool_free (mutex_make_handle i g) s = (False, s)" if "\<not> (mutex_pool_used s i \<and> mutex_pool_generation s i = g)"
    unfolding h_def [symmetric] mutex_pool_free_def h Let_def if_not_P [OF ok] nat_int using that by (intro if_P) blast
  assume u: "mutex_pool_used s i" "mutex_pool_generation s i = g" "mutex_pool s i = mutex_init"
  define s1 where "s1 = upd_mutex i (\<lambda>m. m\<lparr>m_destroying := True\<rparr>) s"
  have s1: "mutex_pool s1 i = mutex_init\<lparr>m_destroying := True\<rparr>" "mutex_pool_used s1 i" "mutex_pool_generation s1 i = g"
    using u by (simp_all add: s1_def)
  have "mutex_pool_free h s = (True, upd_mutex i (\<lambda>m. m\<lparr>m_destroying := False\<rparr>) (s1\<lparr>mutex_pool_used := (mutex_pool_used s1)(i := False)\<rparr>))"
    unfolding mutex_pool_free_def h Let_def if_not_P [OF ok] nat_int s1_def [symmetric]
    using u s1 by (simp add: mutex_init_def wait_queue_init_def wait_queue_empty_def)
  also have "upd_mutex i (\<lambda>m. m\<lparr>m_destroying := False\<rparr>) (s1\<lparr>mutex_pool_used := (mutex_pool_used s1)(i := False)\<rparr>) =
      s\<lparr>mutex_pool_used := (mutex_pool_used s)(i := False)\<rparr>"
    using u(3) by (simp add: upd_mutex_def s1_def fun_upd_idem mutex_init_def)
  finally show "mutex_pool_free (mutex_make_handle i g) s = (True, s\<lparr>mutex_pool_used := (mutex_pool_used s)(i := False)\<rparr>)"
    by (simp add: h_def)
qed




end
