(* ===== verification/Semaphore.thy ===== *)
theory Semaphore
  imports Mutex
begin

text \<open>
  Counting semaphores and their pool, \<^verbatim>\<open>src/src/kernel/semaphore.c\<close>.  A semaphore pointer is an
  index of the pool; \<open>semaphore_wait\<close> is split where it parks.
\<close>

section \<open>Data\<close>

abbreviation MAX_SEMAPHORE_POOL :: nat where "MAX_SEMAPHORE_POOL \<equiv> 64"

record semaphore =
  sem_value :: nat
  sem_waiters :: wait_queue
  sem_active_ops :: nat
  sem_destroying :: bool

record semaphores = mutexes +
  semaphore_pool :: "nat \<Rightarrow> semaphore"
  semaphore_pool_used :: "nat \<Rightarrow> bool"
  semaphore_pool_generation :: "nat \<Rightarrow> nat"

definition upd_sem :: "nat \<Rightarrow> (semaphore \<Rightarrow> semaphore) \<Rightarrow> 'a semaphores_scheme \<Rightarrow> 'a semaphores_scheme" where
  "upd_sem i f s = s\<lparr>semaphore_pool := (semaphore_pool s)(i := f (semaphore_pool s i))\<rparr>"

section \<open>Operations\<close>

definition semaphore_handle_index :: "int \<Rightarrow> int" where
  "semaphore_handle_index handle = handle_index handle"

definition semaphore_handle_generation :: "int \<Rightarrow> nat" where
  "semaphore_handle_generation handle = handle_generation handle"

definition semaphore_make_handle :: "nat \<Rightarrow> nat \<Rightarrow> int" where
  "semaphore_make_handle index generation = make_handle index generation"

definition semaphore_init :: "nat \<Rightarrow> semaphore" where
  "semaphore_init v = \<lparr>sem_value = v, sem_waiters = wait_queue_init, sem_active_ops = 0, sem_destroying = False\<rparr>"

definition semaphore_wait_enter :: "nat \<Rightarrow> nat \<Rightarrow> 'a semaphores_scheme \<Rightarrow> (lock_result \<times> 'a semaphores_scheme) option" where
  "semaphore_wait_enter cpu i s =
     (if 0 < sem_value (semaphore_pool s i) then
        Some (Acquired, upd_sem i (\<lambda>m. m\<lparr>sem_value := sem_value m - 1\<rparr>) s)
      else do {
        (entered, q, nx) \<leftarrow> wait_queue_enqueue (sem_waiters (semaphore_pool s i)) (Some (sched_current cpu s)) (wait_next s);
        if \<not> entered then Some (Refused, s)
        else Some (Must_park, upd_sem i (\<lambda>m. m\<lparr>sem_waiters := q\<rparr>) (s\<lparr>wait_next := nx\<rparr>))
      })"

definition semaphore_trywait :: "nat \<Rightarrow> 'a semaphores_scheme \<Rightarrow> bool \<times> 'a semaphores_scheme" where
  "semaphore_trywait i s =
     (if sem_value (semaphore_pool s i) = 0 then (False, s)
      else (True, upd_sem i (\<lambda>m. m\<lparr>sem_value := sem_value m - 1\<rparr>) s))"

text \<open>The critical section of \<open>semaphore_post\<close>: the unit goes to the first waiter or to the value.\<close>

definition semaphore_post_locked :: "nat \<Rightarrow> 'a semaphores_scheme \<Rightarrow> nat option \<times> 'a semaphores_scheme" where
  "semaphore_post_locked i s =
     (let (waiter, q, nx) = wait_queue_dequeue (sem_waiters (semaphore_pool s i)) (wait_next s)
      in (waiter, upd_sem i (\<lambda>m. m\<lparr>sem_value := (if waiter = None then add64 (sem_value m) 1 else sem_value m),
                    sem_waiters := q\<rparr>) (s\<lparr>wait_next := nx\<rparr>)))"

definition semaphore_post :: "nat \<Rightarrow> nat \<Rightarrow> 'a semaphores_scheme \<Rightarrow> 'a semaphores_scheme" where
  "semaphore_post cpu i s = (let (waiter, s1) = semaphore_post_locked i s in sched_unpark_task cpu waiter s1)"

definition semaphore_pool_pin :: "int \<Rightarrow> 'a semaphores_scheme \<Rightarrow> nat option \<times> 'a semaphores_scheme" where
  "semaphore_pool_pin handle s =
     (let index = semaphore_handle_index handle; generation = semaphore_handle_generation handle; i = nat index in
      if index < 0 \<or> int MAX_SEMAPHORE_POOL \<le> index \<or> generation = 0 then (None, s)
      else if \<not> semaphore_pool_used s i \<or> semaphore_pool_generation s i \<noteq> generation \<or>
              sem_destroying (semaphore_pool s i) then (None, s)
      else (Some i, upd_sem i (\<lambda>m. m\<lparr>sem_active_ops := add32 (sem_active_ops m) 1\<rparr>) s))"

definition semaphore_pool_unpin :: "nat \<Rightarrow> 'a semaphores_scheme \<Rightarrow> 'a semaphores_scheme" where
  "semaphore_pool_unpin i s =
     (if 0 < sem_active_ops (semaphore_pool s i)
      then upd_sem i (\<lambda>m. m\<lparr>sem_active_ops := sem_active_ops m - 1\<rparr>) s else s)"

definition semaphore_pool_alloc :: "nat \<Rightarrow> 'a semaphores_scheme \<Rightarrow> int \<times> 'a semaphores_scheme" where
  "semaphore_pool_alloc v s =
     (case find_from (\<lambda>i. \<not> semaphore_pool_used s i) 0 MAX_SEMAPHORE_POOL of
        None \<Rightarrow> (-1, s)
      | Some i \<Rightarrow>
          (let g = next_generation (semaphore_pool_generation s i)
           in (semaphore_make_handle i g,
               s\<lparr>semaphore_pool := (semaphore_pool s)(i := semaphore_init v),
                 semaphore_pool_used := (semaphore_pool_used s)(i := True),
                 semaphore_pool_generation := (semaphore_pool_generation s)(i := g)\<rparr>)))"

definition semaphore_pool_trywait :: "int \<Rightarrow> 'a semaphores_scheme \<Rightarrow> bool \<times> 'a semaphores_scheme" where
  "semaphore_pool_trywait handle s =
     (case semaphore_pool_pin handle s of
        (None, s1) \<Rightarrow> (False, s1)
      | (Some i, s1) \<Rightarrow> (let (result, s2) = semaphore_trywait i s1 in (result, semaphore_pool_unpin i s2)))"

definition semaphore_pool_post :: "nat \<Rightarrow> int \<Rightarrow> 'a semaphores_scheme \<Rightarrow> bool \<times> 'a semaphores_scheme" where
  "semaphore_pool_post cpu handle s =
     (case semaphore_pool_pin handle s of
        (None, s1) \<Rightarrow> (False, s1)
      | (Some i, s1) \<Rightarrow> (True, semaphore_pool_unpin i (semaphore_post cpu i s1)))"

definition semaphore_pool_free :: "int \<Rightarrow> 'a semaphores_scheme \<Rightarrow> bool \<times> 'a semaphores_scheme" where
  "semaphore_pool_free handle s =
     (let index = semaphore_handle_index handle; generation = semaphore_handle_generation handle; i = nat index in
      if index < 0 \<or> int MAX_SEMAPHORE_POOL \<le> index \<or> generation = 0 then (False, s)
      else if \<not> semaphore_pool_used s i \<or> semaphore_pool_generation s i \<noteq> generation \<or>
              sem_destroying (semaphore_pool s i) \<or> sem_active_ops (semaphore_pool s i) \<noteq> 0 then (False, s)
      else
        (let s1 = upd_sem i (\<lambda>m. m\<lparr>sem_destroying := True\<rparr>) s;
             undo = upd_sem i (\<lambda>m. m\<lparr>sem_destroying := False\<rparr>)
         in if \<not> wait_queue_empty (sem_waiters (semaphore_pool s1 i)) then (False, undo s1)
            else if \<not> semaphore_pool_used s1 i \<or> semaphore_pool_generation s1 i \<noteq> generation then (False, undo s1)
            else (True, undo (s1\<lparr>semaphore_pool_used := (semaphore_pool_used s1)(i := False)\<rparr>))))"

definition semaphore_detach_one :: "nat \<Rightarrow> nat \<Rightarrow> 'a semaphores_scheme \<Rightarrow> 'a semaphores_scheme option" where
  "semaphore_detach_one task i s =
     (if \<not> semaphore_pool_used s i then Some s
      else do {
        let s1 = upd_sem i (\<lambda>m. m\<lparr>sem_active_ops := add32 (sem_active_ops m) 1\<rparr>) s;
        (detached, q, nx) \<leftarrow> wait_queue_remove (sem_waiters (semaphore_pool s1 i)) (Some task) (wait_next s1);
        let s2 = upd_sem i (\<lambda>m. m\<lparr>sem_waiters := q\<rparr>) (s1\<lparr>wait_next := nx\<rparr>);
        let s3 = semaphore_pool_unpin i s2;
        Some (if detached then semaphore_pool_unpin i s3 else s3)
      })"

definition semaphore_detach_task :: "nat option \<Rightarrow> 'a semaphores_scheme \<Rightarrow> 'a semaphores_scheme option" where
  "semaphore_detach_task task s =
     (case task of None \<Rightarrow> Some s | Some t \<Rightarrow> foldM (semaphore_detach_one t) [0..<MAX_SEMAPHORE_POOL] s)"

section \<open>Specification\<close>

text \<open>A semaphore as its value and the list of its waiters.\<close>

definition sem_holds :: "'a semaphores_scheme \<Rightarrow> nat \<Rightarrow> nat \<Rightarrow> nat list \<Rightarrow> bool" where
  "sem_holds s i v xs \<longleftrightarrow> wq_list (sem_waiters (semaphore_pool s i)) (wait_next s) xs \<and> sem_value (semaphore_pool s i) = v \<and>
     (0 < v \<longrightarrow> xs = [])"

text \<open>
  A run of operations on semaphore \<open>i\<close>, with the number of units that waiters have been given and the number of posts;
  anything else may happen in between that leaves the semaphore and the wait links alone.
\<close>

inductive sem_run :: "nat \<Rightarrow> 'a semaphores_scheme \<Rightarrow> nat \<Rightarrow> nat \<Rightarrow> 'a semaphores_scheme \<Rightarrow> bool" for i s where
  run_start: "sem_run i s 0 0 s"
| run_wait: "sem_run i s g p s1 \<Longrightarrow> semaphore_wait_enter c i s1 = Some (r, s2) \<Longrightarrow>
    sem_run i s (if r = Acquired then Suc g else g) p s2"
| run_try: "sem_run i s g p s1 \<Longrightarrow> semaphore_trywait i s1 = (b, s2) \<Longrightarrow> sem_run i s (if b then Suc g else g) p s2"
| run_post: "sem_run i s g p s1 \<Longrightarrow>
    sem_run i s (if fst (semaphore_post_locked i s1) \<noteq> None then Suc g else g) (Suc p) (semaphore_post c i s1)"
| run_other: "sem_run i s g p s1 \<Longrightarrow> semaphore_pool s2 i = semaphore_pool s1 i \<Longrightarrow> wait_next s2 = wait_next s1 \<Longrightarrow> sem_run i s g p s2"

text \<open>A small state for the witnesses: semaphore 0 with one unit.\<close>

definition semaphores_zero :: semaphores where
  "semaphores_zero = mutexes.extend mutexes_zero (semaphores.fields (\<lambda>_. semaphore_init 1) (\<lambda>_. False) (\<lambda>_. 0))"

section \<open>Value and waiters\<close>

lemma semaphore_more: "sched.more s' = sched.more s \<Longrightarrow> semaphore_pool s' = semaphore_pool s"
  by (cases s, cases s') simp

lemma upd_sem_simps [simp]: "semaphore_pool (upd_sem i f s) = (semaphore_pool s)(i := f (semaphore_pool s i))"
  "wait_next (upd_sem i f s) = wait_next s" "cpu_task (upd_sem i f s) = cpu_task s" "tasks (upd_sem i f s) = tasks s"
  by (simp_all add: upd_sem_def)

lemma wait_enter_holds:
  assumes h: "sem_holds s i v xs" and me: "me = cpu_task s c"
  shows "\<exists>r s'. semaphore_wait_enter c i s = Some (r, s') \<and>
    (if 0 < v then r = Acquired \<and> sem_holds s' i (v - 1) xs
     else if me \<in> set xs then r = Refused \<and> s' = s
     else r = Must_park \<and> sem_holds s' i 0 (xs @ [me]))"
proof (cases "0 < v")
  case True
  with h show ?thesis by (auto simp: sem_holds_def semaphore_wait_enter_def)
next
  case False
  with h have q: "wq_list (sem_waiters (semaphore_pool s i)) (wait_next s) xs" and v: "sem_value (semaphore_pool s i) = 0"
    by (auto simp: sem_holds_def)
  from wait_queue_enqueue_list [OF q, of me] obtain q' nx' where
    e: "wait_queue_enqueue (sem_waiters (semaphore_pool s i)) (Some me) (wait_next s) = Some (me \<notin> set xs, q', nx')"
    "wq_list q' nx' (if me \<in> set xs then xs else xs @ [me])" by auto
  show ?thesis using e v False by (auto simp: semaphore_wait_enter_def sched_current_def me [symmetric] sem_holds_def)
qed

lemma post_holds:
  assumes h: "sem_holds s i v xs"
  shows "fst (semaphore_post_locked i s) = (case xs of [] \<Rightarrow> None | x # _ \<Rightarrow> Some x) \<and>
    sem_holds (semaphore_post c i s) i (if xs = [] then add64 v 1 else v) (tl xs)"
proof -
  have q: "wq_list (sem_waiters (semaphore_pool s i)) (wait_next s) xs" and v: "sem_value (semaphore_pool s i) = v" "0 < v \<longrightarrow> xs = []"
    using h by (auto simp: sem_holds_def)
  obtain w s1 where r: "semaphore_post_locked i s = (w, s1)" by (rule prod.exhaust)
  have "w = (case xs of [] \<Rightarrow> None | x # _ \<Rightarrow> Some x) \<and> sem_holds s1 i (if xs = [] then add64 v 1 else v) (tl xs)"
  proof (cases xs)
    case Nil
    then have "wait_queue_dequeue (sem_waiters (semaphore_pool s i)) (wait_next s) = (None, sem_waiters (semaphore_pool s i), wait_next s)"
      using wait_queue_dequeue_list [OF q] by simp
    with r q v Nil show ?thesis by (auto simp: semaphore_post_locked_def sem_holds_def)
  next
    case (Cons x ys)
    from wait_queue_dequeue_list [OF q] Cons obtain q' where
      "wait_queue_dequeue (sem_waiters (semaphore_pool s i)) (wait_next s) = (Some x, q', (wait_next s)(x := None))"
      "wq_list q' ((wait_next s)(x := None)) ys" by auto
    with r v Cons show ?thesis by (auto simp: semaphore_post_locked_def sem_holds_def)
  qed
  moreover have "semaphore_pool (sched_unpark_task c w s1) = semaphore_pool s1" by (rule semaphore_more) simp
  ultimately show ?thesis by (simp add: semaphore_post_def r sem_holds_def)
qed

section \<open>Properties\<close>

text \<open>C23: A semaphore implements a value and a queue of waiters: waiting takes a unit or queues the caller once, trying never
  queues, and a post gives its unit to the first waiter, or adds it to the value when there is none.\<close>

theorem semaphore_ops_correct:
  assumes h: "sem_holds s i v xs" and me: "me = cpu_task s c"
  shows "(\<exists>r s'. semaphore_wait_enter c i s = Some (r, s') \<and>
      (if 0 < v then r = Acquired \<and> sem_holds s' i (v - 1) xs
       else if me \<in> set xs then r = Refused \<and> s' = s
       else r = Must_park \<and> sem_holds s' i 0 (xs @ [me]))) \<and>
    (\<exists>s'. semaphore_trywait i s = (0 < v, s') \<and> sem_holds s' i (v - 1) xs) \<and>
    sem_holds (semaphore_post c i s) i (if xs = [] then add64 v 1 else v) (tl xs)"
  using wait_enter_holds [OF h me] post_holds [OF h, of c] h by (auto simp: semaphore_trywait_def sem_holds_def)

theorem semaphore_ops_correct_witness:
  "\<exists>s'. semaphore_trywait 0 semaphores_zero = (True, s') \<and> sem_holds s' 0 0 []"
proof -
  have "sem_holds semaphores_zero 0 1 []"
    by (simp add: sem_holds_def semaphores_zero_def mutexes.defs semaphores.defs semaphore_init_def wait_queue_init_def wq_list_def last_opt_def)
  from semaphore_ops_correct [OF this refl, of 0] show ?thesis by simp
qed



end
