(* ===== verification/Condvar.thy ===== *)
theory Condvar
  imports Semaphore
begin

text \<open>
  Condition variables and their pool, \<^verbatim>\<open>src/src/kernel/condvar.c\<close>.  A condition variable pointer
  is an index of the pool; \<open>condvar_wait\<close> is split where it parks.
\<close>

section \<open>Data\<close>

abbreviation MAX_CONDVAR_POOL :: nat where "MAX_CONDVAR_POOL \<equiv> 64"

record condvar =
  cv_waiters :: wait_queue
  cv_active_ops :: nat
  cv_destroying :: bool

record condvars = semaphores +
  condvar_pool :: "nat \<Rightarrow> condvar"
  condvar_pool_used :: "nat \<Rightarrow> bool"
  condvar_pool_generation :: "nat \<Rightarrow> nat"

definition upd_cond :: "nat \<Rightarrow> (condvar \<Rightarrow> condvar) \<Rightarrow> 'a condvars_scheme \<Rightarrow> 'a condvars_scheme" where
  "upd_cond i f s = s\<lparr>condvar_pool := (condvar_pool s)(i := f (condvar_pool s i))\<rparr>"

section \<open>Operations\<close>

definition condvar_handle_index :: "int \<Rightarrow> int" where
  "condvar_handle_index handle = handle_index handle"

definition condvar_handle_generation :: "int \<Rightarrow> nat" where
  "condvar_handle_generation handle = handle_generation handle"

definition condvar_make_handle :: "nat \<Rightarrow> nat \<Rightarrow> int" where
  "condvar_make_handle index generation = make_handle index generation"

definition condvar_init :: condvar where
  "condvar_init = \<lparr>cv_waiters = wait_queue_init, cv_active_ops = 0, cv_destroying = False\<rparr>"

text \<open>\<open>condvar_wait\<close> up to the point where it parks: the waiter is published and the mutex released
  under the condition's lock; \<open>False\<close> is the early return of 0.\<close>

definition condvar_wait_enter ::
    "nat \<Rightarrow> nat \<Rightarrow> int \<Rightarrow> 'a condvars_scheme \<Rightarrow> (bool \<times> 'a condvars_scheme) option" where
  "condvar_wait_enter cpu i mutex_handle s = do {
     (entered, q, nx) \<leftarrow> wait_queue_enqueue (cv_waiters (condvar_pool s i)) (Some (sched_current cpu s)) (wait_next s);
     if \<not> entered then Some (False, s)
     else do {
       let s1 = upd_cond i (\<lambda>c. c\<lparr>cv_waiters := q\<rparr>) (s\<lparr>wait_next := nx\<rparr>);
       let (unlocked, s2) = mutex_pool_unlock cpu mutex_handle s1;
       if unlocked then Some (True, s2)
       else do {
         (_, q', nx') \<leftarrow> wait_queue_remove (cv_waiters (condvar_pool s2 i)) (Some (sched_current cpu s2)) (wait_next s2);
         Some (False, upd_cond i (\<lambda>c. c\<lparr>cv_waiters := q'\<rparr>) (s2\<lparr>wait_next := nx'\<rparr>))
       }
     }
   }"

definition condvar_take_waiter :: "nat \<Rightarrow> 'a condvars_scheme \<Rightarrow> nat option \<times> 'a condvars_scheme" where
  "condvar_take_waiter i s =
     (let (waiter, q, nx) = wait_queue_dequeue (cv_waiters (condvar_pool s i)) (wait_next s)
      in (waiter, upd_cond i (\<lambda>c. c\<lparr>cv_waiters := q\<rparr>) (s\<lparr>wait_next := nx\<rparr>)))"

definition condvar_signal :: "nat \<Rightarrow> nat \<Rightarrow> 'a condvars_scheme \<Rightarrow> 'a condvars_scheme" where
  "condvar_signal cpu i s = (let (waiter, s1) = condvar_take_waiter i s in sched_unpark_task cpu waiter s1)"

text \<open>The loop of \<open>condvar_broadcast\<close>; it may run for ever only on a cyclic queue.\<close>

partial_function (option) condvar_broadcast :: "nat \<Rightarrow> nat \<Rightarrow> 'a condvars_scheme \<Rightarrow> 'a condvars_scheme option" where
  "condvar_broadcast cpu i s =
     (let r = condvar_take_waiter i s in
      case fst r of
        None \<Rightarrow> Some (snd r)
      | Some waiter \<Rightarrow> condvar_broadcast cpu i (sched_unpark_task cpu (Some waiter) (snd r)))"

definition condvar_pool_pin :: "int \<Rightarrow> 'a condvars_scheme \<Rightarrow> nat option \<times> 'a condvars_scheme" where
  "condvar_pool_pin handle s =
     (let index = condvar_handle_index handle; generation = condvar_handle_generation handle; i = nat index in
      if index < 0 \<or> int MAX_CONDVAR_POOL \<le> index \<or> generation = 0 then (None, s)
      else if \<not> condvar_pool_used s i \<or> condvar_pool_generation s i \<noteq> generation \<or>
              cv_destroying (condvar_pool s i) then (None, s)
      else (Some i, upd_cond i (\<lambda>c. c\<lparr>cv_active_ops := add32 (cv_active_ops c) 1\<rparr>) s))"

definition condvar_pool_unpin :: "nat \<Rightarrow> 'a condvars_scheme \<Rightarrow> 'a condvars_scheme" where
  "condvar_pool_unpin i s =
     (if 0 < cv_active_ops (condvar_pool s i)
      then upd_cond i (\<lambda>c. c\<lparr>cv_active_ops := cv_active_ops c - 1\<rparr>) s else s)"

definition condvar_pool_alloc :: "'a condvars_scheme \<Rightarrow> int \<times> 'a condvars_scheme" where
  "condvar_pool_alloc s =
     (case find_from (\<lambda>i. \<not> condvar_pool_used s i) 0 MAX_CONDVAR_POOL of
        None \<Rightarrow> (-1, s)
      | Some i \<Rightarrow>
          (let g = next_generation (condvar_pool_generation s i)
           in (condvar_make_handle i g,
               s\<lparr>condvar_pool := (condvar_pool s)(i := condvar_init),
                 condvar_pool_used := (condvar_pool_used s)(i := True),
                 condvar_pool_generation := (condvar_pool_generation s)(i := g)\<rparr>)))"

definition condvar_pool_signal :: "nat \<Rightarrow> int \<Rightarrow> 'a condvars_scheme \<Rightarrow> bool \<times> 'a condvars_scheme" where
  "condvar_pool_signal cpu handle s =
     (case condvar_pool_pin handle s of
        (None, s1) \<Rightarrow> (False, s1)
      | (Some i, s1) \<Rightarrow> (True, condvar_pool_unpin i (condvar_signal cpu i s1)))"

definition condvar_pool_broadcast :: "nat \<Rightarrow> int \<Rightarrow> 'a condvars_scheme \<Rightarrow> (bool \<times> 'a condvars_scheme) option" where
  "condvar_pool_broadcast cpu handle s =
     (case condvar_pool_pin handle s of
        (None, s1) \<Rightarrow> Some (False, s1)
      | (Some i, s1) \<Rightarrow> do { s2 \<leftarrow> condvar_broadcast cpu i s1; Some (True, condvar_pool_unpin i s2) })"

definition condvar_pool_free :: "int \<Rightarrow> 'a condvars_scheme \<Rightarrow> bool \<times> 'a condvars_scheme" where
  "condvar_pool_free handle s =
     (let index = condvar_handle_index handle; generation = condvar_handle_generation handle; i = nat index in
      if index < 0 \<or> int MAX_CONDVAR_POOL \<le> index \<or> generation = 0 then (False, s)
      else if \<not> condvar_pool_used s i \<or> condvar_pool_generation s i \<noteq> generation \<or>
              cv_destroying (condvar_pool s i) \<or> cv_active_ops (condvar_pool s i) \<noteq> 0 then (False, s)
      else
        (let s1 = upd_cond i (\<lambda>c. c\<lparr>cv_destroying := True\<rparr>) s;
             undo = upd_cond i (\<lambda>c. c\<lparr>cv_destroying := False\<rparr>)
         in if \<not> wait_queue_empty (cv_waiters (condvar_pool s1 i)) then (False, undo s1)
            else if \<not> condvar_pool_used s1 i \<or> condvar_pool_generation s1 i \<noteq> generation then (False, undo s1)
            else (True, undo (s1\<lparr>condvar_pool_used := (condvar_pool_used s1)(i := False)\<rparr>))))"

definition condvar_detach_one :: "nat \<Rightarrow> nat \<Rightarrow> 'a condvars_scheme \<Rightarrow> 'a condvars_scheme option" where
  "condvar_detach_one task i s =
     (if \<not> condvar_pool_used s i then Some s
      else do {
        let s1 = upd_cond i (\<lambda>c. c\<lparr>cv_active_ops := add32 (cv_active_ops c) 1\<rparr>) s;
        (detached, q, nx) \<leftarrow> wait_queue_remove (cv_waiters (condvar_pool s1 i)) (Some task) (wait_next s1);
        let s2 = upd_cond i (\<lambda>c. c\<lparr>cv_waiters := q\<rparr>) (s1\<lparr>wait_next := nx\<rparr>);
        let s3 = condvar_pool_unpin i s2;
        Some (if detached then condvar_pool_unpin i s3 else s3)
      })"

definition condvar_detach_task :: "nat option \<Rightarrow> 'a condvars_scheme \<Rightarrow> 'a condvars_scheme option" where
  "condvar_detach_task task s =
     (case task of None \<Rightarrow> Some s | Some t \<Rightarrow> foldM (condvar_detach_one t) [0..<MAX_CONDVAR_POOL] s)"

section \<open>Specification\<close>

definition cond_holds :: "'a condvars_scheme \<Rightarrow> nat \<Rightarrow> nat list \<Rightarrow> bool" where
  "cond_holds s i xs \<longleftrightarrow> wq_list (cv_waiters (condvar_pool s i)) (wait_next s) xs"

text \<open>A small state for the witnesses: tasks 6 and 7 wait on condition 2.\<close>

definition condvar_demo :: condvars where
  "condvar_demo = semaphores.extend semaphores_zero (condvars.fields
     ((\<lambda>_. condvar_init)(2 := condvar_init\<lparr>cv_waiters := \<lparr>wq_head = Some 6, wq_tail = Some 7\<rparr>\<rparr>)) (\<lambda>_. True) (\<lambda>_. 1))
     \<lparr>wait_next := Map.empty(6 := Some 7)\<rparr>"

section \<open>Waiters\<close>

lemma condvar_more: "sched.more s' = sched.more s \<Longrightarrow> condvar_pool s' = condvar_pool s"
  by (cases s, cases s') simp

lemma upd_cond_simps [simp]: "condvar_pool (upd_cond i f s) = (condvar_pool s)(i := f (condvar_pool s i))"
  "wait_next (upd_cond i f s) = wait_next s" "cpu_task (upd_cond i f s) = cpu_task s" "tasks (upd_cond i f s) = tasks s"
  by (simp_all add: upd_cond_def)

lemma take_waiter_holds:
  assumes "cond_holds s i xs"
  shows "fst (condvar_take_waiter i s) = (case xs of [] \<Rightarrow> None | x # _ \<Rightarrow> Some x) \<and> cond_holds (snd (condvar_take_waiter i s)) i (tl xs)"
proof (cases xs)
  case Nil
  with wait_queue_dequeue_list [OF assms [unfolded cond_holds_def]] assms show ?thesis
    by (simp add: condvar_take_waiter_def cond_holds_def)
next
  case (Cons x ys)
  from wait_queue_dequeue_list [OF assms [unfolded cond_holds_def]] Cons obtain q' where
    "wait_queue_dequeue (cv_waiters (condvar_pool s i)) (wait_next s) = (Some x, q', (wait_next s)(x := None))"
    "wq_list q' ((wait_next s)(x := None)) ys" by auto
  with Cons show ?thesis by (simp add: condvar_take_waiter_def cond_holds_def)
qed

lemma unpark_cond [simp]: "cond_holds (sched_unpark_task c t s) i xs = cond_holds s i xs"
  using condvar_more [OF unpark_more(1) [of c t s]] by (simp add: cond_holds_def)

lemma signal_holds: "cond_holds s i xs \<Longrightarrow> cond_holds (condvar_signal c i s) i (tl xs)"
  using take_waiter_holds [of s i xs] by (simp add: condvar_signal_def split_beta)

section \<open>Properties\<close>

text \<open>C25: Broadcasting terminates on every well-formed queue and is the same as signalling once for each waiter, in the order
  in which they came; nobody waits afterwards.\<close>

theorem condvar_broadcast_signals:
  assumes "cond_holds s i xs"
  shows "\<exists>s'. condvar_broadcast c i s = Some s' \<and> cond_holds s' i [] \<and>
    s' = snd (condvar_take_waiter i ((condvar_signal c i ^^ length xs) s))"
  using assms
proof (induction xs arbitrary: s)
  case Nil
  with take_waiter_holds [OF Nil] show ?case by (simp add: condvar_broadcast.simps)
next
  case (Cons x xs)
  define s1 where "s1 = condvar_signal c i s"
  have w: "fst (condvar_take_waiter i s) = Some x" using take_waiter_holds [OF Cons.prems] by simp
  then have "condvar_broadcast c i s = condvar_broadcast c i s1"
    by (subst condvar_broadcast.simps) (simp add: s1_def condvar_signal_def split_beta)
  moreover have "cond_holds s1 i xs" using signal_holds [OF Cons.prems, of c] by (simp add: s1_def)
  ultimately show ?case using Cons.IH [of s1] by (simp add: s1_def funpow_swap1)
qed

theorem condvar_broadcast_signals_witness:
  "\<exists>s'. condvar_broadcast 0 2 condvar_demo = Some s' \<and> cond_holds s' 2 [] \<and>
    s' = snd (condvar_take_waiter 2 ((condvar_signal 0 2 ^^ 2) condvar_demo))"
proof -
  have h: "cond_holds condvar_demo 2 [6, 7]"
    by (simp add: cond_holds_def condvar_demo_def semaphores.defs condvars.defs condvar_init_def wq_list_def last_opt_def)
  show ?thesis using condvar_broadcast_signals [OF h, of 0] by (simp add: numeral_2_eq_2)
qed

lemma hand_off_conds [simp]: "condvar_pool (snd (mutex_hand_off j s)) = condvar_pool s"
  by (simp add: mutex_hand_off_def upd_mutex_def split_beta)

lemma pin_cases:
  "mutex_pool_pin h s = (None, s) \<or> (\<exists>j. mutex_pool_pin h s = (Some j, upd_mutex j (\<lambda>m. m\<lparr>m_active_ops := add32 (m_active_ops m) 1\<rparr>) s))"
  by (simp add: mutex_pool_pin_def Let_def)

lemma pin_cong:
  "mutex_pool s' = mutex_pool s \<Longrightarrow> mutex_pool_used s' = mutex_pool_used s \<Longrightarrow> mutex_pool_generation s' = mutex_pool_generation s \<Longrightarrow>
     fst (mutex_pool_pin h s') = fst (mutex_pool_pin h s)"
  by (simp add: mutex_pool_pin_def Let_def)

lemma pool_unlock_holds:
  assumes p: "fst (mutex_pool_pin h s) = Some j" and m: "mutex_holds s j (Some o') ys"
  shows "\<exists>s'. mutex_pool_unlock c h s = (True, s') \<and> mutex_holds s' j (case ys of [] \<Rightarrow> None | y # _ \<Rightarrow> Some y) (tl ys) \<and>
    (\<forall>x. x \<notin> set ys \<longrightarrow> wait_next s' x = wait_next s x) \<and> condvar_pool s' = condvar_pool s"
proof -
  define s1 where "s1 = upd_mutex j (\<lambda>m. m\<lparr>m_active_ops := add32 (m_active_ops m) 1\<rparr>) s"
  have pin: "mutex_pool_pin h s = (Some j, s1)" using pin_cases [of h s] p by (auto simp: s1_def)
  have m1: "mutex_holds s1 j (Some o') ys" using m by (simp add: mutex_holds_def s1_def)
  obtain t s2 where r: "mutex_hand_off j s1 = (t, s2)" by (rule prod.exhaust)
  note h2 = hand_off_holds [OF m1 r]
  define s3 where "s3 = mutex_unlock c j s1"
  have s3: "s3 = sched_unpark_task c t s2" by (simp add: s3_def mutex_unlock_def r)
  have m3: "mutex_holds s3 j (case ys of [] \<Rightarrow> None | y # _ \<Rightarrow> Some y) (tl ys)" unfolding s3_def by (rule unlock_holds [OF m1])
  have c3: "condvar_pool s3 = condvar_pool s2" unfolding s3 by (rule condvar_more) simp
  have c2: "condvar_pool s2 = condvar_pool s1" using hand_off_conds [of j s1] r by simp
  have e: "mutex_pool_unlock c h s = (True, mutex_pool_unpin j s3)" by (simp add: mutex_pool_unlock_def pin s3_def)
  have "mutex_holds (mutex_pool_unpin j s3) j (case ys of [] \<Rightarrow> None | y # _ \<Rightarrow> Some y) (tl ys)"
    using m3 by (simp add: mutex_pool_unpin_def mutex_holds_def)
  moreover have "condvar_pool (mutex_pool_unpin j s3) = condvar_pool s" "wait_next (mutex_pool_unpin j s3) = wait_next s3"
    using c3 c2 by (simp_all add: mutex_pool_unpin_def upd_mutex_def s1_def)
  moreover have "wait_next s3 x = wait_next s x" if "x \<notin> set ys" for x using h2 that by (simp add: s3 s1_def)
  ultimately show ?thesis using e by simp
qed



end
