(* ===== verification/Ipc.thy ===== *)
theory Ipc
  imports Condvar
begin

text \<open>
  One-message channels between tasks, \<^verbatim>\<open>src/src/kernel/ipc.c\<close>.  A data pointer is the list of
  bytes it points to, null is \<open>None\<close>.
\<close>

section \<open>Data\<close>

abbreviation IPC_CHANNEL_MAX :: nat where "IPC_CHANNEL_MAX \<equiv> 8"
abbreviation IPC_MESSAGE_MAX :: nat where "IPC_MESSAGE_MAX \<equiv> 64"
abbreviation IPC_RESULT_ERROR :: int where "IPC_RESULT_ERROR \<equiv> -1"
abbreviation IPC_RESULT_BLOCKED :: int where "IPC_RESULT_BLOCKED \<equiv> -2"

record ipc_channel =
  has_message :: bool
  ch_length :: nat
  ch_buffer :: "u8 list"
  receivers :: wait_queue

record ipcs = condvars +
  ipc_channels :: "nat \<Rightarrow> ipc_channel"

definition upd_channel :: "nat \<Rightarrow> (ipc_channel \<Rightarrow> ipc_channel) \<Rightarrow> 'a ipcs_scheme \<Rightarrow> 'a ipcs_scheme" where
  "upd_channel i f s = s\<lparr>ipc_channels := (ipc_channels s)(i := f (ipc_channels s i))\<rparr>"

section \<open>Operations\<close>

definition ipc_valid_channel :: "nat \<Rightarrow> bool" where
  "ipc_valid_channel channel_id \<longleftrightarrow> channel_id < IPC_CHANNEL_MAX"

definition ipc_init :: "'a ipcs_scheme \<Rightarrow> 'a ipcs_scheme" where
  "ipc_init s =
     fold (\<lambda>i. upd_channel i (\<lambda>_. \<lparr>has_message = False, ch_length = 0, ch_buffer = replicate IPC_MESSAGE_MAX 0,
                                  receivers = wait_queue_init\<rparr>)) [0..<IPC_CHANNEL_MAX] s"

text \<open>The byte-copy loop \<open>for (i = 0; i < len; i++) dst[i] = src[i]\<close>.\<close>

definition copy_bytes :: "nat \<Rightarrow> u8 list \<Rightarrow> u8 list \<Rightarrow> u8 list" where
  "copy_bytes len src dst = fold (\<lambda>i d. d[i := src ! i]) [0..<len] dst"

definition ipc_send :: "nat \<Rightarrow> nat \<Rightarrow> u8 list option \<Rightarrow> nat \<Rightarrow> 'a ipcs_scheme \<Rightarrow> int \<times> 'a ipcs_scheme" where
  "ipc_send cpu channel_id data len s =
     (case data of
        None \<Rightarrow> (IPC_RESULT_ERROR, s)
      | Some bytes \<Rightarrow>
          if \<not> ipc_valid_channel channel_id \<or> len = 0 \<or> IPC_MESSAGE_MAX < len then (IPC_RESULT_ERROR, s)
          else if has_message (ipc_channels s channel_id) then (IPC_RESULT_ERROR, s)
          else
            (let s1 = upd_channel channel_id (\<lambda>c. c\<lparr>ch_buffer := copy_bytes len bytes (ch_buffer c), ch_length := len,
                         has_message := True\<rparr>) s;
                 (waiting_receiver, q, nx) = wait_queue_dequeue (receivers (ipc_channels s1 channel_id)) (wait_next s1);
                 s2 = upd_channel channel_id (\<lambda>c. c\<lparr>receivers := q\<rparr>) (s1\<lparr>wait_next := nx\<rparr>)
             in (int len, sched_unpark_task cpu waiting_receiver s2)))"

text \<open>The result of \<open>ipc_receive\<close>, the receiver's buffer afterwards, and the state.\<close>

definition ipc_receive ::
    "nat \<Rightarrow> nat option \<Rightarrow> u8 list option \<Rightarrow> nat \<Rightarrow> 'a ipcs_scheme \<Rightarrow> (int \<times> u8 list option \<times> 'a ipcs_scheme) option" where
  "ipc_receive channel_id task data capacity s =
     (case data of
        None \<Rightarrow> Some (IPC_RESULT_ERROR, data, s)
      | Some bytes \<Rightarrow>
          if \<not> ipc_valid_channel channel_id \<or> task = None \<or> capacity = 0 \<or> IPC_MESSAGE_MAX < capacity then
            Some (IPC_RESULT_ERROR, data, s)
          else
            (let channel = ipc_channels s channel_id in
             if has_message channel then
               (if capacity < ch_length channel then Some (IPC_RESULT_ERROR, data, s)
                else Some (int (ch_length channel), Some (copy_bytes (ch_length channel) (ch_buffer channel) bytes),
                       upd_channel channel_id (\<lambda>c. c\<lparr>has_message := False, ch_length := 0\<rparr>) s))
             else do {
               (entered, q, nx) \<leftarrow> wait_queue_enqueue (receivers channel) task (wait_next s);
               let s1 = upd_channel channel_id (\<lambda>c. c\<lparr>receivers := q\<rparr>) (s\<lparr>wait_next := nx\<rparr>);
               present \<leftarrow> (if entered then Some True else wait_queue_contains (receivers (ipc_channels s1 channel_id)) task (wait_next s1));
               if \<not> present then Some (IPC_RESULT_ERROR, data, s1)
               else Some (IPC_RESULT_BLOCKED, data, snd (sched_park_task task s1))
             }))"

definition ipc_detach_one :: "nat \<Rightarrow> nat \<Rightarrow> 'a ipcs_scheme \<Rightarrow> 'a ipcs_scheme option" where
  "ipc_detach_one task i s = do {
     (_, q, nx) \<leftarrow> wait_queue_remove (receivers (ipc_channels s i)) (Some task) (wait_next s);
     Some (upd_channel i (\<lambda>c. c\<lparr>receivers := q\<rparr>) (s\<lparr>wait_next := nx\<rparr>))
   }"

definition ipc_detach_task :: "nat option \<Rightarrow> 'a ipcs_scheme \<Rightarrow> 'a ipcs_scheme option" where
  "ipc_detach_task task s =
     (case task of None \<Rightarrow> Some s | Some t \<Rightarrow> foldM (ipc_detach_one t) [0..<IPC_CHANNEL_MAX] s)"

section \<open>Specification\<close>

text \<open>Channel \<open>i\<close> has the message \<open>m\<close>, if any, and the tasks \<open>xs\<close> wait for one.\<close>

definition channel_holds :: "'a ipcs_scheme \<Rightarrow> nat \<Rightarrow> u8 list option \<Rightarrow> nat list \<Rightarrow> bool" where
  "channel_holds s i m xs \<longleftrightarrow> wq_list (receivers (ipc_channels s i)) (wait_next s) xs \<and> length (ch_buffer (ipc_channels s i)) = IPC_MESSAGE_MAX \<and>
     (case m of None \<Rightarrow> \<not> has_message (ipc_channels s i)
      | Some bytes \<Rightarrow> has_message (ipc_channels s i) \<and> ch_length (ipc_channels s i) = length bytes \<and> length bytes \<le> IPC_MESSAGE_MAX \<and>
          take (length bytes) (ch_buffer (ipc_channels s i)) = bytes)"

text \<open>A small state for the witnesses.\<close>

definition ipcs_zero :: ipcs where
  "ipcs_zero = condvars.extend condvar_demo (ipcs.fields (\<lambda>_. \<lparr>has_message = False, ch_length = 0,
     ch_buffer = replicate IPC_MESSAGE_MAX 0, receivers = wait_queue_init\<rparr>))"

section \<open>Channels\<close>

lemma copy_bytes_eq: "len \<le> length dst \<Longrightarrow> len \<le> length src \<Longrightarrow> copy_bytes len src dst = take len src @ drop len dst"
proof (induction len)
  case (Suc n)
  then have "copy_bytes (Suc n) src dst = (take n src @ drop n dst)[n := src ! n]" by (simp add: copy_bytes_def)
  also have "\<dots> = take n src @ (drop n dst)[0 := src ! n]" using Suc.prems by (simp add: list_update_append)
  also have "(drop n dst)[0 := src ! n] = src ! n # drop (Suc n) dst" using Suc.prems by (simp add: Cons_nth_drop_Suc [symmetric])
  also have "take n src @ src ! n # drop (Suc n) dst = take (Suc n) src @ drop (Suc n) dst" using Suc.prems by (simp add: take_Suc_conv_app_nth)
  finally show ?case .
qed (simp add: copy_bytes_def)

lemma ipc_more: "sched.more s' = sched.more s \<Longrightarrow> ipc_channels s' = ipc_channels s"
  by (cases s, cases s') simp

lemma upd_channel_simps [simp]: "ipc_channels (upd_channel i f s) = (ipc_channels s)(i := f (ipc_channels s i))"
  "wait_next (upd_channel i f s) = wait_next s" "tasks (upd_channel i f s) = tasks s"
  by (simp_all add: upd_channel_def)

lemma unpark_channel [simp]: "channel_holds (sched_unpark_task c t s) i m xs = channel_holds s i m xs"
  using ipc_more [OF unpark_more(1) [of c t s]] by (simp add: channel_holds_def split: option.split)

lemma park_more [simp]: "sched.more (snd (sched_park_task t s)) = sched.more s" "wait_next (snd (sched_park_task t s)) = wait_next s"
  by (simp_all add: sched_park_task_def split: option.split)

lemma park_channel [simp]: "channel_holds (snd (sched_park_task t s)) i m xs = channel_holds s i m xs"
  using ipc_more [OF park_more(1) [of t s]] by (simp add: channel_holds_def split: option.split)

lemma ipc_send_holds:
  assumes h: "channel_holds s i None xs" and i: "i < IPC_CHANNEL_MAX" and n: "0 < n" "n \<le> IPC_MESSAGE_MAX" "n \<le> length bytes"
  shows "\<exists>s'. ipc_send c i (Some bytes) n s = (int n, s') \<and> channel_holds s' i (Some (take n bytes)) (tl xs)"
proof -
  define s1 where "s1 = upd_channel i (\<lambda>c. c\<lparr>ch_buffer := copy_bytes n bytes (ch_buffer c), ch_length := n, has_message := True\<rparr>) s"
  have q: "wq_list (receivers (ipc_channels s i)) (wait_next s) xs" and b: "length (ch_buffer (ipc_channels s i)) = IPC_MESSAGE_MAX"
    "\<not> has_message (ipc_channels s i)" using h by (auto simp: channel_holds_def)
  obtain t q' nx' where d: "wait_queue_dequeue (receivers (ipc_channels s i)) (wait_next s) = (t, q', nx')" by (rule prod_cases3)
  have q': "wq_list q' nx' (tl xs)" using wait_queue_dequeue_list [OF q] d q by (cases xs) auto
  define s2 where "s2 = upd_channel i (\<lambda>c. c\<lparr>receivers := q'\<rparr>) (s1\<lparr>wait_next := nx'\<rparr>)"
  have "ipc_send c i (Some bytes) n s = (int n, sched_unpark_task c t s2)"
    using i n b d by (simp add: ipc_send_def ipc_valid_channel_def s1_def [symmetric] Let_def s2_def) (simp add: s1_def)
  moreover have "channel_holds s2 i (Some (take n bytes)) (tl xs)"
    using q' b n by (simp add: channel_holds_def s2_def s1_def copy_bytes_eq min_absorb2)
  ultimately show ?thesis by simp
qed

section \<open>Properties\<close>

text \<open>C27: A message arrives as it was sent: what a send puts into an empty channel is what the next receive copies out, the rest of
  the receiver's buffer is left alone, and the channel is empty again.\<close>

theorem ipc_roundtrip:
  assumes h: "channel_holds s i None xs" and i: "i < IPC_CHANNEL_MAX" and n: "0 < n" "n \<le> IPC_MESSAGE_MAX" "n \<le> length bytes"
    and cap: "n \<le> cap" "cap \<le> IPC_MESSAGE_MAX" "cap \<le> length buf"
  shows "\<exists>s1 s2. ipc_send c i (Some bytes) n s = (int n, s1) \<and>
    ipc_receive i (Some t) (Some buf) cap s1 = Some (int n, Some (take n bytes @ drop n buf), s2) \<and> channel_holds s2 i None (tl xs)"
proof -
  from ipc_send_holds [OF h i n] obtain s1 where
    s1: "ipc_send c i (Some bytes) n s = (int n, s1)" "channel_holds s1 i (Some (take n bytes)) (tl xs)" by blast
  define ch where "ch = ipc_channels s1 i"
  have ch: "has_message ch" "ch_length ch = n" "take n (ch_buffer ch) = take n bytes" "length (ch_buffer ch) = IPC_MESSAGE_MAX"
    "wq_list (receivers ch) (wait_next s1) (tl xs)"
    using s1(2) n by (auto simp: channel_holds_def ch_def min_absorb2)
  have "copy_bytes n (ch_buffer ch) buf = take n bytes @ drop n buf" using ch n cap by (simp add: copy_bytes_eq)
  then have "ipc_receive i (Some t) (Some buf) cap s1 = Some (int n, Some (take n bytes @ drop n buf), upd_channel i (\<lambda>c. c\<lparr>has_message := False, ch_length := 0\<rparr>) s1)"
    using i n cap ch by (simp add: ipc_receive_def ipc_valid_channel_def ch_def [symmetric])
  moreover have "channel_holds (upd_channel i (\<lambda>c. c\<lparr>has_message := False, ch_length := 0\<rparr>) s1) i None (tl xs)"
    using ch by (simp add: channel_holds_def ch_def)
  ultimately show ?thesis using s1(1) by blast
qed

theorem ipc_roundtrip_witness:
  "\<exists>s1 s2. ipc_send 0 1 (Some [7, 8, 9]) 2 ipcs_zero = (2, s1) \<and>
    ipc_receive 1 (Some 4) (Some [0, 0, 0, 0]) 4 s1 = Some (2, Some [7, 8, 0, 0], s2) \<and> channel_holds s2 1 None []"
proof -
  have "channel_holds ipcs_zero 1 None []" by (simp add: channel_holds_def ipcs_zero_def condvars.defs ipcs.defs)
  from ipc_roundtrip [OF this, of 2 "[7, 8, 9]" 4 "[0, 0, 0, 0]" 0 4] show ?thesis by simp
qed

text \<open>C28: Sending fails exactly for a null pointer, a bad channel, a length of 0 or above 64, or a full channel, and then changes
  nothing; receiving fails without a change for the same kinds of argument and for a message longer than the buffer, which stays
  in the channel, and queues and parks the caller when there is no message.\<close>

theorem ipc_errors:
  assumes h: "channel_holds s i m xs" and i: "i < IPC_CHANNEL_MAX"
  shows "(fst (ipc_send c j data n s) = IPC_RESULT_ERROR \<longleftrightarrow>
       data = None \<or> \<not> j < IPC_CHANNEL_MAX \<or> n = 0 \<or> IPC_MESSAGE_MAX < n \<or> has_message (ipc_channels s j)) \<and>
    (fst (ipc_send c j data n s) = IPC_RESULT_ERROR \<longrightarrow> snd (ipc_send c j data n s) = s) \<and>
    (data = None \<or> \<not> j < IPC_CHANNEL_MAX \<or> cap = 0 \<or> IPC_MESSAGE_MAX < cap \<longrightarrow>
       ipc_receive j (Some t) data cap s = Some (IPC_RESULT_ERROR, data, s)) \<and>
    (\<forall>bytes. m = Some bytes \<and> 0 < cap \<and> cap < length bytes \<longrightarrow>
       ipc_receive i (Some t) (Some buf) cap s = Some (IPC_RESULT_ERROR, Some buf, s)) \<and>
    (m = None \<and> 0 < cap \<and> cap \<le> IPC_MESSAGE_MAX \<and> t \<notin> set xs \<longrightarrow>
       (\<exists>s1. ipc_receive i (Some t) (Some buf) cap s = Some (IPC_RESULT_BLOCKED, Some buf, snd (sched_park_task (Some t) s1)) \<and>
         channel_holds s1 i None (xs @ [t])))"
proof (intro conjI impI allI)
  show "fst (ipc_send c j data n s) = IPC_RESULT_ERROR \<longleftrightarrow>
       data = None \<or> \<not> j < IPC_CHANNEL_MAX \<or> n = 0 \<or> IPC_MESSAGE_MAX < n \<or> has_message (ipc_channels s j)"
    by (auto simp: ipc_send_def ipc_valid_channel_def Let_def split_beta split: option.split)
  show "snd (ipc_send c j data n s) = s" if "fst (ipc_send c j data n s) = IPC_RESULT_ERROR"
    using that by (auto simp: ipc_send_def Let_def split_beta split: option.splits if_splits)
  show "ipc_receive j (Some t) data cap s = Some (IPC_RESULT_ERROR, data, s)"
    if "data = None \<or> \<not> j < IPC_CHANNEL_MAX \<or> cap = 0 \<or> IPC_MESSAGE_MAX < cap"
    using that by (auto simp: ipc_receive_def ipc_valid_channel_def split: option.split)
  show "ipc_receive i (Some t) (Some buf) cap s = Some (IPC_RESULT_ERROR, Some buf, s)"
    if "m = Some bytes \<and> 0 < cap \<and> cap < length bytes" for bytes
    using that h i by (auto simp: ipc_receive_def ipc_valid_channel_def channel_holds_def)
  assume a: "m = None \<and> 0 < cap \<and> cap \<le> IPC_MESSAGE_MAX \<and> t \<notin> set xs"
  with h have q: "wq_list (receivers (ipc_channels s i)) (wait_next s) xs" and b: "length (ch_buffer (ipc_channels s i)) = IPC_MESSAGE_MAX"
    "\<not> has_message (ipc_channels s i)" by (auto simp: channel_holds_def)
  from wait_queue_enqueue_list [OF q, of t] a obtain q' nx' where
    e: "wait_queue_enqueue (receivers (ipc_channels s i)) (Some t) (wait_next s) = Some (True, q', nx')" "wq_list q' nx' (xs @ [t])" by auto
  define s1 where "s1 = upd_channel i (\<lambda>c. c\<lparr>receivers := q'\<rparr>) (s\<lparr>wait_next := nx'\<rparr>)"
  have "channel_holds s1 i None (xs @ [t])" using e(2) b by (simp add: channel_holds_def s1_def)
  moreover have "ipc_receive i (Some t) (Some buf) cap s = Some (IPC_RESULT_BLOCKED, Some buf, snd (sched_park_task (Some t) s1))"
    using a b i e(1) by (simp add: ipc_receive_def ipc_valid_channel_def s1_def)
  ultimately show "\<exists>s1. ipc_receive i (Some t) (Some buf) cap s = Some (IPC_RESULT_BLOCKED, Some buf, snd (sched_park_task (Some t) s1)) \<and>
         channel_holds s1 i None (xs @ [t])" by blast
qed

theorem ipc_errors_witness:
  "fst (ipc_send 0 9 (Some [1]) 1 ipcs_zero) = IPC_RESULT_ERROR \<and> snd (ipc_send 0 9 (Some [1]) 1 ipcs_zero) = ipcs_zero"
proof -
  have "channel_holds ipcs_zero 1 None []" by (simp add: channel_holds_def ipcs_zero_def condvars.defs ipcs.defs)
  from ipc_errors [OF this, of 0 9 "Some [1]" 1] show ?thesis by simp
qed

end
