(* ===== verification/Sched_Safety.thy ===== *)
theory Sched_Safety
  imports Sched
begin

text \<open>
  What the scheduler promises.  The first part states the invariant \<open>sched_inv\<close> of the task table, the
  run queues, the ring of tasks and the CPUs, the steps of the kernel that act on them and the states these
  steps reach from boot.  The second part proves that every step keeps the invariant, and from it that no
  task runs on two CPUs, what \<open>schedule\<close> chooses, that round robin is fair, what park, unpark, kill and
  wait4 do, and what happens when a task is made ready before it has left its CPU.
\<close>

section \<open>Specification\<close>

text \<open>
  A slot \<open>t\<close> of the task table that holds the task \<open>k\<close>, when \<open>ct\<close> says what runs on each CPU: idle
  tasks never queue, a queued task is off every CPU and ready or just killed, a ready task is
  queued, a task that claims a CPU is the one running there, and a task being reaped is nowhere.
\<close>

definition task_wf :: "(nat \<Rightarrow> nat) \<Rightarrow> nat \<Rightarrow> task \<Rightarrow> bool" where
  "task_wf ct t k \<longleftrightarrow>
     (if t < 4 then tk_id k = t \<and> tk_name k \<noteq> None \<and> \<not> on_rq k \<and> current_cpu k = t \<and> tk_state k = RUNNING
      else if tk_name k = None then \<not> on_rq k
      else 4 \<le> tk_id k \<and>
        (on_rq k \<longrightarrow> (tk_state k = READY \<or> tk_state k = DEAD) \<and> current_cpu k = TASK_NO_CPU) \<and>
        (tk_state k = READY \<longrightarrow> on_rq k) \<and>
        (tk_state k = RUNNING \<longrightarrow> current_cpu k \<noteq> TASK_NO_CPU) \<and>
        (tk_state k = REAPING \<longrightarrow> current_cpu k = TASK_NO_CPU \<and> \<not> on_rq k) \<and>
        (current_cpu k \<noteq> TASK_NO_CPU \<longrightarrow> current_cpu k < SCHED_MAX_CPUS \<and> ct (current_cpu k) = t))"

definition cpu_wf :: "'a sched_scheme \<Rightarrow> nat \<Rightarrow> bool" where
  "cpu_wf s c \<longleftrightarrow> cpu_task s c < MAX_TASKS \<and> tk_name (tasks s (cpu_task s c)) \<noteq> None \<and>
     current_cpu (tasks s (cpu_task s c)) = c"

text \<open>The ring of tasks through \<open>next\<close> holds the live tasks, starting behind \<open>tasks[0]\<close>.\<close>

definition live_task :: "task \<Rightarrow> bool" where
  "live_task k \<longleftrightarrow> tk_name k \<noteq> None \<and> tk_state k \<noteq> REAPING"

definition ring :: "'a sched_scheme \<Rightarrow> nat list \<Rightarrow> bool" where
  "ring s xs \<longleftrightarrow> seg (task_next s) (task_next s 0) xs (Some 0) \<and> distinct (0 # xs) \<and>
     set xs = {t. 0 < t \<and> t < MAX_TASKS \<and> live_task (tasks s t)}"

definition sched_inv :: "'a sched_scheme \<Rightarrow> bool" where
  "sched_inv s \<longleftrightarrow> (\<exists>Q. rqs s Q) \<and> (\<exists>xs. ring s xs) \<and>
     (\<forall>t < MAX_TASKS. task_wf (cpu_task s) t (tasks s t)) \<and> (\<forall>c < SCHED_MAX_CPUS. cpu_wf s c)"

text \<open>No task is on its way off a CPU: every blocked task has left the CPU it ran on.\<close>

definition settled :: "'a sched_scheme \<Rightarrow> bool" where
  "settled s \<longleftrightarrow> (\<forall>t < MAX_TASKS. tk_name (tasks s t) \<noteq> None \<and> tk_state (tasks s t) = BLOCKED \<longrightarrow>
     current_cpu (tasks s t) = TASK_NO_CPU)"

text \<open>\<open>schedule\<close> in three parts: what it does to the running task, the choice, and the switch.\<close>

definition put_aside :: "nat \<Rightarrow> nat \<Rightarrow> 'a sched_scheme \<Rightarrow> 'a sched_scheme" where
  "put_aside cpu prev s2 =
     (if SCHED_MAX_CPUS \<le> tk_id (tasks s2 prev) then
        upd_task prev (\<lambda>t. t\<lparr>current_cpu := TASK_NO_CPU\<rparr>)
          (if tk_state (tasks s2 prev) = RUNNING
           then sched_rq_enqueue_locked prev cpu (upd_task prev (\<lambda>t. t\<lparr>tk_state := READY\<rparr>) s2)
           else s2)
      else s2)"

definition before_switch :: "nat \<Rightarrow> 'a sched_scheme \<Rightarrow> 'a sched_scheme" where
  "before_switch cpu s0 =
     (let s = sched_preempt_disable cpu s0; prev = cpu_task s cpu;
          s1 = (if 4 \<le> tk_id (tasks s prev) \<and> kill_pending (tasks s prev)
                then upd_task prev (\<lambda>t. t\<lparr>kill_pending := False, tk_state := DEAD\<rparr>) s else s)
      in upd_rq cpu (\<lambda>rq. rq\<lparr>need_resched := False\<rparr>) s1)"

definition switch_to :: "nat \<Rightarrow> nat \<Rightarrow> nat \<Rightarrow> 'a sched_scheme \<Rightarrow> nat option \<times> 'a sched_scheme" where
  "switch_to cpu prev next s4 =
     (let s5 = upd_task next (\<lambda>t. t\<lparr>tk_state := RUNNING, current_cpu := cpu\<rparr>) s4
      in if next = prev then (None, sched_preempt_enable cpu s5)
         else (Some next, switch_context cpu prev next
                (s5\<lparr>cpu_task := (cpu_task s5)(cpu := next),
                    switch_count := (switch_count s5)(cpu := add64 (switch_count s5 cpu) 1)\<rparr>)))"

text \<open>
  The running task \<open>p\<close> of a CPU as \<open>schedule\<close> finds it: whether it goes back to the queue, and the
  task that gets the CPU when the queues hold \<open>Q\<close>.
\<close>

definition stays :: "'a sched_scheme \<Rightarrow> nat \<Rightarrow> bool" where
  "stays s p \<longleftrightarrow> 4 \<le> p \<and> tk_state (tasks s p) = RUNNING \<and> \<not> kill_pending (tasks s p)"

definition runnable :: "'a sched_scheme \<Rightarrow> nat \<Rightarrow> nat \<Rightarrow> bool" where
  "runnable s p t \<longleftrightarrow> (if t = p then stays s p else tk_state (tasks s t) = READY)"

definition next_choice :: "nat \<Rightarrow> 'a sched_scheme \<Rightarrow> nat \<Rightarrow> (nat \<Rightarrow> nat list) \<Rightarrow> nat \<Rightarrow> bool" where
  "next_choice c s p Q n \<longleftrightarrow>
     (case find (runnable s p) (Q c) of
        Some v \<Rightarrow> n = v
      | None \<Rightarrow> \<exists>d < SCHED_MAX_CPUS. (\<forall>e < SCHED_MAX_CPUS. e \<noteq> c \<longrightarrow> length (Q e) \<le> length (Q d)) \<and>
          n = (case find (runnable s p) (Q d) of Some v \<Rightarrow> v | None \<Rightarrow> c))"

text \<open>The ring of tasks: insertion behind a task, unlinking, and the search for a dead task.\<close>

definition dead_task :: "task \<Rightarrow> bool" where
  "dead_task k \<longleftrightarrow> tk_state k = DEAD \<and> current_cpu k = TASK_NO_CPU"

text \<open>
  The steps of the kernel on the scheduler's state, each one critical section on one CPU.  A task is
  made ready only when it is off every CPU (\<open>off_cpu\<close>; \<open>settled\<close> where the code picks the task
  itself), a task that blocks does so on its own CPU, and the idle tasks neither exit nor wait.
\<close>

definition off_cpu :: "'a sched_scheme \<Rightarrow> nat \<Rightarrow> bool" where
  "off_cpu s t \<longleftrightarrow> (tk_state (tasks s t) = BLOCKED \<longrightarrow> current_cpu (tasks s t) = TASK_NO_CPU)"

definition named :: "'a sched_scheme \<Rightarrow> nat \<Rightarrow> bool" where
  "named s t \<longleftrightarrow> t < MAX_TASKS \<and> tk_name (tasks s t) \<noteq> None"

inductive sched_step :: "'a sched_scheme \<Rightarrow> 'a sched_scheme \<Rightarrow> bool" where
  step_schedule: "c < SCHED_MAX_CPUS \<Longrightarrow> schedule_locked c s = Some (r, s') \<Longrightarrow> sched_step s s'"
| step_resume: "sched_step s (schedule_resume c s)"
| step_preempt_disable: "sched_step s (sched_preempt_disable c s)"
| step_preempt_enable: "sched_step s (sched_preempt_enable c s)"
| step_irq_enter: "sched_step s (sched_irq_enter c s)"
| step_irq_exit: "sched_step s (snd (irq_exit_locked c s))"
| step_tick: "settled s \<Longrightarrow> sched_step s (sched_tick c s)"
| step_resched: "sched_step s (sched_request_reschedule c s)"
| step_park: "c < SCHED_MAX_CPUS \<Longrightarrow> sched_step s (snd (sched_park_task (Some (cpu_task s c)) s))"
| step_unpark: "named s t \<Longrightarrow> off_cpu s t \<Longrightarrow> sched_step s (sched_unpark_task c (Some t) s)"
| step_wake: "named s t \<Longrightarrow> off_cpu s t \<Longrightarrow> sched_step s (sched_wake_task c (Some t) s)"
| step_block: "named s t \<Longrightarrow> sched_block_task (Some t) s = Some s' \<Longrightarrow> sched_step s s'"
| step_sleep: "c < SCHED_MAX_CPUS \<Longrightarrow> 0 < ticks \<Longrightarrow> sched_sleep_current c ticks s = Some (b, s') \<Longrightarrow> sched_step s s'"
| step_exit: "c < SCHED_MAX_CPUS \<Longrightarrow> 4 \<le> cpu_task s c \<Longrightarrow> settled s \<Longrightarrow> sched_step s (task_exit_locked c s)"
| step_wait4: "c < SCHED_MAX_CPUS \<Longrightarrow> 4 \<le> cpu_task s c \<Longrightarrow> sched_step s (snd (wait4_locked c pid s))"
| step_kill: "sched_step s (snd (sched_kill_task c tid s))"
| step_exit_status: "sched_step s (sched_set_current_exit_status c status s)"
| step_register: "sched_step s (snd (sched_register_init_task t s))"
| step_adopt: "sched_step s (snd (sched_adopt_task t s))"
| step_set_parent: "sched_step s (snd (sched_test_set_parent t p s))"
| step_create: "c < SCHED_MAX_CPUS \<Longrightarrow> sched_allocate_task_slot s = Some t \<Longrightarrow> 4 \<le> next_task_id s \<Longrightarrow>
    sched_step s (task_create_locked c t stack_va entry name s)"
| step_create_user: "c < SCHED_MAX_CPUS \<Longrightarrow> sched_allocate_task_slot s = Some t \<Longrightarrow> 4 \<le> next_task_id s \<Longrightarrow>
    sched_step s (task_create_user_locked c t stack_va process mm entry_va stack_top name console s)"
| step_reap: "reap_detach_locked s = Some (v, s') \<Longrightarrow> sched_step s s'"
| step_clear: "named s t \<Longrightarrow> tk_state (tasks s t) = REAPING \<Longrightarrow> sched_step s (sched_clear_task t s)"

text \<open>The state when the four CPUs are up: \<open>sched_init\<close> has run on the zeroed task table, and \<open>secondary_main\<close> has set each CPU's task.\<close>

definition sched_boot :: "'a sched_scheme \<Rightarrow> 'a sched_scheme" where
  "sched_boot s = (let s1 = sched_init s in s1\<lparr>cpu_task := (cpu_task s1)(1 := 1, 2 := 2, 3 := 3)\<rparr>)"

inductive sched_reachable :: "'a sched_scheme \<Rightarrow> bool" where
  reach_boot: "tasks s = (\<lambda>_. zero_task) \<Longrightarrow> sched_reachable (sched_boot s)"
| reach_step: "sched_reachable s \<Longrightarrow> sched_step s s' \<Longrightarrow> sched_reachable s'"

text \<open>Calling \<open>schedule\<close> \<open>n\<close> times on one CPU, as its timer interrupts do.\<close>

primrec schedule_times :: "nat \<Rightarrow> nat \<Rightarrow> 'a sched_scheme \<Rightarrow> 'a sched_scheme option" where
  "schedule_times cpu 0 s = Some s"
| "schedule_times cpu (Suc n) s = do { (_, s1) \<leftarrow> schedule_locked cpu s; schedule_times cpu n s1 }"

text \<open>A small state for the witnesses: a task runs while another is queued behind it, one is blocked and one is a zombie.\<close>

definition demo_task :: "nat \<Rightarrow> task_state \<Rightarrow> nat \<Rightarrow> bool \<Rightarrow> task" where
  "demo_task i st cpu queued = zero_task\<lparr>tk_id := i, tk_state := st, current_cpu := cpu, on_rq := queued,
     tk_name := Some ''worker'', parent_id := SCHED_NO_PARENT\<rparr>"

definition demo :: sched where
  "demo = sched_zero\<lparr>
     tasks := (\<lambda>t. if t < 4 then idle_task t else zero_task)
       (4 := demo_task 4 RUNNING 0 False, 5 := demo_task 5 READY TASK_NO_CPU True, 6 := demo_task 6 BLOCKED TASK_NO_CPU False,
        7 := (demo_task 7 ZOMBIE TASK_NO_CPU False)\<lparr>parent_id := 4, exit_status := 3\<rparr>),
     task_next := Map.empty(0 := Some 4, 4 := Some 5, 5 := Some 6, 6 := Some 7, 7 := Some 1, 1 := Some 2, 2 := Some 3, 3 := Some 0),
     run_queues := (\<lambda>_. sched_rq_init)(0 := sched_rq_init\<lparr>rq_head := Some 5, rq_tail := Some 5, nr_running := 1\<rparr>),
     next_task_id := 8, init_task_id := SCHED_NO_PARENT, cpu_task := (\<lambda>_. 0)(0 := 4, 1 := 1, 2 := 2, 3 := 3)\<rparr>"

definition demo_q :: "nat \<Rightarrow> nat list" where
  "demo_q = (\<lambda>_. [])(0 := [5])"

section \<open>The scheduler invariant\<close>

lemma sched_invD:
  assumes "sched_inv s"
  shows "\<exists>Q. rqs s Q" "\<exists>xs. ring s xs" "\<And>t. t < MAX_TASKS \<Longrightarrow> task_wf (cpu_task s) t (tasks s t)"
    "\<And>c. c < SCHED_MAX_CPUS \<Longrightarrow> cpu_wf s c"
  using assms by (auto simp: sched_inv_def)

lemma ring_cong:
  "ring s xs \<Longrightarrow> task_next s' = task_next s \<Longrightarrow> (\<And>t. t < MAX_TASKS \<Longrightarrow> live_task (tasks s' t) = live_task (tasks s t)) \<Longrightarrow> ring s' xs"
  by (auto simp: ring_def)

text \<open>What runs on a CPU: no task runs on two.\<close>

lemma running:
  assumes i: "sched_inv s" and c: "c < SCHED_MAX_CPUS" and t: "t = cpu_task s c"
  shows "t < MAX_TASKS" "tk_name (tasks s t) \<noteq> None" "current_cpu (tasks s t) = c" "\<not> on_rq (tasks s t)"
    "t < 4 \<Longrightarrow> t = c" "tk_state (tasks s t) \<noteq> READY" "tk_state (tasks s t) \<noteq> REAPING"
    "4 \<le> tk_id (tasks s t) \<longleftrightarrow> 4 \<le> t" "\<And>d. d < SCHED_MAX_CPUS \<Longrightarrow> cpu_task s d = t \<Longrightarrow> d = c"
proof -
  have w: "cpu_wf s c" using sched_invD(4) [OF i c] .
  then show 1: "t < MAX_TASKS" "tk_name (tasks s t) \<noteq> None" "current_cpu (tasks s t) = c" by (auto simp: cpu_wf_def t)
  have "task_wf (cpu_task s) t (tasks s t)" using sched_invD(3) [OF i 1(1)] .
  with 1 c show "\<not> on_rq (tasks s t)" "t < 4 \<Longrightarrow> t = c" "tk_state (tasks s t) \<noteq> READY" "tk_state (tasks s t) \<noteq> REAPING"
    "4 \<le> tk_id (tasks s t) \<longleftrightarrow> 4 \<le> t"
    by (auto simp: task_wf_def split: if_splits)
  show "d = c" if "d < SCHED_MAX_CPUS" "cpu_task s d = t" for d
    using sched_invD(4) [OF i that(1)] that(2) 1(3) by (simp add: cpu_wf_def)
qed

lemma sched_inv_upd:
  assumes i: "sched_inv s" and s': "tasks s' = (tasks s)(t := k)" "cpu_task s' = cpu_task s" "task_next s' = task_next s"
    "rq_next s' = rq_next s" "next_enqueue_cpu s' = next_enqueue_cpu s"
    "\<And>c. rq_head (run_queues s' c) = rq_head (run_queues s c) \<and> rq_tail (run_queues s' c) = rq_tail (run_queues s c) \<and>
       nr_running (run_queues s' c) = nr_running (run_queues s c)"
    and k: "on_rq k = on_rq (tasks s t)" "rq_cpu k = rq_cpu (tasks s t)" "tk_id k = tk_id (tasks s t)"
    "live_task k = live_task (tasks s t)" "current_cpu k = current_cpu (tasks s t)" "tk_name k = tk_name (tasks s t)"
    and wf: "t < MAX_TASKS \<Longrightarrow> task_wf (cpu_task s) t (tasks s t) \<Longrightarrow> task_wf (cpu_task s) t k"
  shows "sched_inv s'"
proof -
  obtain Q where q: "rqs s Q" using sched_invD(1) [OF i] by blast
  obtain xs where r: "ring s xs" using sched_invD(2) [OF i] by blast
  have "rqs s' Q" by (rule rqs_cong [OF q s'(4,5) _ s'(6)]) (simp add: s'(1) k)
  moreover have "ring s' xs" by (rule ring_cong [OF r s'(3)]) (simp add: s'(1) k)
  moreover have "task_wf (cpu_task s') u (tasks s' u)" if "u < MAX_TASKS" for u
    using sched_invD(3) [OF i that] wf that by (auto simp: s'(1,2))
  moreover have "cpu_wf s' c" if "c < SCHED_MAX_CPUS" for c
    using sched_invD(4) [OF i that] by (auto simp: cpu_wf_def s'(1,2) k)
  ultimately show ?thesis by (auto simp: sched_inv_def)
qed

text \<open>Updating fields that the queues do not look at.\<close>

lemma inv_upd_task:
  assumes i: "sched_inv s" and k: "k = f (tasks s t)"
    "on_rq k = on_rq (tasks s t)" "rq_cpu k = rq_cpu (tasks s t)" "tk_id k = tk_id (tasks s t)"
    "current_cpu k = current_cpu (tasks s t)" "tk_name k = tk_name (tasks s t)"
    and live: "live_task k = live_task (tasks s t)"
    and wf: "t < MAX_TASKS \<Longrightarrow> task_wf (cpu_task s) t (tasks s t) \<Longrightarrow> task_wf (cpu_task s) t k"
  shows "sched_inv (upd_task t f s)"
  by (rule sched_inv_upd [OF i, of _ t k]) (use k live wf in simp_all)

lemma inv_upd_rq:
  assumes "sched_inv s" "\<And>rq. rq_head (f rq) = rq_head rq \<and> rq_tail (f rq) = rq_tail rq \<and> nr_running (f rq) = nr_running rq"
  shows "sched_inv (upd_rq c f s)"
  by (rule sched_inv_upd [OF assms(1), of _ 0 "tasks s 0"]) (use assms(2) in simp_all)

lemma inv_ipi: "sched_inv s \<Longrightarrow> sched_inv (gic_send_ipi m s)"
  by (rule sched_inv_upd [of s _ 0 "tasks s 0"]) simp_all

text \<open>Fields that no part of the invariant reads.\<close>

lemma inv_upd_other:
  assumes "sched_inv s" "\<And>k. tk_state (f k) = tk_state k \<and> on_rq (f k) = on_rq k \<and> rq_cpu (f k) = rq_cpu k \<and> tk_id (f k) = tk_id k \<and>
    current_cpu (f k) = current_cpu k \<and> tk_name (f k) = tk_name k"
  shows "sched_inv (upd_task t f s)"
  by (rule inv_upd_task [OF assms(1) refl]) (use assms(2) in \<open>auto simp: live_task_def task_wf_def\<close>)

text \<open>The task that runs on a CPU, or a task off every CPU and queue, changes its state.\<close>

lemma inv_set_state:
  assumes i: "sched_inv s" and t: "4 \<le> t" "t < MAX_TASKS" "\<not> on_rq (tasks s t)" "tk_state (tasks s t) \<noteq> REAPING"
    and st: "st = BLOCKED \<or> st = DEAD \<or> st = ZOMBIE"
  shows "sched_inv (upd_task t (\<lambda>k. k\<lparr>tk_state := st\<rparr>) s)"
  by (rule inv_upd_task [OF i refl]) (use t st in \<open>auto simp: live_task_def task_wf_def split: if_splits\<close>)

lemma park_inv:
  assumes i: "sched_inv s" and c: "c < SCHED_MAX_CPUS"
  shows "sched_inv (snd (sched_park_task (Some (cpu_task s c)) s))"
proof -
  let ?t = "cpu_task s c"
  note r = running [OF i c refl]
  have "sched_inv (upd_task ?t (\<lambda>k. k\<lparr>tk_state := BLOCKED\<rparr>) s)" if "4 \<le> tk_id (tasks s ?t)"
    by (rule inv_set_state [OF i]) (use r that in auto)
  moreover have "sched_inv (upd_task ?t (\<lambda>k. k\<lparr>wake_pending := False\<rparr>) s)"
    by (rule inv_upd_other [OF i]) simp
  ultimately show ?thesis using i by (simp add: sched_park_task_def)
qed

lemma sched_invI:
  assumes i: "sched_inv s" and q: "rqs s' Q'" and n: "task_next s' = task_next s" "cpu_task s' = cpu_task s"
    and t: "tasks s' = (tasks s)(t := k)" and live: "live_task k = live_task (tasks s t)"
    and wf: "t < MAX_TASKS \<Longrightarrow> task_wf (cpu_task s) t (tasks s t) \<Longrightarrow> task_wf (cpu_task s) t k"
    and k: "current_cpu k = current_cpu (tasks s t)" "tk_name k = tk_name (tasks s t)"
  shows "sched_inv s'"
proof -
  obtain xs where r: "ring s xs" using sched_invD(2) [OF i] by blast
  have "ring s' xs" by (rule ring_cong [OF r n(1)]) (simp add: t live)
  moreover have "task_wf (cpu_task s') u (tasks s' u)" if "u < MAX_TASKS" for u
    using sched_invD(3) [OF i that] wf that by (auto simp: t n)
  moreover have "cpu_wf s' c" if "c < SCHED_MAX_CPUS" for c
    using sched_invD(4) [OF i that] by (auto simp: cpu_wf_def t n k)
  ultimately show ?thesis using q by (auto simp: sched_inv_def)
qed

lemma make_ready_inv:
  assumes i: "sched_inv s" and t: "t < MAX_TASKS" "tk_state (tasks s t) = BLOCKED" "current_cpu (tasks s t) = TASK_NO_CPU"
    "tk_name (tasks s t) \<noteq> None"
  shows "sched_inv (sched_make_ready_locked t s)"
proof -
  obtain Q where q: "rqs s Q" using sched_invD(1) [OF i] by blast
  have w: "task_wf (cpu_task s) t (tasks s t)" using sched_invD(3) [OF i t(1)] .
  then have t4: "4 \<le> t" "4 \<le> tk_id (tasks s t)" "\<not> on_rq (tasks s t)"
    using t by (auto simp: task_wf_def split: if_splits)
  obtain c Q' where r: "c < SCHED_MAX_CPUS" "rqs (sched_make_ready_locked t s) Q'"
    "sans_rq (sched_make_ready_locked t s) = sans_rq (upd_task t (\<lambda>t. t\<lparr>tk_state := READY\<rparr>) s)"
    "tasks (sched_make_ready_locked t s) = (tasks s)(t := (tasks s t)\<lparr>tk_state := READY, rq_cpu := c, on_rq := True\<rparr>)"
    by (rule make_ready_rqs [OF q t(1) t4(2,3)])
  note f = sans_rq_fields [OF r(3)]
  show ?thesis
    by (rule sched_invI [OF i r(2) _ _ r(4)]) (use t t4 w f(15,16) in \<open>auto simp: live_task_def task_wf_def\<close>)
qed

lemma remove_inv:
  assumes i: "sched_inv s" and t: "t < MAX_TASKS"
    and k: "k = f ((tasks s t)\<lparr>on_rq := False\<rparr>)" "current_cpu k = current_cpu (tasks s t)" "tk_name k = tk_name (tasks s t)"
    "live_task k = live_task (tasks s t)" "on_rq k = False" "tk_id k = tk_id (tasks s t)" "rq_cpu k = rq_cpu (tasks s t)"
    and wf: "task_wf (cpu_task s) t (tasks s t) \<Longrightarrow> task_wf (cpu_task s) t k"
  shows "\<exists>b s'. sched_rq_remove_locked t s = Some (b, s') \<and> sched_inv (upd_task t f s')"
proof -
  obtain Q where q: "rqs s Q" using sched_invD(1) [OF i] by blast
  obtain s' Q' where r: "sched_rq_remove_locked t s = Some (on_rq (tasks s t), s')" "rqs s' Q'" "sans_rq s' = sans_rq s"
    "tasks s' = (tasks s)(t := (tasks s t)\<lparr>on_rq := False\<rparr>)"
    by (rule remove_rqs [OF q])
  note f = sans_rq_fields [OF r(3)]
  have q': "rqs (upd_task t f s') Q'" by (rule rqs_cong [OF r(2)]) (use k in \<open>simp_all add: r(4)\<close>)
  have "sched_inv (upd_task t f s')"
    by (rule sched_invI [OF i q', of t k]) (use k wf f(15,16) in \<open>simp_all add: r(4)\<close>)
  with r(1) show ?thesis by blast
qed

lemma block_inv:
  assumes i: "sched_inv s" and t: "t < MAX_TASKS" "tk_name (tasks s t) \<noteq> None"
  shows "\<exists>s'. sched_block_task (Some t) s = Some s' \<and> sched_inv s'"
proof (cases "4 \<le> tk_id (tasks s t) \<and> \<not> finished (tk_state (tasks s t)) \<and> \<not> kill_pending (tasks s t)")
  case True
  have "\<exists>b s'. sched_rq_remove_locked t s = Some (b, s') \<and> sched_inv (upd_task t (\<lambda>t. t\<lparr>tk_state := BLOCKED\<rparr>) s')"
    by (rule remove_inv [OF i t(1) refl]) (use True in \<open>auto simp: live_task_def finished_def task_wf_def split: if_splits\<close>)
  with True show ?thesis by (auto simp: sched_block_task_def)
next
  case False
  with i show ?thesis by (auto simp: sched_block_task_def)
qed

lemma wake_inv:
  assumes i: "sched_inv s" and t: "t < MAX_TASKS" "tk_name (tasks s t) \<noteq> None"
    and off: "tk_state (tasks s t) = BLOCKED \<Longrightarrow> current_cpu (tasks s t) = TASK_NO_CPU"
  shows "sched_inv (sched_wake_task cpu (Some t) s)" "sched_inv (sched_unpark_task cpu (Some t) s)"
proof -
  have "sched_inv (gic_send_ipi m (sched_make_ready_locked t s))" if "tk_state (tasks s t) = BLOCKED" for m
    by (rule inv_ipi) (rule make_ready_inv [OF i t(1) that off [OF that] t(2)])
  moreover have "sched_inv (upd_task t (\<lambda>t. t\<lparr>wake_pending := True\<rparr>) s)" by (rule inv_upd_other [OF i]) simp
  ultimately show "sched_inv (sched_wake_task cpu (Some t) s)" "sched_inv (sched_unpark_task cpu (Some t) s)"
    using i by (simp_all add: sched_wake_task_def sched_unpark_task_def)
qed

lemma sleep_inv:
  assumes i: "sched_inv s" and c: "cpu < SCHED_MAX_CPUS" and ticks: "0 < ticks"
  shows "\<exists>r. sched_sleep_current cpu ticks s = Some r \<and> sched_inv (snd r)"
proof -
  let ?t = "cpu_task s cpu"
  note r = running [OF i c refl]
  define s1 where "s1 = upd_task ?t (\<lambda>t. t\<lparr>sleep_ticks := ticks\<rparr>) s"
  have i1: "sched_inv s1" unfolding s1_def by (rule inv_upd_other [OF i]) simp
  have "\<exists>b s'. sched_rq_remove_locked ?t s1 = Some (b, s') \<and> sched_inv (upd_task ?t (\<lambda>t. t\<lparr>tk_state := BLOCKED\<rparr>) s')"
    if "4 \<le> tk_id (tasks s ?t)" "\<not> finished (tk_state (tasks s ?t))"
    by (rule remove_inv [OF i1 r(1) refl])
      (use that in \<open>auto simp: s1_def live_task_def finished_def task_wf_def split: if_splits\<close>)
  then show ?thesis using ticks i
    by (fastforce simp: sched_sleep_current_def sched_current_def Let_def s1_def [symmetric] split: if_splits)
qed

lemma make_ready_tasks:
  assumes "sched_inv s" "t < MAX_TASKS" "tk_state (tasks s t) = BLOCKED" "current_cpu (tasks s t) = TASK_NO_CPU" "tk_name (tasks s t) \<noteq> None"
  shows "u \<noteq> t \<Longrightarrow> tasks (sched_make_ready_locked t s) u = tasks s u"
    "tk_name (tasks (sched_make_ready_locked t s) t) \<noteq> None" "tk_state (tasks (sched_make_ready_locked t s) t) = READY"
proof -
  obtain Q where q: "rqs s Q" using sched_invD(1) [OF assms(1)] by blast
  have "4 \<le> tk_id (tasks s t)" "\<not> on_rq (tasks s t)"
    using sched_invD(3) [OF assms(1,2)] assms by (auto simp: task_wf_def split: if_splits)
  then obtain c where "tasks (sched_make_ready_locked t s) = (tasks s)(t := (tasks s t)\<lparr>tk_state := READY, rq_cpu := c, on_rq := True\<rparr>)"
    by (rule make_ready_rqs [OF q assms(2)])
  then show "u \<noteq> t \<Longrightarrow> tasks (sched_make_ready_locked t s) u = tasks s u"
    "tk_name (tasks (sched_make_ready_locked t s) t) \<noteq> None" "tk_state (tasks (sched_make_ready_locked t s) t) = READY"
    using assms(5) by simp_all
qed

lemma tick_task_inv:
  assumes i: "sched_inv s" and t: "t < MAX_TASKS" "tk_name (tasks s t) \<noteq> None \<Longrightarrow> tk_state (tasks s t) = BLOCKED \<Longrightarrow> current_cpu (tasks s t) = TASK_NO_CPU"
  shows "sched_inv (snd (tick_task cpu t (m, s)))" "u \<noteq> t \<Longrightarrow> tasks (snd (tick_task cpu t (m, s))) u = tasks s u"
proof -
  define s1 where "s1 = upd_task t (\<lambda>t. t\<lparr>sleep_ticks := sleep_ticks t - 1\<rparr>) s"
  have i1: "sched_inv s1" unfolding s1_def by (rule inv_upd_other [OF i]) simp
  have "sched_inv (sched_make_ready_locked t s1)" "u \<noteq> t \<Longrightarrow> tasks (sched_make_ready_locked t s1) u = tasks s u"
    if "tk_name (tasks s t) \<noteq> None" "tk_state (tasks s t) = BLOCKED"
    using make_ready_inv [OF i1 t(1)] make_ready_tasks(1) [OF i1 t(1)] that t(2) by (simp_all add: s1_def)
  then show "sched_inv (snd (tick_task cpu t (m, s)))" "u \<noteq> t \<Longrightarrow> tasks (snd (tick_task cpu t (m, s))) u = tasks s u"
    using i i1 by (auto simp: tick_task_def Let_def s1_def [symmetric]) (auto simp: s1_def)
qed

lemma tick_fold_inv:
  "sched_inv s \<Longrightarrow> distinct ts \<Longrightarrow> set ts \<subseteq> {..<MAX_TASKS} \<Longrightarrow>
     (\<And>t. t \<in> set ts \<Longrightarrow> tk_name (tasks s t) \<noteq> None \<Longrightarrow> tk_state (tasks s t) = BLOCKED \<Longrightarrow> current_cpu (tasks s t) = TASK_NO_CPU) \<Longrightarrow>
     sched_inv (snd (fold (tick_task cpu) ts (m, s)))"
proof (induction ts arbitrary: m s)
  case (Cons t ts)
  obtain m1 s1 where r: "tick_task cpu t (m, s) = (m1, s1)" by (rule prod.exhaust)
  have t: "t < MAX_TASKS" using Cons.prems(3) by simp
  note i = tick_task_inv [OF Cons.prems(1) t Cons.prems(4) [of t, simplified], where cpu = cpu and m = m, unfolded r snd_conv]
  have "sched_inv (snd (fold (tick_task cpu) ts (m1, s1)))"
  proof (rule Cons.IH [OF i(1)])
    fix u assume u: "u \<in> set ts" "tk_name (tasks s1 u) \<noteq> None" "tk_state (tasks s1 u) = BLOCKED"
    have "tasks s1 u = tasks s u" using u(1) Cons.prems(2) by (intro i(2)) auto
    with u Cons.prems(4) [of u] show "current_cpu (tasks s1 u) = TASK_NO_CPU" by simp
  qed (use Cons.prems in simp_all)
  then show ?case by (simp add: r)
qed simp

lemma tick_inv:
  assumes i: "sched_inv s" and st: "settled s"
  shows "sched_inv (sched_tick cpu s)"
proof -
  have f: "sched_inv (snd (fold (tick_task cpu) [0..<MAX_TASKS] (m, s)))" for m :: u32
    by (rule tick_fold_inv [OF i]) (use st in \<open>auto simp: settled_def\<close>)
  obtain m s1 where r: "(if cpu = 0 then fold (tick_task cpu) [0..<MAX_TASKS] (0, s) else (0, s)) = (m, s1)" by (rule prod.exhaust)
  have "sched_inv s1" using f [of 0] i r by (auto split: if_splits)
  then have "sched_inv (if cpu < SCHED_MAX_CPUS then upd_rq cpu (\<lambda>rq. rq\<lparr>need_resched := True\<rparr>) s1 else s1)"
    by (simp add: inv_upd_rq)
  then show ?thesis unfolding sched_tick_def r Let_def prod.case by (simp add: inv_ipi)
qed

text \<open>Exit: the children get a new parent, the task finishes and a blocked parent is woken.\<close>

lemma reparent_inv:
  "sched_inv s \<Longrightarrow> sched_inv (fold (\<lambda>i s. if P i s then upd_task i (\<lambda>t. t\<lparr>parent_id := p s\<rparr>) s else s) ts s)"
proof (induction ts arbitrary: s)
  case (Cons i ts)
  have "sched_inv (upd_task i (\<lambda>t. t\<lparr>parent_id := p s\<rparr>) s)" by (rule inv_upd_other [OF Cons.prems]) simp
  with Cons.prems show ?case by (auto intro: Cons.IH)
qed simp

lemma reparent_fields:
  "s' = fold (\<lambda>i s. if P i s then upd_task i (\<lambda>t. t\<lparr>parent_id := p s\<rparr>) s else s) ts s \<Longrightarrow>
     cpu_task s' = cpu_task s \<and> init_task_id s' = init_task_id s \<and> tk_name (tasks s' u) = tk_name (tasks s u) \<and>
     tk_state (tasks s' u) = tk_state (tasks s u) \<and> current_cpu (tasks s' u) = current_cpu (tasks s u) \<and>
     tk_id (tasks s' u) = tk_id (tasks s u) \<and> sleep_ticks (tasks s' u) = sleep_ticks (tasks s u)"
  by (induction ts arbitrary: s) auto

lemma exit_inv:
  assumes i: "sched_inv s" and c: "cpu < SCHED_MAX_CPUS" and t: "4 \<le> cpu_task s cpu" and st: "settled s"
  shows "sched_inv (task_exit_locked cpu s)"
proof -
  let ?me = "cpu_task s cpu"
  define s1 where "s1 = fold (\<lambda>i s. if tk_name (tasks s i) \<noteq> None \<and> parent_id (tasks s i) = tk_id (tasks s ?me) \<and> i \<noteq> ?me
    then upd_task i (\<lambda>t. t\<lparr>parent_id := init_task_id s\<rparr>) s else s) [0..<MAX_TASKS] s"
  define parent where "parent = find_from (\<lambda>i. tk_name (tasks s1 i) \<noteq> None \<and> tk_id (tasks s1 i) = parent_id (tasks s1 ?me)) 0 MAX_TASKS"
  define st' where "st' = (if parent = None \<or> tk_id (tasks s1 ?me) = init_task_id s1 then DEAD else ZOMBIE)"
  define s2 where "s2 = upd_task ?me (\<lambda>t. t\<lparr>tk_state := st'\<rparr>) s1"
  have i1: "sched_inv s1" unfolding s1_def by (rule reparent_inv [OF i])
  note f = reparent_fields [OF s1_def]
  have c1: "cpu_task s1 cpu = ?me" using f by simp
  note r = running [OF i1 c c1 [symmetric]]
  have i2: "sched_inv s2" unfolding s2_def
    by (rule inv_set_state [OF i1 t]) (use r in \<open>auto simp: st'_def\<close>)
  have e: "task_exit_locked cpu s = (case parent of None \<Rightarrow> s2
      | Some p \<Rightarrow> if tk_state (tasks s2 p) = BLOCKED then gic_send_ipi (other_cpus cpu) (sched_make_ready_locked p s2) else s2)"
    unfolding task_exit_locked_def Let_def s1_def [symmetric] parent_def [symmetric]
    unfolding s2_def st'_def by (simp only: upd_task_def)
  have "sched_inv (sched_make_ready_locked p s2)" if p: "parent = Some p" "tk_state (tasks s2 p) = BLOCKED" for p
  proof -
    from find_from_Some [OF p(1) [unfolded parent_def]] have p': "p < MAX_TASKS" "tk_name (tasks s1 p) \<noteq> None" by auto
    have ne: "p \<noteq> ?me" using p(2) by (auto simp: s2_def st'_def split: if_splits)
    with p' p(2) st f have "current_cpu (tasks s1 p) = TASK_NO_CPU" by (auto simp: settled_def s2_def)
    with ne p' p(2) show ?thesis by (intro make_ready_inv [OF i2]) (auto simp: s2_def)
  qed
  then show ?thesis unfolding e using i2 by (auto intro: inv_ipi split: option.split)
qed

lemma wait4_inv:
  assumes i: "sched_inv s" and c: "cpu < SCHED_MAX_CPUS" and t: "4 \<le> cpu_task s cpu"
  shows "sched_inv (snd (wait4_locked cpu pid s))"
proof -
  note r = running [OF i c refl]
  have "sched_inv (upd_task (cpu_task s cpu) (\<lambda>t. t\<lparr>tk_state := BLOCKED\<rparr>) s)"
    by (rule inv_set_state [OF i t]) (use r in auto)
  moreover have "sched_inv (upd_task j (\<lambda>t. t\<lparr>tk_state := DEAD\<rparr>) s)"
    if "find_from (\<lambda>i. is_child pid (cpu_task s cpu) s i \<and> tk_state (tasks s i) = ZOMBIE) 0 MAX_TASKS = Some j" for j
  proof -
    from find_from_Some [OF that] have j: "j < MAX_TASKS" "tk_state (tasks s j) = ZOMBIE" "tk_name (tasks s j) \<noteq> None"
      by (auto simp: is_child_def)
    with sched_invD(3) [OF i j(1)] show ?thesis
      by (intro inv_set_state [OF i]) (auto simp: task_wf_def split: if_splits)
  qed
  ultimately show ?thesis using i by (auto simp: wait4_locked_def Let_def sched_current_def split: option.split)
qed

lemma kill_inv:
  assumes i: "sched_inv s"
  shows "sched_inv (snd (sched_kill_task cpu tid s))"
proof -
  have "sched_inv (snd (sched_kill_task cpu tid s))"
    if f: "find_from (\<lambda>i. tk_name (tasks s i) \<noteq> None \<and> tk_id (tasks s i) = tid) 0 MAX_TASKS = Some j" for j
  proof -
    from find_from_Some [OF f] have j: "j < MAX_TASKS" "tk_name (tasks s j) \<noteq> None" by auto
    have p: "sched_inv (upd_task j (\<lambda>t. t\<lparr>kill_pending := True\<rparr>) s)" by (rule inv_upd_other [OF i]) simp
    have "sched_inv (upd_task j (\<lambda>t. t\<lparr>tk_state := DEAD, sleep_ticks := 0, wake_pending := False\<rparr>) s)"
      if "\<not> tk_id (tasks s j) < 4" "\<not> finished (tk_state (tasks s j))"
      by (rule inv_upd_task [OF i refl]) (use j that in \<open>auto simp: live_task_def finished_def task_wf_def split: if_splits\<close>)
    with p i f show ?thesis by (auto simp: sched_kill_task_def intro: inv_ipi)
  qed
  with i show ?thesis by (cases "find_from (\<lambda>i. tk_name (tasks s i) \<noteq> None \<and> tk_id (tasks s i) = tid) 0 MAX_TASKS")
    (auto simp: sched_kill_task_def)
qed

text \<open>
  The switch on CPU \<open>c\<close>, from a state in which only the task \<open>p\<close> that runs there has been put aside:
  \<open>n\<close> takes the CPU.
\<close>

lemma switch_inv:
  assumes i: "sched_inv s" and c: "c < SCHED_MAX_CPUS" and p: "p = cpu_task s c"
    and q: "rqs s' Q'" and n: "n < MAX_TASKS" "tk_name (tasks s' n) \<noteq> None" "tk_state (tasks s' n) = RUNNING"
      "current_cpu (tasks s' n) = c" "\<not> on_rq (tasks s' n)" "n < 4 \<Longrightarrow> n = c \<and> tk_id (tasks s' n) = n" "4 \<le> n \<Longrightarrow> 4 \<le> tk_id (tasks s' n)"
    and was: "n = p \<or> n = c \<or> on_rq (tasks s n)"
    and ct: "cpu_task s' = (cpu_task s)(c := n)" and nx: "task_next s' = task_next s"
    and live: "\<And>t. t < MAX_TASKS \<Longrightarrow> live_task (tasks s' t) = live_task (tasks s t)"
    and same: "\<And>t. t < MAX_TASKS \<Longrightarrow> t \<noteq> n \<Longrightarrow> tk_name (tasks s' t) = tk_name (tasks s t) \<and> tk_id (tasks s' t) = tk_id (tasks s t)"
    and keep: "\<And>t. t < MAX_TASKS \<Longrightarrow> t \<noteq> n \<Longrightarrow> t \<noteq> p \<Longrightarrow> tk_state (tasks s' t) = tk_state (tasks s t) \<and>
        current_cpu (tasks s' t) = current_cpu (tasks s t) \<and> (on_rq (tasks s' t) \<longrightarrow> on_rq (tasks s t)) \<and>
        (tk_state (tasks s t) = READY \<and> on_rq (tasks s t) \<longrightarrow> on_rq (tasks s' t))"
    and prev: "p \<noteq> n \<Longrightarrow> 4 \<le> p \<Longrightarrow> current_cpu (tasks s' p) = TASK_NO_CPU \<and> tk_state (tasks s' p) \<noteq> RUNNING \<and>
        tk_state (tasks s' p) \<noteq> REAPING \<and> (tk_state (tasks s' p) = READY \<longleftrightarrow> on_rq (tasks s' p))"
      "p \<noteq> n \<Longrightarrow> p < 4 \<Longrightarrow> current_cpu (tasks s' p) = p \<and> tk_state (tasks s' p) = RUNNING \<and> \<not> on_rq (tasks s' p)"
  shows "sched_inv s'"
proof -
  note r = running [OF i c p]
  obtain xs where xs: "ring s xs" using sched_invD(2) [OF i] by blast
  have "ring s' xs" by (rule ring_cong [OF xs nx live])
  moreover have "task_wf (cpu_task s') t (tasks s' t)" if t: "t < MAX_TASKS" for t
  proof -
    note w = sched_invD(3) [OF i t]
    consider "t = n" | "t \<noteq> n" "t = p" | "t \<noteq> n" "t \<noteq> p" by blast
    then show ?thesis
    proof cases
      case 1
      with n c ct show ?thesis by (auto simp: task_wf_def)
    next
      case 2
      with w r(2) prev same [OF t] ct show ?thesis by (cases "p < 4") (auto simp: task_wf_def)
    next
      case 3
      have "cpu_task s' (current_cpu (tasks s t)) = t"
        if "4 \<le> t" "tk_name (tasks s t) \<noteq> None" "current_cpu (tasks s t) \<noteq> TASK_NO_CPU"
        using that w 3 p ct by (auto simp: task_wf_def)
      with w 3 keep [OF t 3] same [OF t 3(1)] show ?thesis
        by (auto simp: task_wf_def split: if_splits)
    qed
  qed
  moreover have "cpu_wf s' d" if d: "d < SCHED_MAX_CPUS" for d
  proof (cases "d = c")
    case True
    with n ct show ?thesis by (simp add: cpu_wf_def)
  next
    case False
    note rd = running [OF i d refl]
    have "cpu_task s d \<noteq> p" using False r(9) [OF d] by blast
    moreover have "cpu_task s d \<noteq> n"
      using was False rd(3,4,5) \<open>cpu_task s d \<noteq> p\<close> c by auto
    ultimately show ?thesis using False rd keep [OF rd(1)] same [OF rd(1)] ct by (simp add: cpu_wf_def)
  qed
  ultimately show ?thesis using q by (auto simp: sched_inv_def)
qed

lemma schedule_parts:
  assumes "cpu < SCHED_MAX_CPUS"
  shows "schedule_locked cpu s = do {
    (picked, s4) \<leftarrow> sched_pick_next_locked cpu (put_aside cpu (cpu_task s cpu) (before_switch cpu s));
    Some (switch_to cpu (cpu_task s cpu) (case picked of None \<Rightarrow> cpu | Some t \<Rightarrow> t) s4) }"
proof -
  have ct: "cpu_task (sched_preempt_disable cpu s) = cpu_task s" by (simp add: sched_preempt_disable_def)
  show ?thesis using assms
    by (simp add: schedule_locked_def put_aside_def before_switch_def switch_to_def Let_def ct if_distrib [where f = Some] cong: if_cong)
qed

lemma before_switch_fields:
  assumes p: "p = cpu_task s cpu" and id: "4 \<le> tk_id (tasks s p) \<longleftrightarrow> 4 \<le> p" and s': "s' = before_switch cpu s"
  shows "cpu_task s' = cpu_task s" "task_next s' = task_next s" "t \<noteq> p \<Longrightarrow> tasks s' t = tasks s t"
    "tk_state (tasks s' p) = (if 4 \<le> p \<and> kill_pending (tasks s p) then DEAD else tk_state (tasks s p))"
    "\<And>Q. rqs s Q \<Longrightarrow> rqs s' Q" "tk_id (tasks s' p) = tk_id (tasks s p)" "on_rq (tasks s' p) = on_rq (tasks s p)"
    "current_cpu (tasks s' p) = current_cpu (tasks s p)"
proof -
  define s1 where "s1 = sched_preempt_disable cpu s"
  define s2 where "s2 = (if 4 \<le> tk_id (tasks s1 p) \<and> kill_pending (tasks s1 p)
    then upd_task p (\<lambda>t. t\<lparr>kill_pending := False, tk_state := DEAD\<rparr>) s1 else s1)"
  have f1: "cpu_task s1 = cpu_task s" "task_next s1 = task_next s" by (simp_all add: s1_def sched_preempt_disable_def)
  have e: "s' = upd_rq cpu (\<lambda>rq. rq\<lparr>need_resched := False\<rparr>) s2"
    by (simp add: s' before_switch_def Let_def s1_def [symmetric] f1 p [symmetric] s2_def)
  show "cpu_task s' = cpu_task s" "task_next s' = task_next s" "t \<noteq> p \<Longrightarrow> tasks s' t = tasks s t"
    "tk_state (tasks s' p) = (if 4 \<le> p \<and> kill_pending (tasks s p) then DEAD else tk_state (tasks s p))"
    "tk_id (tasks s' p) = tk_id (tasks s p)" "on_rq (tasks s' p) = on_rq (tasks s p)"
    "current_cpu (tasks s' p) = current_cpu (tasks s p)"
    using id by (simp_all add: e s2_def f1) (auto simp: s1_def sched_preempt_disable_def sched_current_def p)
  show "rqs s' Q" if "rqs s Q" for Q
    by (rule rqs_cong [OF that]) (simp_all add: e s2_def s1_def sched_preempt_disable_def)
qed

lemma before_switch_inv:
  assumes i: "sched_inv s" and c: "cpu < SCHED_MAX_CPUS"
  shows "sched_inv (before_switch cpu s)"
proof -
  define s1 where "s1 = sched_preempt_disable cpu s"
  define s2 where "s2 = (if 4 \<le> tk_id (tasks s1 (cpu_task s1 cpu)) \<and> kill_pending (tasks s1 (cpu_task s1 cpu))
    then upd_task (cpu_task s1 cpu) (\<lambda>t. t\<lparr>kill_pending := False, tk_state := DEAD\<rparr>) s1 else s1)"
  have e: "before_switch cpu s = upd_rq cpu (\<lambda>rq. rq\<lparr>need_resched := False\<rparr>) s2"
    by (simp add: before_switch_def Let_def s1_def s2_def)
  have i1: "sched_inv s1" unfolding s1_def sched_preempt_disable_def by (rule inv_upd_other [OF i]) simp
  note r1 = running [OF i1 c refl]
  have "sched_inv (upd_task (cpu_task s1 cpu) (\<lambda>t. t\<lparr>kill_pending := False, tk_state := DEAD\<rparr>) s1)"
    if "4 \<le> tk_id (tasks s1 (cpu_task s1 cpu))"
    by (rule inv_upd_task [OF i1 refl]) (use that r1 in \<open>auto simp: live_task_def task_wf_def split: if_splits\<close>)
  with i1 have "sched_inv s2" by (simp add: s2_def)
  then show "sched_inv (before_switch cpu s)" unfolding e by (rule inv_upd_rq) simp
qed

lemma put_aside_spec:
  assumes r: "p < MAX_TASKS" "\<not> on_rq (tasks s p)" "4 \<le> tk_id (tasks s p) \<longleftrightarrow> 4 \<le> p" "current_cpu (tasks s p) = c"
    and q: "rqs s Q" and c: "c < SCHED_MAX_CPUS" and s': "s' = put_aside c p s"
    and Q': "Q' = (if 4 \<le> p \<and> tk_state (tasks s p) = RUNNING then Q(c := Q c @ [p]) else Q)"
  shows "rqs s' Q'" "cpu_task s' = cpu_task s" "task_next s' = task_next s" "\<And>t. t \<noteq> p \<Longrightarrow> tasks s' t = tasks s t"
    "tk_name (tasks s' p) = tk_name (tasks s p)" "tk_id (tasks s' p) = tk_id (tasks s p)"
    "current_cpu (tasks s' p) = (if 4 \<le> p then TASK_NO_CPU else c)"
    "tk_state (tasks s' p) = (if 4 \<le> p \<and> tk_state (tasks s p) = RUNNING then READY else tk_state (tasks s p))"
    "on_rq (tasks s' p) \<longleftrightarrow> 4 \<le> p \<and> tk_state (tasks s p) = RUNNING"
proof -
  define s1 where "s1 = upd_task p (\<lambda>t. t\<lparr>tk_state := READY\<rparr>) s"
  define s2 where "s2 = sched_rq_enqueue_locked p c s1"
  have q1: "rqs s1 Q" by (rule rqs_cong [OF q]) (simp_all add: s1_def)
  have all: "rqs s' Q' \<and> cpu_task s' = cpu_task s \<and> task_next s' = task_next s \<and> (\<forall>t. t \<noteq> p \<longrightarrow> tasks s' t = tasks s t) \<and>
    tk_name (tasks s' p) = tk_name (tasks s p) \<and> tk_id (tasks s' p) = tk_id (tasks s p) \<and>
    current_cpu (tasks s' p) = (if 4 \<le> p then TASK_NO_CPU else c) \<and>
    tk_state (tasks s' p) = (if 4 \<le> p \<and> tk_state (tasks s p) = RUNNING then READY else tk_state (tasks s p)) \<and>
    (on_rq (tasks s' p) \<longleftrightarrow> 4 \<le> p \<and> tk_state (tasks s p) = RUNNING)"
  proof (cases "4 \<le> p \<and> tk_state (tasks s p) = RUNNING")
    case True
    have e: "s' = upd_task p (\<lambda>t. t\<lparr>current_cpu := TASK_NO_CPU\<rparr>) s2" using True r(3) by (simp add: s' put_aside_def s2_def s1_def)
    have "4 \<le> tk_id (tasks s1 p)" "\<not> on_rq (tasks s1 p)" using True r(2,3) by (simp_all add: s1_def)
    note en = enqueue_rqs [OF q1 r(1) this c s2_def]
    note f = sans_rq_fields [OF en(2)]
    have "rqs s' (Q(c := Q c @ [p]))" by (rule rqs_cong [OF en(1)]) (simp_all add: e)
    with True show ?thesis by (simp add: e en(3) f(15,16) Q') (simp add: s1_def)
  next
    case False
    then have e: "s' = (if 4 \<le> p then upd_task p (\<lambda>t. t\<lparr>current_cpu := TASK_NO_CPU\<rparr>) s else s)"
      using r(3) by (auto simp: s' put_aside_def)
    have "rqs s' Q" by (rule rqs_cong [OF q]) (simp_all add: e)
    with False r(2,4) show ?thesis by (simp add: e Q')
  qed
  then show "rqs s' Q'" "cpu_task s' = cpu_task s" "task_next s' = task_next s" "\<And>t. t \<noteq> p \<Longrightarrow> tasks s' t = tasks s t"
    "tk_name (tasks s' p) = tk_name (tasks s p)" "tk_id (tasks s' p) = tk_id (tasks s p)"
    "current_cpu (tasks s' p) = (if 4 \<le> p then TASK_NO_CPU else c)"
    "tk_state (tasks s' p) = (if 4 \<le> p \<and> tk_state (tasks s p) = RUNNING then READY else tk_state (tasks s p))"
    "on_rq (tasks s' p) \<longleftrightarrow> 4 \<le> p \<and> tk_state (tasks s p) = RUNNING"
    by simp_all
qed

lemma switch_to_fields:
  assumes "switch_to c p n s = (r, s')"
  shows "cpu_task s' = (if n = p then cpu_task s else (cpu_task s)(c := n))" "task_next s' = task_next s"
    "tk_state (tasks s' t) = (if t = n then RUNNING else tk_state (tasks s t))"
    "current_cpu (tasks s' t) = (if t = n then c else current_cpu (tasks s t))"
    "tk_name (tasks s' t) = tk_name (tasks s t)" "tk_id (tasks s' t) = tk_id (tasks s t)" "on_rq (tasks s' t) = on_rq (tasks s t)"
    "kill_pending (tasks s' t) = kill_pending (tasks s t)"
    "rqs s Q \<Longrightarrow> rqs s' Q" "r = (if n = p then None else Some n)"
proof -
  have s': "s' = snd (switch_to c p n s)" "r = fst (switch_to c p n s)" using assms by simp_all
  show "cpu_task s' = (if n = p then cpu_task s else (cpu_task s)(c := n))" "task_next s' = task_next s"
    "tk_state (tasks s' t) = (if t = n then RUNNING else tk_state (tasks s t))"
    "current_cpu (tasks s' t) = (if t = n then c else current_cpu (tasks s t))"
    "tk_name (tasks s' t) = tk_name (tasks s t)" "tk_id (tasks s' t) = tk_id (tasks s t)" "on_rq (tasks s' t) = on_rq (tasks s t)"
    "kill_pending (tasks s' t) = kill_pending (tasks s t)" "r = (if n = p then None else Some n)"
    by (auto simp: s' switch_to_def switch_context_def sched_preempt_enable_def Let_def)
  show "rqs s' Q" if "rqs s Q"
    by (rule rqs_cong [OF that]) (auto simp: s' switch_to_def switch_context_def sched_preempt_enable_def Let_def)
qed

text \<open>The choice of \<open>schedule\<close> depends only on the queues and on the task running on the CPU itself.\<close>

lemma schedule_choice:
  assumes q: "rqs s Q" and c: "c < SCHED_MAX_CPUS" and p: "p = cpu_task s c"
    and r: "p < MAX_TASKS" "\<not> on_rq (tasks s p)" "4 \<le> tk_id (tasks s p) \<longleftrightarrow> 4 \<le> p" "current_cpu (tasks s p) = c" "tk_state (tasks s p) \<noteq> READY"
    and Q1: "Q1 = (if stays s p then Q(c := Q c @ [p]) else Q)"
  shows "\<exists>r s' n. schedule_locked c s = Some (r, s') \<and> next_choice c s p Q1 n \<and> cpu_task s' = (cpu_task s)(c := n)"
proof -
  define s2 where "s2 = before_switch c s"
  define s3 where "s3 = put_aside c p s2"
  note b = before_switch_fields [OF p r(3) s2_def]
  have st: "4 \<le> p \<and> tk_state (tasks s2 p) = RUNNING \<longleftrightarrow> stays s p" using b(4) by (auto simp: stays_def)
  have r2: "\<not> on_rq (tasks s2 p)" "4 \<le> tk_id (tasks s2 p) \<longleftrightarrow> 4 \<le> p" "current_cpu (tasks s2 p) = c" using b r by simp_all
  note pa = put_aside_spec [OF r(1) r2 b(5) [OF q] c s3_def, of Q1, unfolded b(1) st, OF Q1]
  have run: "tk_state (tasks s3 t) = READY \<longleftrightarrow> runnable s p t" for t
    using pa(4,8) b(3,4) r(5) st by (cases "t = p") (auto simp: runnable_def stays_def)
  from pick_next_rqs [OF pa(1) c] obtain t s4 Q' where
    pk: "sched_pick_next_locked c s3 = Some (t, s4)" "sans_rq s4 = sans_rq s3"
    "case find (\<lambda>v. tk_state (tasks s3 v) = READY) (Q1 c) of
       Some v \<Rightarrow> t = Some v \<and> Q' = Q1(c := tl (dropWhile (\<lambda>v. tk_state (tasks s3 v) \<noteq> READY) (Q1 c)))
     | None \<Rightarrow> \<exists>d < SCHED_MAX_CPUS. (\<forall>e < SCHED_MAX_CPUS. e \<noteq> c \<longrightarrow> length (Q1 e) \<le> length (Q1 d)) \<and>
         t = find (\<lambda>v. tk_state (tasks s3 v) = READY) (Q1 d)"
    by (elim exE conjE)
  define n where "n = (case t of None \<Rightarrow> c | Some t \<Rightarrow> t)"
  obtain rr s' where sw: "switch_to c p n s4 = (rr, s')" by (rule prod.exhaust)
  have "schedule_locked c s = Some (rr, s')"
    unfolding schedule_parts [OF c] p [symmetric] s2_def [symmetric] s3_def [symmetric] by (simp add: pk(1) n_def [symmetric] sw)
  moreover have "next_choice c s p Q1 n" using pk(3) unfolding run next_choice_def n_def by (auto split: option.splits)
  moreover have "cpu_task s' = (cpu_task s)(c := n)" using switch_to_fields(1) [OF sw] sans_rq_fields(15) [OF pk(2)] pa(2) p by auto
  ultimately show ?thesis by blast
qed

lemma schedule_spec:
  assumes i: "sched_inv s" and q: "rqs s Q" and c: "c < SCHED_MAX_CPUS" and p: "p = cpu_task s c"
    and Q1: "Q1 = (if stays s p then Q(c := Q c @ [p]) else Q)"
  shows "\<exists>r s' Q' n. schedule_locked c s = Some (r, s') \<and> sched_inv s' \<and> rqs s' Q' \<and> next_choice c s p Q1 n \<and>
    r = (if n = p then None else Some n) \<and> cpu_task s' = (cpu_task s)(c := n) \<and>
    (\<forall>v. find (runnable s p) (Q1 c) = Some v \<longrightarrow> Q' = Q1(c := tl (dropWhile (\<lambda>v. \<not> runnable s p v) (Q1 c)))) \<and>
    (\<forall>t. t \<noteq> n \<longrightarrow> t \<noteq> p \<longrightarrow> tk_state (tasks s' t) = tk_state (tasks s t) \<and> kill_pending (tasks s' t) = kill_pending (tasks s t)) \<and>
    tk_state (tasks s' n) = RUNNING \<and>
    (n \<noteq> p \<longrightarrow> 4 \<le> p \<longrightarrow> current_cpu (tasks s' p) = TASK_NO_CPU \<and>
       tk_state (tasks s' p) = (if stays s p then READY else if kill_pending (tasks s p) then DEAD else tk_state (tasks s p)))"
proof -
  define s2 where "s2 = before_switch c s"
  define s3 where "s3 = put_aside c p s2"
  note r = running [OF i c p]
  note b = before_switch_inv [OF i c, folded s2_def] before_switch_fields [OF p r(8) s2_def]
  note r2 = running [OF b(1) c, of p, unfolded b(2), OF p]
  have st: "4 \<le> p \<and> tk_state (tasks s2 p) = RUNNING \<longleftrightarrow> stays s p" using b(5) by (auto simp: stays_def)
  note pa = put_aside_spec [OF r2(1,4,8,3) b(6) [OF q] c s3_def, of Q1, unfolded b(2) st, OF Q1]
  have run: "tk_state (tasks s3 t) = READY \<longleftrightarrow> runnable s p t" for t
    using pa(4,8) b(4,5) r(6) st by (cases "t = p") (auto simp: runnable_def stays_def)
  from pick_next_rqs [OF pa(1) c] obtain t s4 Q' where
    pk: "sched_pick_next_locked c s3 = Some (t, s4)" "rqs s4 Q'" "sans_rq s4 = sans_rq s3"
    "\<forall>u. on_rq (tasks s4 u) \<longrightarrow> on_rq (tasks s3 u)"
    "\<forall>u. tk_state (tasks s3 u) = READY \<longrightarrow> on_rq (tasks s3 u) \<longrightarrow> on_rq (tasks s4 u) \<or> t = Some u"
    "\<forall>u. t = Some u \<longrightarrow> on_rq (tasks s3 u) \<and> \<not> on_rq (tasks s4 u) \<and> tk_state (tasks s3 u) = READY"
    "case find (\<lambda>v. tk_state (tasks s3 v) = READY) (Q1 c) of
       Some v \<Rightarrow> t = Some v \<and> Q' = Q1(c := tl (dropWhile (\<lambda>v. tk_state (tasks s3 v) \<noteq> READY) (Q1 c)))
     | None \<Rightarrow> \<exists>d < SCHED_MAX_CPUS. (\<forall>e < SCHED_MAX_CPUS. e \<noteq> c \<longrightarrow> length (Q1 e) \<le> length (Q1 d)) \<and>
         t = find (\<lambda>v. tk_state (tasks s3 v) = READY) (Q1 d)"
    by (elim exE conjE)
  note f4 = sans_rq_fields [OF pk(3)]
  define n where "n = (case t of None \<Rightarrow> c | Some t \<Rightarrow> t)"
  obtain rr s' where sw: "switch_to c p n s4 = (rr, s')" by (rule prod.exhaust)
  note sf = switch_to_fields [OF sw]
  have e: "schedule_locked c s = Some (rr, s')"
    unfolding schedule_parts [OF c] p [symmetric] s2_def [symmetric] s3_def [symmetric] by (simp add: pk(1) n_def [symmetric] sw)
  have nt: "(t = Some n \<and> on_rq (tasks s3 n) \<and> \<not> on_rq (tasks s4 n)) \<or> (t = None \<and> n = c)"
    using pk(6) by (cases t) (auto simp: n_def)
  have ch: "next_choice c s p Q1 n" "find (runnable s p) (Q1 c) = Some v \<Longrightarrow> Q' = Q1(c := tl (dropWhile (\<lambda>v. \<not> runnable s p v) (Q1 c)))" for v
    using pk(7) unfolding run next_choice_def n_def by (auto split: option.splits)
  have p2: "p = cpu_task s2 c" using b(2) p by simp
  have nq: "t = Some n \<Longrightarrow> n < MAX_TASKS \<and> 4 \<le> tk_id (tasks s2 n) \<and> tk_name (tasks s2 n) \<noteq> None \<and> 4 \<le> n \<and> (n = p \<or> on_rq (tasks s2 n))"
  proof -
    assume "t = Some n"
    then have on: "on_rq (tasks s3 n)" "tk_state (tasks s3 n) = READY" using pk(6) by auto
    with rqs_queued(1,2) [OF pa(1)] have m: "n < MAX_TASKS" "4 \<le> tk_id (tasks s3 n)" by blast+
    have "4 \<le> tk_id (tasks s2 n)" "n = p \<or> on_rq (tasks s2 n)" using m(2) on(1) pa(4,6) by (cases "n = p"; simp)+
    moreover have "tk_name (tasks s2 n) \<noteq> None \<and> 4 \<le> n"
      using sched_invD(3) [OF b(1) m(1)] r2(2,8) on(1) pa(4) calculation by (cases "n = p") (auto simp: task_wf_def split: if_splits)
    ultimately show ?thesis using m(1) by blast
  qed
  have ni: "tk_name (tasks s2 c) \<noteq> None \<and> tk_id (tasks s2 c) = c \<and> \<not> on_rq (tasks s2 c)"
    using sched_invD(3) [OF b(1), of c] c by (auto simp: task_wf_def)
  have n4: "\<not> on_rq (tasks s4 c)"
  proof
    assume "on_rq (tasks s4 c)"
    with pk(4) have "on_rq (tasks s3 c)" by blast
    with ni pa(4,9) st c show False by (cases "c = p") (auto simp: stays_def)
  qed
  have nr: "n = p \<or> tk_state (tasks s2 n) \<noteq> REAPING"
    using nt nq sched_invD(3) [OF b(1), of n] c by (auto simp: task_wf_def split: if_splits)
  have fs: "tk_name (tasks s4 u) = tk_name (tasks s2 u)" "tk_id (tasks s4 u) = tk_id (tasks s2 u)" for u
    using f4 pa by (cases "u = p"; simp)+
  have i': "sched_inv s'"
  proof (rule switch_inv [OF b(1) c p2 sf(9) [OF pk(2)]])
    show "n < MAX_TASKS" "tk_name (tasks s' n) \<noteq> None" "tk_state (tasks s' n) = RUNNING" "current_cpu (tasks s' n) = c"
      "\<not> on_rq (tasks s' n)" "n < 4 \<Longrightarrow> n = c \<and> tk_id (tasks s' n) = n" "4 \<le> n \<Longrightarrow> 4 \<le> tk_id (tasks s' n)"
      "n = p \<or> n = c \<or> on_rq (tasks s2 n)"
      using nt nq ni n4 sf fs c by auto
    show "cpu_task s' = (cpu_task s2)(c := n)" using sf(1) f4(15) pa(2) b(2) p by auto
    show "task_next s' = task_next s2" using sf(2) f4(16) pa(3) b(3) by simp
    show "live_task (tasks s' u) = live_task (tasks s2 u)" if "u < MAX_TASKS" for u
      using sf fs nr f4(1) pa(4,8) r2(7) by (cases "u = n"; cases "u = p") (auto simp: live_task_def)
    show "tk_name (tasks s' u) = tk_name (tasks s2 u) \<and> tk_id (tasks s' u) = tk_id (tasks s2 u)" for u using sf fs by simp
    show "tk_state (tasks s' u) = tk_state (tasks s2 u) \<and> current_cpu (tasks s' u) = current_cpu (tasks s2 u) \<and>
        (on_rq (tasks s' u) \<longrightarrow> on_rq (tasks s2 u)) \<and> (tk_state (tasks s2 u) = READY \<and> on_rq (tasks s2 u) \<longrightarrow> on_rq (tasks s' u))"
      if "u \<noteq> n" "u \<noteq> p" for u
    proof -
      have "t \<noteq> Some u" using nt that(1) by auto
      with that pa(4) [OF that(2)] sf(3,4,7) f4(1,4) pk(4) [rule_format, of u] pk(5) [rule_format, of u] show ?thesis by auto
    qed
    show "current_cpu (tasks s' p) = TASK_NO_CPU \<and> tk_state (tasks s' p) \<noteq> RUNNING \<and>
        tk_state (tasks s' p) \<noteq> REAPING \<and> (tk_state (tasks s' p) = READY \<longleftrightarrow> on_rq (tasks s' p))" if "p \<noteq> n" "4 \<le> p"
    proof -
      have "t \<noteq> Some p" using nt that(1) by auto
      with that sf(3,4,7) f4(1,4) pa(7,8,9) pk(4) [rule_format, of p] pk(5) [rule_format, of p] st r2(6,7) show ?thesis by auto
    qed
    show "current_cpu (tasks s' p) = p \<and> tk_state (tasks s' p) = RUNNING \<and> \<not> on_rq (tasks s' p)" if "p \<noteq> n" "p < 4"
      using that sf f4 pa(7,8,9) pk(4) st r2(3,5) sched_invD(3) [OF b(1) r2(1)] by (auto simp: task_wf_def)
  qed
  show ?thesis
    by (intro exI [of _ rr] exI [of _ s'] exI [of _ Q'] exI [of _ n] conjI e i' sf(9) pk(2) ch(1) sf(10) allI impI ch(2))
      (use sf f4 pa b p in auto)
qed

lemma find_dead_seg:
  "seg (task_next s) t xs (Some 0) \<Longrightarrow> 0 \<notin> set xs \<Longrightarrow>
     (\<forall>v \<in> set xs. \<not> dead_task (tasks s v)) \<and> find_dead s p t = Some None \<or>
     (\<exists>as q v bs. p # xs = as @ q # v # bs \<and> dead_task (tasks s v) \<and> find_dead s p t = Some (Some (q, v)))"
proof (induction xs arbitrary: p t)
  case Nil
  then show ?case by (simp add: find_dead.simps)
next
  case (Cons x xs)
  show ?case
  proof (cases "dead_task (tasks s x)")
    case True
    with Cons.prems have "find_dead s p t = Some (Some (p, x))" by (simp add: find_dead.simps dead_task_def)
    with True show ?thesis by (intro disjI2 exI [of _ "[]"] exI [of _ p] exI [of _ x] exI [of _ xs]) simp
  next
    case False
    then have e: "find_dead s p t = find_dead s x (task_next s x)"
      using Cons.prems by (subst find_dead.simps) (auto simp: dead_task_def)
    have "(\<forall>v \<in> set xs. \<not> dead_task (tasks s v)) \<and> find_dead s x (task_next s x) = Some None \<or>
      (\<exists>as q v bs. x # xs = as @ q # v # bs \<and> dead_task (tasks s v) \<and> find_dead s x (task_next s x) = Some (Some (q, v)))"
      by (rule Cons.IH) (use Cons.prems in auto)
    then show ?thesis
    proof (elim disjE exE conjE)
      fix as q v bs assume "x # xs = as @ q # v # bs" "dead_task (tasks s v)" "find_dead s x (task_next s x) = Some (Some (q, v))"
      then show ?thesis unfolding e by (intro disjI2 exI [of _ "p # as"] exI [of _ q] exI [of _ v] exI [of _ bs]) simp
    qed (use False e in simp)
  qed
qed

lemma ring_whole: "ring s xs \<longleftrightarrow> seg (task_next s) (Some 0) (0 # xs) (Some 0) \<and> distinct (0 # xs) \<and>
     set xs = {t. 0 < t \<and> t < MAX_TASKS \<and> live_task (tasks s t)}"
  by (simp add: ring_def)

lemma sched_inv_intro:
  "rqs s Q \<Longrightarrow> ring s xs \<Longrightarrow> (\<And>t. t < MAX_TASKS \<Longrightarrow> task_wf (cpu_task s) t (tasks s t)) \<Longrightarrow>
     (\<And>c. c < SCHED_MAX_CPUS \<Longrightarrow> cpu_wf s c) \<Longrightarrow> sched_inv s"
  unfolding sched_inv_def by blast

text \<open>The reaper detaches a dead task when there is one.\<close>

lemma reap_detach_inv:
  assumes i: "sched_inv s"
  shows "(\<forall>v < MAX_TASKS. tk_name (tasks s v) \<noteq> None \<longrightarrow> \<not> dead_task (tasks s v)) \<and> reap_detach_locked s = Some (None, s) \<or>
    (\<exists>v s'. reap_detach_locked s = Some (Some (v, stack_base (tasks s v), tk_process (tasks s v)), s') \<and> sched_inv s' \<and>
      4 \<le> v \<and> v < MAX_TASKS \<and> tk_name (tasks s v) \<noteq> None \<and> dead_task (tasks s v) \<and> cpu_task s' = cpu_task s \<and>
      tasks s' = (tasks s)(v := (tasks s v)\<lparr>on_rq := False, tk_state := REAPING, stack_base := 0, tk_process := None, tk_mm := None\<rparr>))"
proof -
  obtain Q where q: "rqs s Q" using sched_invD(1) [OF i] by blast
  obtain xs where r: "ring s xs" using sched_invD(2) [OF i] by blast
  then have g: "seg (task_next s) (task_next s 0) xs (Some 0)" "0 \<notin> set xs" by (simp_all add: ring_def)
  from find_dead_seg [OF g, of 0] show ?thesis
  proof (elim disjE exE conjE)
    assume a: "\<forall>v \<in> set xs. \<not> dead_task (tasks s v)" "find_dead s 0 (task_next s 0) = Some None"
    have "\<not> dead_task (tasks s v)" if v: "v < MAX_TASKS" "tk_name (tasks s v) \<noteq> None" for v
    proof
      assume d: "dead_task (tasks s v)"
      then have "0 < v" using sched_invD(3) [OF i v(1)] by (cases "v = 0") (auto simp: task_wf_def dead_task_def)
      with v d r have "v \<in> set xs" by (auto simp: ring_def live_task_def dead_task_def)
      with a(1) d show False by blast
    qed
    with a(2) show ?thesis by (simp add: reap_detach_locked_def)
  next
    fix as p v bs assume a: "0 # xs = as @ p # v # bs" "dead_task (tasks s v)" "find_dead s 0 (task_next s 0) = Some (Some (p, v))"
    have vx: "v \<in> set xs" using a(1) by (cases as) auto
    then have v: "v < MAX_TASKS" "tk_name (tasks s v) \<noteq> None" using r by (auto simp: ring_def live_task_def)
    have v4: "4 \<le> v" using sched_invD(3) [OF i v(1)] a(2) by (auto simp: task_wf_def dead_task_def split: if_splits)
    obtain s1 Q' where s1: "sched_rq_remove_locked v s = Some (on_rq (tasks s v), s1)" "rqs s1 Q'" "sans_rq s1 = sans_rq s"
      "tasks s1 = (tasks s)(v := (tasks s v)\<lparr>on_rq := False\<rparr>)"
      by (rule remove_rqs [OF q])
    note f = sans_rq_fields [OF s1(3)]
    define s' where "s' = upd_task v (\<lambda>t. t\<lparr>tk_state := REAPING, stack_base := 0, tk_process := None, tk_mm := None\<rparr>)
      (s1\<lparr>task_next := (task_next s1)(p := task_next s1 v)\<rparr>)"
    have ts: "tasks s' = (tasks s)(v := (tasks s v)\<lparr>on_rq := False, tk_state := REAPING, stack_base := 0, tk_process := None, tk_mm := None\<rparr>)"
      by (simp add: s'_def s1(4))
    have ct: "cpu_task s' = cpu_task s" by (simp add: s'_def f(15))
    have e: "reap_detach_locked s = Some (Some (v, stack_base (tasks s v), tk_process (tasks s v)), s')"
      by (simp add: reap_detach_locked_def a(3) s1(1) Let_def s'_def) (simp add: s1(4))
    have q': "rqs s' Q'" by (rule rqs_cong [OF s1(2)]) (simp_all add: s'_def)
    have live_eq: "live_task (tasks s' t) \<longleftrightarrow> t \<noteq> v \<and> live_task (tasks s t)" for t by (simp add: ts live_task_def)
    obtain ys where ys: "as @ p # bs = 0 # ys" using a(1) by (cases as) auto
    have rg: "ring s' ys"
    proof -
      have d: "distinct (as @ p # v # bs)" and sg: "seg (task_next s) (Some 0) (as @ p # v # bs) (Some 0)"
        using r unfolding ring_whole a(1) [symmetric] by simp_all
      have "seg (task_next s') (Some 0) (0 # ys) (Some 0)"
        using seg_unlink [OF sg d] by (simp add: s'_def f(16) ys)
      moreover have d': "distinct (0 # ys)" using d unfolding ys [symmetric] by auto
      moreover have "set ys = {t. 0 < t \<and> t < MAX_TASKS \<and> live_task (tasks s' t)}"
      proof -
        have "set (as @ p # bs) = set (as @ p # v # bs) - {v}" using d by auto
        then have "set (0 # ys) = set (0 # xs) - {v}" unfolding a(1) ys .
        then have "insert 0 (set ys) = insert 0 (set xs - {v})" using v4 by (simp add: insert_Diff_if)
        then have "set ys = set xs - {v}" using insert_ident [of 0 "set ys" "set xs - {v}"] d' g(2) by simp
        moreover have "set xs = {t. 0 < t \<and> t < MAX_TASKS \<and> live_task (tasks s t)}" using r by (simp add: ring_def)
        ultimately show ?thesis by (auto simp: live_eq)
      qed
      ultimately show ?thesis unfolding ring_whole by (intro conjI)
    qed
    have "sched_inv s'"
    proof (rule sched_inv_intro [OF q' rg])
      show "task_wf (cpu_task s') t (tasks s' t)" if "t < MAX_TASKS" for t
        using sched_invD(3) [OF i that] a(2) v4 by (auto simp: ts ct task_wf_def dead_task_def split: if_splits)
      show "cpu_wf s' c" if "c < SCHED_MAX_CPUS" for c
        using sched_invD(4) [OF i that] a(2) that by (auto simp: cpu_wf_def ts ct dead_task_def)
    qed
    then have "reap_detach_locked s = Some (Some (v, stack_base (tasks s v), tk_process (tasks s v)), s') \<and> sched_inv s' \<and>
      4 \<le> v \<and> v < MAX_TASKS \<and> tk_name (tasks s v) \<noteq> None \<and> dead_task (tasks s v) \<and> cpu_task s' = cpu_task s \<and>
      tasks s' = (tasks s)(v := (tasks s v)\<lparr>on_rq := False, tk_state := REAPING, stack_base := 0, tk_process := None, tk_mm := None\<rparr>)"
      using v v4 a(2) by (simp only: e ct ts simp_thms)
    then show ?thesis by (rule_tac disjI2) (rule_tac x = v in exI, rule_tac x = s' in exI, assumption)
  qed
qed

lemma clear_inv:
  assumes i: "sched_inv s" and t: "t < MAX_TASKS" "tk_name (tasks s t) \<noteq> None" "tk_state (tasks s t) = REAPING"
  shows "sched_inv (sched_clear_task t s)"
proof -
  obtain Q where q: "rqs s Q" using sched_invD(1) [OF i] by blast
  obtain xs where r: "ring s xs" using sched_invD(2) [OF i] by blast
  have w: "4 \<le> t" "\<not> on_rq (tasks s t)" "current_cpu (tasks s t) = TASK_NO_CPU"
    using sched_invD(3) [OF i t(1)] t by (auto simp: task_wf_def split: if_splits)
  have ts: "tasks (sched_clear_task t s) = (tasks s)(t := zero_task)" by (simp add: sched_clear_task_def)
  have tq: "t \<notin> set (Q c)" if "c < SCHED_MAX_CPUS" for c using w(2) that rqs_queued(1) [OF q] by blast
  show ?thesis
  proof (rule sched_inv_intro)
    have "rq_list (sched_clear_task t s) c (Q c)" if "c < SCHED_MAX_CPUS" for c
      using q that tq [OF that] by (simp add: rqs_def rq_list_def sched_clear_task_def chain_simps)
    with q show "rqs (sched_clear_task t s) Q" by (simp add: rqs_def sched_clear_task_def zero_task_def)
    have tx: "t \<notin> set xs" using r t(3) by (simp add: ring_def live_task_def)
    have live: "live_task (tasks (sched_clear_task t s) u) = live_task (tasks s u)" for u
      using t(3) by (simp add: sched_clear_task_def live_task_def zero_task_def)
    show "ring (sched_clear_task t s) xs"
      using r tx w(1) unfolding ring_def live by (simp add: sched_clear_task_def chain_simps)
    show "task_wf (cpu_task (sched_clear_task t s)) u (tasks (sched_clear_task t s) u)" if "u < MAX_TASKS" for u
      using sched_invD(3) [OF i that] w(1) by (auto simp: sched_clear_task_def task_wf_def zero_task_def)
    show "cpu_wf (sched_clear_task t s) c" if "c < SCHED_MAX_CPUS" for c
      using sched_invD(4) [OF i that] w(3) that by (auto simp: cpu_wf_def sched_clear_task_def)
  qed
qed

text \<open>A free slot filled with a blocked task \<open>k\<close> and linked behind the running task.\<close>

lemma link_inv:
  assumes i: "sched_inv s" and c: "cpu < SCHED_MAX_CPUS" and t: "4 \<le> t" "t < MAX_TASKS" "tk_name (tasks s t) = None"
    and k: "tk_name k \<noteq> None" "4 \<le> tk_id k" "\<not> on_rq k" "tk_state k = BLOCKED" "current_cpu k = TASK_NO_CPU"
    and s': "tasks s' = (tasks s)(t := k)" "task_next s' = task_next (task_link cpu t s)" "cpu_task s' = cpu_task s"
      "rq_next s' = rq_next s" "run_queues s' = run_queues s" "next_enqueue_cpu s' = next_enqueue_cpu s"
  shows "sched_inv s'"
proof -
  obtain Q where q: "rqs s Q" using sched_invD(1) [OF i] by blast
  obtain xs where r: "ring s xs" using sched_invD(2) [OF i] by blast
  note w = sched_invD(3) [OF i t(2)]
  have off: "\<not> on_rq (tasks s t)" using w t by (simp add: task_wf_def)
  have tq: "t \<notin> set (Q c)" if "c < SCHED_MAX_CPUS" for c using off that rqs_queued(1) [OF q] by blast
  let ?p = "cpu_task s cpu"
  note rp = running [OF i c refl]
  have "?p \<in> set (0 # xs)" using r rp by (cases "?p = 0") (auto simp: ring_def live_task_def)
  then obtain as bs where ab: "0 # xs = as @ ?p # bs" by (meson split_list)
  have tx: "t \<notin> set (0 # xs)" using r t by (auto simp: ring_def live_task_def)
  obtain ys where ys: "as @ ?p # t # bs = 0 # ys" using ab by (cases as) auto
  show ?thesis
  proof (rule sched_inv_intro)
    have "rq_list s' c (Q c)" if "c < SCHED_MAX_CPUS" for c
      using q that tq [OF that] by (simp add: rqs_def rq_list_def s')
    with q k(3) s' show "rqs s' Q" by (simp add: rqs_def)
    have "seg (task_next s') (Some 0) (0 # ys) (Some 0)"
      using r seg_insert [of "task_next s" "Some 0" as ?p bs "Some 0" t] tx
      unfolding ring_whole ab ys by (simp add: s' task_link_def Let_def)
    moreover have "distinct (0 # ys)" using r tx unfolding ring_whole ab ys [symmetric] by auto
    moreover have "set ys = {u. 0 < u \<and> u < MAX_TASKS \<and> live_task (tasks s' u)}"
    proof -
      have live: "live_task (tasks s' u) \<longleftrightarrow> u = t \<or> live_task (tasks s u)" for u using k by (simp add: s' live_task_def)
      have "set (0 # ys) = insert t (set (0 # xs))" unfolding ab ys [symmetric] by auto
      then have "insert 0 (set ys) = insert 0 (insert t (set xs))" by auto
      moreover have "0 \<notin> set ys" "0 \<notin> insert t (set xs)" using \<open>distinct (0 # ys)\<close> r t by (auto simp: ring_def)
      ultimately have "set ys = insert t (set xs)" using insert_ident [of 0 "set ys" "insert t (set xs)"] by simp
      moreover have "set xs = {u. 0 < u \<and> u < MAX_TASKS \<and> live_task (tasks s u)}" using r by (simp add: ring_def)
      ultimately show ?thesis using t by (auto simp: live)
    qed
    ultimately show "ring s' ys" unfolding ring_whole by (intro conjI)
    show "task_wf (cpu_task s') u (tasks s' u)" if "u < MAX_TASKS" for u
      using sched_invD(3) [OF i that] t k by (simp add: s' task_wf_def)
    show "cpu_wf s' c" if "c < SCHED_MAX_CPUS" for c
      using sched_invD(4) [OF i that] t(3) by (auto simp: cpu_wf_def s')
  qed
qed

lemma make_ready_from: "4 \<le> tk_id (tasks s t) \<Longrightarrow> sched_make_ready_locked t s = sched_make_ready_locked t (upd_task t (\<lambda>k. k\<lparr>tk_state := st\<rparr>) s)"
  by (simp add: sched_make_ready_locked_def upd_task_def Let_def)

lemma slot_free:
  "sched_allocate_task_slot s = Some t \<Longrightarrow> 4 \<le> t \<and> t < MAX_TASKS \<and> tk_name (tasks s t) = None"
  unfolding sched_allocate_task_slot_def by (drule find_from_Some) simp

lemma create_inv:
  assumes i: "sched_inv s" and c: "cpu < SCHED_MAX_CPUS" and slot: "sched_allocate_task_slot s = Some t" and n: "4 \<le> next_task_id s"
  shows "sched_inv (task_create_locked cpu t stack_va entry name s)"
    "sched_inv (task_create_user_locked cpu t stack_va process mm entry_va stack_top name console s)"
proof -
  note t = slot_free [OF slot]
  define s1 where "s1 = upd_task t (\<lambda>k. k\<lparr>tk_id := next_task_id s, current_cpu := TASK_NO_CPU, rq_cpu := TASK_NO_CPU,
                 on_rq := False, preempt_count := 0, stack_base := stack_va, stack_size := TASK_TOTAL_PAGES * 4096,
                 tk_name := Some name, tk_mm := None, tk_process := None, parent_id := SCHED_NO_PARENT,
                 tk_context := (tk_context k)\<lparr>x19 := entry, x20 := 0, x21_x29 := replicate 9 0,
                   x30 := Task_entry_trampoline, ctx_sp := task_stack_top stack_va\<rparr>\<rparr>) s"
  define s2 where "s2 = upd_task t (\<lambda>k. k\<lparr>tk_state := BLOCKED\<rparr>) (task_link cpu t s1)"
  define s3 where "s3 = sched_make_ready_locked t (task_link cpu t s1)"
  have i2: "sched_inv s2"
    by (rule link_inv [OF i c, of t "tasks s2 t"]) (use t n in \<open>simp_all add: s2_def s1_def task_link_def Let_def\<close>)
  have "4 \<le> tk_id (tasks (task_link cpu t s1) t)" using n by (simp add: s1_def task_link_def Let_def)
  then have "s3 = sched_make_ready_locked t s2" unfolding s3_def s2_def by (rule make_ready_from)
  moreover have "sched_inv (sched_make_ready_locked t s2)"
    by (rule make_ready_inv [OF i2]) (use t in \<open>simp_all add: s2_def s1_def task_link_def Let_def\<close>)
  ultimately have "sched_inv s3" by simp
  then have i3: "sched_inv (s3\<lparr>next_task_id := x\<rparr>)" for x
    by (rule sched_inv_upd [of s3 _ 0 "tasks s3 0"]) simp_all
  show "sched_inv (task_create_locked cpu t stack_va entry name s)"
    unfolding task_create_locked_def s1_def [symmetric] Let_def s3_def [symmetric]
    by (simp add: i3 inv_ipi)
  show "sched_inv (task_create_user_locked cpu t stack_va process mm entry_va stack_top name console s)"
    by (rule link_inv [OF i c, of t "tasks (task_create_user_locked cpu t stack_va process mm entry_va stack_top name console s) t"])
      (use t n in \<open>simp_all add: task_create_user_locked_def task_link_def Let_def\<close>)
qed

lemma clear_fold:
  "s' = fold sched_clear_task ts s \<Longrightarrow> tasks s' = (\<lambda>t. if t \<in> set ts then zero_task else tasks s t) \<and>
     task_next s' = (\<lambda>t. if t \<in> set ts then None else task_next s t) \<and> rq_next s' = (\<lambda>t. if t \<in> set ts then None else rq_next s t) \<and>
     wait_next s' = (\<lambda>t. if t \<in> set ts then None else wait_next s t) \<and> run_queues s' = run_queues s \<and> cpu_task s' = cpu_task s \<and>
     next_enqueue_cpu s' = next_enqueue_cpu s"
  by (induction ts arbitrary: s) (auto simp: sched_clear_task_def fun_eq_iff)

lemma upto_four: "[0..<4] = [0, 1, 2, 3 :: nat]"
  by (simp add: upt_rec)

lemma boot_fields:
  shows "t < MAX_TASKS \<Longrightarrow> tasks (sched_boot s) t = (if t < 4 then idle_task t else zero_task)"
    "t < 4 \<Longrightarrow> task_next (sched_boot s) t = Some ((t + 1) mod 4)" "c < 4 \<Longrightarrow> run_queues (sched_boot s) c = sched_rq_init"
    "next_enqueue_cpu (sched_boot s) = 0" "c < 4 \<Longrightarrow> cpu_task (sched_boot s) c = c"
    "MAX_TASKS \<le> t \<Longrightarrow> tasks (sched_boot s) t = tasks s t" "next_task_id (sched_boot s) = 4"
proof -
  define s1 where "s1 = s\<lparr>init_task_id := SCHED_NO_PARENT, task_slot_exhaustion_reported := False, next_enqueue_cpu := 0\<rparr>"
  define s2 where "s2 = fold (\<lambda>c s. s\<lparr>run_queues := (run_queues s)(c := sched_rq_init),
    switch_count := (switch_count s)(c := 0)\<rparr>) [0..<SCHED_MAX_CPUS] s1"
  define s3 where "s3 = fold sched_clear_task [0..<MAX_TASKS] s2"
  have f2: "tasks s2 = tasks s" "run_queues s2 = (run_queues s)(0 := sched_rq_init, 1 := sched_rq_init, 2 := sched_rq_init, 3 := sched_rq_init)"
    "next_enqueue_cpu s2 = 0"
    by (simp_all add: s2_def upto_four s1_def)
  note f3 = clear_fold [OF s3_def]
  define s4 where "s4 = fold (\<lambda>i s. s\<lparr>tasks := (tasks s)(i := idle_task i),
    task_next := (task_next s)(i := Some ((i + 1) mod 4))\<rparr>) [0..<4] s3"
  have f4: "tasks s4 = (tasks s3)(0 := idle_task 0, 1 := idle_task 1, 2 := idle_task 2, 3 := idle_task 3)"
    "run_queues s4 = run_queues s3"
    "next_enqueue_cpu s4 = next_enqueue_cpu s3"
    by (simp_all add: s4_def upto_four)
  have e: "sched_boot s = s4\<lparr>next_task_id := 4, cpu_task := (cpu_task s4)(0 := 0, 1 := 1, 2 := 2, 3 := 3)\<rparr>"
    unfolding sched_boot_def sched_init_def Let_def s1_def [symmetric] s2_def [symmetric] s3_def [symmetric] s4_def [symmetric]
    by simp
  show "next_task_id (sched_boot s) = 4" by (simp add: e)
  show "next_enqueue_cpu (sched_boot s) = 0" using f4 f3 f2 by (simp add: e)
  show "t < 4 \<Longrightarrow> task_next (sched_boot s) t = Some ((t + 1) mod 4)"
    unfolding four_cpus by (elim disjE) (simp_all add: e s4_def upto_four)
  show "c < 4 \<Longrightarrow> run_queues (sched_boot s) c = sched_rq_init" using f4 f3 f2 unfolding four_cpus by (elim disjE) (simp_all add: e)
  show "c < 4 \<Longrightarrow> cpu_task (sched_boot s) c = c" unfolding four_cpus by (elim disjE) (simp_all add: e)
  show "MAX_TASKS \<le> t \<Longrightarrow> tasks (sched_boot s) t = tasks s t" using f4 f3 f2 by (simp add: e)
  show "t < MAX_TASKS \<Longrightarrow> tasks (sched_boot s) t = (if t < 4 then idle_task t else zero_task)"
    using f4 f3 four_cpus [of t] by (cases "t < 4") (auto simp: e)
qed

lemma boot_inv:
  assumes z: "tasks s = (\<lambda>_. zero_task)"
  shows "sched_inv (sched_boot s)"
proof (rule sched_inv_intro)
  note b = boot_fields [where s = s]
  have t: "tasks (sched_boot s) t = (if t < 4 then idle_task t else zero_task)" for t
    using b(1) [of t] b(6) [of t] z by (cases "t < MAX_TASKS") auto
  show "rqs (sched_boot s) (\<lambda>_. [])" by (simp add: rqs_def rq_list_def t b(3,4) sched_rq_init_def idle_task_def zero_task_def)
  have live: "live_task (tasks (sched_boot s) t) \<longleftrightarrow> t < 4" for t by (simp add: t live_task_def idle_task_def zero_task_def)
  show "ring (sched_boot s) [1, 2, 3]" unfolding ring_def live by (auto simp: b(2))
  show "task_wf (cpu_task (sched_boot s)) t (tasks (sched_boot s) t)" for t
    by (simp add: t task_wf_def idle_task_def zero_task_def)
  show "cpu_wf (sched_boot s) c" if "c < SCHED_MAX_CPUS" for c
    using that by (simp add: cpu_wf_def b(5) t idle_task_def)
qed

text \<open>Every step keeps the invariant.\<close>

lemma step_inv: "sched_step s s' \<Longrightarrow> sched_inv s \<Longrightarrow> sched_inv s'"
proof (induction rule: sched_step.induct)
  case (step_schedule c s r s')
  obtain Q where "rqs s Q" using sched_invD(1) [OF step_schedule.prems] by blast
  from schedule_spec [OF step_schedule.prems this step_schedule.hyps(1) refl refl] step_schedule.hyps(2) show ?case
    by (elim exE conjE) simp
next
  case (step_resume s c)
  then show ?case unfolding schedule_resume_def sched_preempt_enable_def by (simp add: inv_upd_other)
next
  case (step_irq_exit s c)
  then show ?case unfolding irq_exit_locked_def Let_def by (simp add: inv_upd_rq)
next
  case (step_block s t s')
  then show ?case using block_inv [of s t] by (auto simp: named_def)
next
  case (step_sleep c ticks s b s')
  then show ?case using sleep_inv [of s c ticks] by auto
next
  case (step_reap s v s')
  from reap_detach_inv [OF step_reap.prems] step_reap.hyps step_reap.prems show ?case by (elim disjE exE conjE) simp_all
next
  case (step_register s t)
  have "sched_inv (s\<lparr>init_task_id := x\<rparr>)" for x
    by (rule sched_inv_upd [OF step_register.prems, of _ 0 "tasks s 0"]) simp_all
  then show ?case using step_register.prems
    by (simp add: sched_register_init_task_def inv_upd_other split: option.split)
qed (simp_all add: sched_preempt_disable_def sched_preempt_enable_def sched_irq_enter_def sched_request_reschedule_def
  sched_set_current_exit_status_def sched_adopt_task_def sched_test_set_parent_def named_def off_cpu_def
  inv_upd_other inv_upd_rq tick_inv park_inv wake_inv exit_inv wait4_inv kill_inv create_inv clear_inv split: option.split)

lemma reachable_inv: "sched_reachable s \<Longrightarrow> sched_inv s"
  by (induction rule: sched_reachable.induct) (simp_all add: boot_inv step_inv)

section \<open>Properties\<close>

lemma demo_fields [simp]:
  "tasks demo = (\<lambda>t. if t < 4 then idle_task t else zero_task)
       (4 := demo_task 4 RUNNING 0 False, 5 := demo_task 5 READY TASK_NO_CPU True, 6 := demo_task 6 BLOCKED TASK_NO_CPU False,
        7 := (demo_task 7 ZOMBIE TASK_NO_CPU False)\<lparr>parent_id := 4, exit_status := 3\<rparr>)"
  "cpu_task demo = (\<lambda>_. 0)(0 := 4, 1 := 1, 2 := 2, 3 := 3)"
  by (simp_all add: demo_def)

lemmas demo_simps = demo_task_def zero_task_def idle_task_def finished_def

lemma demo_rqs: "rqs demo demo_q"
  by (simp add: demo_q_def rqs_def rq_list_def demo_task_def idle_task_def zero_task_def) (simp add: demo_def sched_zero_def sched_rq_init_def last_opt_def)

lemma demo_inv: "sched_inv demo"
proof (rule sched_inv_intro [OF demo_rqs])
  have live: "live_task (tasks demo t) \<longleftrightarrow> t < 8" for t
    by (auto simp: live_task_def demo_task_def idle_task_def zero_task_def)
  show "ring demo [4, 5, 6, 7, 1, 2, 3]" unfolding ring_def live by (auto simp: demo_def)
  show "task_wf (cpu_task demo) t (tasks demo t)" for t
    by (simp add: task_wf_def demo_task_def idle_task_def zero_task_def)
  show "cpu_wf demo c" if "c < SCHED_MAX_CPUS" for c
    using that unfolding four_cpus by (elim disjE) (simp_all add: cpu_wf_def demo_task_def idle_task_def)
qed

lemma round_robin:
  "sched_inv s \<Longrightarrow> rqs s Q \<Longrightarrow> c < SCHED_MAX_CPUS \<Longrightarrow> k < length (Q c) \<Longrightarrow>
     (\<forall>j \<le> k. tk_state (tasks s (Q c ! j)) = READY) \<Longrightarrow>
     \<exists>s'. schedule_times c (Suc k) s = Some s' \<and> sched_inv s' \<and> cpu_task s' c = Q c ! k"
proof (induction k arbitrary: s Q)
  case (0 s Q)
  define p where "p = cpu_task s c"
  define Q1 where "Q1 = (if stays s p then Q(c := Q c @ [p]) else Q)"
  from "0.prems"(4) obtain x xs where x: "Q c = x # xs" by (cases "Q c") auto
  have "on_rq (tasks s x)" using rqs_queued(1) [OF "0.prems"(2), of x] "0.prems"(3) x by auto
  then have "x \<noteq> p" using running(4) [OF "0.prems"(1,3) p_def] by blast
  then have rx: "runnable s p x" using "0.prems"(5) x by (simp add: runnable_def)
  have Q1: "Q1 c = x # (if stays s p then xs @ [p] else xs)" by (simp add: Q1_def x)
  from schedule_spec [OF "0.prems"(1-3) p_def Q1_def] obtain r s' Q' n where
    s': "schedule_locked c s = Some (r, s')" "sched_inv s'" "next_choice c s p Q1 n" "cpu_task s' = (cpu_task s)(c := n)"
    by (elim exE conjE)
  have "n = x" using s'(3) rx by (simp add: next_choice_def Q1)
  with s' x show ?case by simp
next
  case (Suc k s Q)
  define p where "p = cpu_task s c"
  define Q1 where "Q1 = (if stays s p then Q(c := Q c @ [p]) else Q)"
  from Suc.prems(4) obtain x xs where x: "Q c = x # xs" by (cases "Q c") auto
  have off: "u \<noteq> p" if "u \<in> set (Q c)" for u
    using rqs_queued(1) [OF Suc.prems(2), of u] Suc.prems(3) that running(4) [OF Suc.prems(1,3) p_def] by blast
  then have "x \<noteq> p" by (simp add: x)
  then have rx: "runnable s p x" using Suc.prems(5) [rule_format, of 0] x by (simp add: runnable_def)
  have Q1: "Q1 c = x # (if stays s p then xs @ [p] else xs)" by (simp add: Q1_def x)
  from schedule_spec [OF Suc.prems(1-3) p_def Q1_def] obtain r s' Q' n where
    s': "schedule_locked c s = Some (r, s')" "sched_inv s'" "rqs s' Q'" "next_choice c s p Q1 n" "cpu_task s' = (cpu_task s)(c := n)"
    "\<forall>v. find (runnable s p) (Q1 c) = Some v \<longrightarrow> Q' = Q1(c := tl (dropWhile (\<lambda>v. \<not> runnable s p v) (Q1 c)))"
    "\<forall>t. t \<noteq> n \<longrightarrow> t \<noteq> p \<longrightarrow> tk_state (tasks s' t) = tk_state (tasks s t) \<and> kill_pending (tasks s' t) = kill_pending (tasks s t)"
    by (elim exE conjE)
  have n: "n = x" using s'(4) rx by (simp add: next_choice_def Q1)
  have Q': "Q' c = (if stays s p then xs @ [p] else xs)" using s'(6) rx by (simp add: Q1)
  have len: "k < length xs" using Suc.prems(4) x by simp
  have d: "distinct (x # xs)" using rqs_distinct(1) [OF Suc.prems(2,3)] x by simp
  have nth: "Q' c ! j = xs ! j" if "j \<le> k" for j using that len by (simp add: Q' nth_append)
  have "\<exists>s''. schedule_times c (Suc k) s' = Some s'' \<and> sched_inv s'' \<and> cpu_task s'' c = Q' c ! k"
  proof (rule Suc.IH [OF s'(2,3) Suc.prems(3)])
    show "k < length (Q' c)" using len by (simp add: Q')
    show "\<forall>j \<le> k. tk_state (tasks s' (Q' c ! j)) = READY"
    proof (intro allI impI)
      fix j assume j: "j \<le> k"
      then have m: "xs ! j \<in> set xs" using len by simp
      then have "xs ! j \<noteq> n" "xs ! j \<noteq> p" using d off [of "xs ! j"] by (auto simp: n x)
      moreover have "tk_state (tasks s (xs ! j)) = READY" using Suc.prems(5) [rule_format, of "Suc j"] j x by simp
      ultimately show "tk_state (tasks s' (Q' c ! j)) = READY" using s'(7) nth [OF j] by simp
    qed
  qed
  then show ?case using s'(1) nth [of k] x by simp
qed



lemma boot_create:
  "sched_reachable (task_create_locked 0 4 0x40100000 0x1000 ''worker'' (sched_boot sched_zero))"
proof (rule reach_step [OF reach_boot step_create])
  have "tk_name (tasks (sched_boot sched_zero) 4) = None" by (simp add: boot_fields(1) zero_task_def)
  moreover have "MAX_TASKS - 4 = Suc 27" by simp
  ultimately show "sched_allocate_task_slot (sched_boot sched_zero) = Some 4"
    unfolding sched_allocate_task_slot_def by (simp only: find_from.simps simp_thms if_True)
  show "4 \<le> next_task_id (sched_boot sched_zero)" by (simp add: boot_fields(7))
qed (simp_all add: sched_zero_def)




text \<open>C15: Round robin is fair: a task at position \<open>k\<close> of a CPU's queue, with only ready tasks in front of it, runs after
  \<open>k + 1\<close> calls of \<open>schedule\<close> on that CPU.\<close>

theorem schedule_round_robin:
  assumes "sched_inv s" "rqs s Q" "c < SCHED_MAX_CPUS" "k < length (Q c)"
    "\<And>j. j \<le> k \<Longrightarrow> tk_state (tasks s (Q c ! j)) = READY"
  shows "\<exists>s'. schedule_times c (Suc k) s = Some s' \<and> sched_inv s' \<and> cpu_task s' c = Q c ! k"
  by (rule round_robin [OF assms(1-4)]) (simp add: assms(5))

theorem schedule_round_robin_witness:
  "\<exists>s'. schedule_times 0 1 demo = Some s' \<and> sched_inv s' \<and> cpu_task s' 0 = 5"
  using schedule_round_robin [OF demo_inv demo_rqs, of 0 0] by (simp add: demo_task_def demo_q_def)


text \<open>C16: No wake-up is lost between park and unpark.  Unparking a task that still runs makes its next park return at once,
  with the token consumed; parking otherwise blocks it, and unparking a blocked task off its CPU queues it as ready on a least loaded CPU.\<close>

theorem park_unpark_no_lost_wakeup:
  assumes i: "sched_inv s" and q: "rqs s Q" and t: "t < MAX_TASKS" "4 \<le> tk_id (tasks s t)" "tk_name (tasks s t) \<noteq> None"
    and live: "\<not> finished (tk_state (tasks s t))" "\<not> kill_pending (tasks s t)"
  shows "(tk_state (tasks s t) \<noteq> BLOCKED \<longrightarrow>
      sched_park_task (Some t) (sched_unpark_task c (Some t) s) = (False, upd_task t (\<lambda>k. k\<lparr>wake_pending := False\<rparr>) s)) \<and>
    (\<not> wake_pending (tasks s t) \<longrightarrow> sched_park_task (Some t) s = (True, upd_task t (\<lambda>k. k\<lparr>tk_state := BLOCKED\<rparr>) s)) \<and>
    (tk_state (tasks s t) = BLOCKED \<and> current_cpu (tasks s t) = TASK_NO_CPU \<longrightarrow>
      (\<exists>d < SCHED_MAX_CPUS. rqs (sched_unpark_task c (Some t) s) (Q(d := Q d @ [t])) \<and>
        (\<forall>e < SCHED_MAX_CPUS. length (Q d) \<le> length (Q e)) \<and>
        tk_state (tasks (sched_unpark_task c (Some t) s) t) = READY \<and> sched_inv (sched_unpark_task c (Some t) s)))"
proof (intro conjI impI)
  show "sched_park_task (Some t) (sched_unpark_task c (Some t) s) = (False, upd_task t (\<lambda>k. k\<lparr>wake_pending := False\<rparr>) s)"
    if "tk_state (tasks s t) \<noteq> BLOCKED"
    using that live t by (simp add: sched_unpark_task_def sched_park_task_def) (simp add: upd_task_def)
  show "sched_park_task (Some t) s = (True, upd_task t (\<lambda>k. k\<lparr>tk_state := BLOCKED\<rparr>) s)" if "\<not> wake_pending (tasks s t)"
    using that live t by (simp add: sched_park_task_def)
  assume "tk_state (tasks s t) = BLOCKED \<and> current_cpu (tasks s t) = TASK_NO_CPU"
  then have b: "tk_state (tasks s t) = BLOCKED" "current_cpu (tasks s t) = TASK_NO_CPU" by simp_all
  define s1 where "s1 = sched_make_ready_locked t s"
  have "\<not> on_rq (tasks s t)" using sched_invD(3) [OF i t(1)] b t by (auto simp: task_wf_def split: if_splits)
  from make_ready_rqs [OF q t(1,2) this, folded s1_def] obtain d Q' where
    d: "d < SCHED_MAX_CPUS" "rqs s1 Q'" "Q' = Q(d := Q d @ [t])" "\<And>e. e < SCHED_MAX_CPUS \<Longrightarrow> length (Q d) \<le> length (Q e)"
      "tasks s1 = (tasks s)(t := (tasks s t)\<lparr>tk_state := READY, rq_cpu := d, on_rq := True\<rparr>)"
    by metis
  have e: "sched_unpark_task c (Some t) s = gic_send_ipi (other_cpus c) s1" using b live by (simp add: sched_unpark_task_def s1_def)
  have "rqs (sched_unpark_task c (Some t) s) (Q(d := Q d @ [t]))" by (rule rqs_cong [OF d(2) [unfolded d(3)]]) (simp_all add: e)
  moreover have "sched_inv (sched_unpark_task c (Some t) s)" by (rule wake_inv(2) [OF i t(1,3) b(2)])
  moreover have "tk_state (tasks (sched_unpark_task c (Some t) s) t) = READY" by (simp add: e d(5))
  ultimately show "\<exists>d < SCHED_MAX_CPUS. rqs (sched_unpark_task c (Some t) s) (Q(d := Q d @ [t])) \<and>
        (\<forall>e < SCHED_MAX_CPUS. length (Q d) \<le> length (Q e)) \<and>
        tk_state (tasks (sched_unpark_task c (Some t) s) t) = READY \<and> sched_inv (sched_unpark_task c (Some t) s)"
    using d(1,4) by (intro exI [of _ d] conjI allI impI)
qed

theorem park_unpark_no_lost_wakeup_witness:
  "fst (sched_park_task (Some 4) (sched_unpark_task 1 (Some 4) demo)) = False \<and>
   tk_state (tasks (sched_unpark_task 1 (Some 6) demo) 6) = READY"
proof -
  have "sched_park_task (Some 4) (sched_unpark_task 1 (Some 4) demo) = (False, upd_task 4 (\<lambda>k. k\<lparr>wake_pending := False\<rparr>) demo)"
    by (rule park_unpark_no_lost_wakeup [OF demo_inv demo_rqs, THEN conjunct1, THEN mp]) (simp_all add: demo_simps)
  moreover have "\<exists>d < SCHED_MAX_CPUS. rqs (sched_unpark_task 1 (Some 6) demo) (demo_q(d := demo_q d @ [6])) \<and>
      (\<forall>e < SCHED_MAX_CPUS. length (demo_q d) \<le> length (demo_q e)) \<and>
      tk_state (tasks (sched_unpark_task 1 (Some 6) demo) 6) = READY \<and> sched_inv (sched_unpark_task 1 (Some 6) demo)"
    by (rule park_unpark_no_lost_wakeup [OF demo_inv demo_rqs, THEN conjunct2, THEN conjunct2, THEN mp]) (simp_all add: demo_simps)
  ultimately show ?thesis by (elim exE conjE) simp
qed

lemma schedule_kills:
  assumes i: "sched_inv s" and d: "d < SCHED_MAX_CPUS" and t: "t = cpu_task s d" "4 \<le> t" and k: "kill_pending (tasks s t)"
  shows "\<exists>r s'. schedule_locked d s = Some (r, s') \<and> tk_state (tasks s' t) = DEAD \<and> current_cpu (tasks s' t) = TASK_NO_CPU \<and> sched_inv s'"
proof -
  obtain Q where q: "rqs s Q" using sched_invD(1) [OF i] by blast
  have st: "\<not> stays s t" using k by (simp add: stays_def)
  from schedule_spec [OF i q d t(1) refl] obtain r s2 Q' n where
    s2: "schedule_locked d s = Some (r, s2)" "sched_inv s2" "next_choice d s t (if stays s t then Q(d := Q d @ [t]) else Q) n"
    "n \<noteq> t \<longrightarrow> 4 \<le> t \<longrightarrow> current_cpu (tasks s2 t) = TASK_NO_CPU \<and>
       tk_state (tasks s2 t) = (if stays s t then READY else if kill_pending (tasks s t) then DEAD else tk_state (tasks s t))"
    by (elim exE conjE)
  have "n \<noteq> t"
  proof
    assume "n = t"
    with s2(3) st d t(2) have "\<exists>e. find (runnable s t) (Q e) = Some t"
      by (auto simp: next_choice_def split: option.splits)
    then have "runnable s t t" by (auto simp: find_Some_iff)
    with st show False by (simp add: runnable_def)
  qed
  with s2(4) st k t(2) have "tk_state (tasks s2 t) = DEAD" "current_cpu (tasks s2 t) = TASK_NO_CPU" by simp_all
  with s2(1,2) show ?thesis by (intro exI conjI)
qed

text \<open>C17: Killing.  Nothing happens to a task that does not exist, is the caller, is idle or has finished; a task running
  elsewhere is dead once its CPU has scheduled away from it; any other task is dead at once, and no later \<open>schedule\<close> chooses it.\<close>

theorem kill_correct:
  assumes i: "sched_inv s"
    and f: "find_from (\<lambda>i. tk_name (tasks s i) \<noteq> None \<and> tk_id (tasks s i) = tid) 0 MAX_TASKS = found"
  shows "case found of
      None \<Rightarrow> sched_kill_task c tid s = (False, s)
    | Some t \<Rightarrow>
        if t = cpu_task s c \<or> tk_id (tasks s t) < 4 \<or> finished (tk_state (tasks s t)) then sched_kill_task c tid s = (False, s)
        else \<exists>s1. sched_kill_task c tid s = (True, s1) \<and> sched_inv s1 \<and>
          (if tk_state (tasks s t) = RUNNING then
             \<exists>r s2. schedule_locked (current_cpu (tasks s t)) s1 = Some (r, s2) \<and> tk_state (tasks s2 t) = DEAD \<and>
               current_cpu (tasks s2 t) = TASK_NO_CPU \<and> sched_inv s2
           else tk_state (tasks s1 t) = DEAD \<and> (\<forall>p. t \<noteq> p \<longrightarrow> \<not> runnable s1 p t))"
proof (cases found)
  case None
  with f show ?thesis by (simp add: sched_kill_task_def)
next
  case (Some t)
  note found = Some
  note inv = kill_inv [OF i, of c tid]
  from find_from_Some [OF f [unfolded found]] have t: "t < MAX_TASKS" "tk_name (tasks s t) \<noteq> None" by auto
  note w = sched_invD(3) [OF i t(1)]
  consider (no) "t = cpu_task s c \<or> tk_id (tasks s t) < 4 \<or> finished (tk_state (tasks s t))"
    | (run) "\<not> (t = cpu_task s c \<or> tk_id (tasks s t) < 4 \<or> finished (tk_state (tasks s t)))" "tk_state (tasks s t) = RUNNING"
    | (off) "\<not> (t = cpu_task s c \<or> tk_id (tasks s t) < 4 \<or> finished (tk_state (tasks s t)))" "tk_state (tasks s t) \<noteq> RUNNING"
    by blast
  then show ?thesis
  proof cases
    case no
    then have "sched_kill_task c tid s = (False, s)" using f found by (auto simp: sched_kill_task_def sched_current_def)
    with no found show ?thesis by simp
  next
    case off
    then have "sched_kill_task c tid s = (True, upd_task t (\<lambda>t. t\<lparr>tk_state := DEAD, sleep_ticks := 0, wake_pending := False\<rparr>) s)"
      using f found by (simp add: sched_kill_task_def sched_current_def)
    with inv off found show ?thesis by (simp add: runnable_def)
  next
    case run
    define d where "d = current_cpu (tasks s t)"
    have d: "d < SCHED_MAX_CPUS" "cpu_task s d = t" "4 \<le> t" "d \<noteq> TASK_NO_CPU"
      using w run t by (auto simp: task_wf_def d_def finished_def split: if_splits)
    define s1 where "s1 = gic_send_ipi (push_bit d 1) (upd_task t (\<lambda>t. t\<lparr>kill_pending := True\<rparr>) s)"
    have k: "sched_kill_task c tid s = (True, s1)"
      using f found run d(4) by (simp add: sched_kill_task_def sched_current_def s1_def d_def)
    then have i1: "sched_inv s1" using inv by simp
    have "t = cpu_task s1 d" "kill_pending (tasks s1 t)" using d by (simp_all add: s1_def)
    from schedule_kills [OF i1 d(1) this(1) d(3) this(2)] k i1 run found show ?thesis by (simp add: d_def)
  qed
qed

theorem kill_correct_witness:
  "\<exists>s1. sched_kill_task 0 5 demo = (True, s1) \<and> sched_inv s1 \<and> tk_state (tasks s1 5) = DEAD \<and> (\<forall>p. 5 \<noteq> p \<longrightarrow> \<not> runnable s1 p 5)"
proof -
  have "find_from (\<lambda>i. tk_name (tasks demo i) \<noteq> None \<and> tk_id (tasks demo i) = 5) 0 MAX_TASKS = Some 5"
    by (rule find_from_eqI) (simp_all add: demo_simps)
  from kill_correct [OF demo_inv this, of 0] show ?thesis by (simp add: demo_simps)
qed

lemma wait4_cases:
  assumes "wait4_locked c pid s = (r, s')"
  obtains (child) i where "i < MAX_TASKS" "is_child pid (cpu_task s c) s i" "tk_state (tasks s i) = ZOMBIE"
      "r = Collected (tk_id (tasks s i)) (exit_status (tasks s i))" "s' = upd_task i (\<lambda>k. k\<lparr>tk_state := DEAD\<rparr>) s"
    | (none) "\<forall>i < MAX_TASKS. \<not> is_child pid (cpu_task s c) s i" "r = No_child" "s' = s"
    | (wait) "\<forall>i < MAX_TASKS. \<not> (is_child pid (cpu_task s c) s i \<and> tk_state (tasks s i) = ZOMBIE)"
      "\<exists>i < MAX_TASKS. is_child pid (cpu_task s c) s i" "r = Must_wait" "s' = upd_task (cpu_task s c) (\<lambda>k. k\<lparr>tk_state := BLOCKED\<rparr>) s"
proof (cases "find_from (\<lambda>i. is_child pid (cpu_task s c) s i \<and> tk_state (tasks s i) = ZOMBIE) 0 MAX_TASKS")
  case (Some i)
  with find_from_Some [OF Some] assms show thesis by (intro that(1) [of i]) (simp_all add: wait4_locked_def sched_current_def)
next
  case None
  note z = None
  show thesis
  proof (cases "find_from (is_child pid (cpu_task s c) s) 0 MAX_TASKS")
    case None
    then have "\<forall>i < MAX_TASKS. \<not> is_child pid (cpu_task s c) s i" by (simp add: find_from_None)
    with assms z None show thesis by (intro that(2)) (simp_all add: wait4_locked_def sched_current_def)
  next
    case (Some i)
    have "\<exists>i < MAX_TASKS. is_child pid (cpu_task s c) s i" using find_from_Some [OF Some] by auto
    moreover have "\<forall>i < MAX_TASKS. \<not> (is_child pid (cpu_task s c) s i \<and> tk_state (tasks s i) = ZOMBIE)"
      using z by (simp add: find_from_None)
    ultimately show thesis using assms z Some by (intro that(3)) (simp_all add: wait4_locked_def sched_current_def)
  qed
qed

text \<open>C18: \<open>wait4\<close> collects a zombie child, of which it reports the id and the exit status and which it leaves dead, so that no
  second call can collect it; it reports no child exactly when there is none; otherwise it blocks the caller.\<close>

theorem wait4_correct:
  assumes "wait4_locked c pid s = (r, s')"
  shows "(\<forall>cid st. r = Collected cid st \<longrightarrow> (\<exists>i < MAX_TASKS. is_child pid (cpu_task s c) s i \<and> tk_state (tasks s i) = ZOMBIE \<and>
      tk_id (tasks s i) = cid \<and> exit_status (tasks s i) = st \<and> s' = upd_task i (\<lambda>k. k\<lparr>tk_state := DEAD\<rparr>) s)) \<and>
    (r = No_child \<longleftrightarrow> (\<forall>i < MAX_TASKS. \<not> is_child pid (cpu_task s c) s i)) \<and>
    (r = Must_wait \<longleftrightarrow> (\<exists>i < MAX_TASKS. is_child pid (cpu_task s c) s i) \<and>
      (\<forall>i < MAX_TASKS. is_child pid (cpu_task s c) s i \<longrightarrow> tk_state (tasks s i) \<noteq> ZOMBIE)) \<and>
    (r = No_child \<longrightarrow> s' = s) \<and> (r = Must_wait \<longrightarrow> s' = upd_task (cpu_task s c) (\<lambda>k. k\<lparr>tk_state := BLOCKED\<rparr>) s)"
  using assms by (cases rule: wait4_cases) auto

theorem wait4_correct_witness:
  "\<exists>i < MAX_TASKS. is_child 7 (cpu_task demo 0) demo i \<and> tk_state (tasks demo i) = ZOMBIE \<and> tk_id (tasks demo i) = 7 \<and>
     exit_status (tasks demo i) = 3 \<and> snd (wait4_locked 0 7 demo) = upd_task i (\<lambda>k. k\<lparr>tk_state := DEAD\<rparr>) demo"
proof -
  have "find_from (\<lambda>i. is_child 7 4 demo i \<and> tk_state (tasks demo i) = ZOMBIE) 0 MAX_TASKS = Some 7"
    by (rule find_from_eqI) (simp_all add: is_child_def demo_simps to_long_def)
  then have "wait4_locked 0 7 demo = (Collected 7 3, upd_task 7 (\<lambda>t. t\<lparr>tk_state := DEAD\<rparr>) demo)"
    by (simp add: wait4_locked_def sched_current_def demo_task_def)
  from wait4_correct [OF this] this show ?thesis by simp
qed


text \<open>C19: The hand-over guard of the steps is needed.  When a task parks and another CPU unparks it before its own CPU has called
  \<open>schedule\<close>, the task is queued while it still runs; if a queue is empty and its own is not, another CPU picks it up and one task is
  current on two CPUs.\<close>

theorem early_unpark_runs_twice:
  assumes i: "sched_inv s" and q: "rqs s Q" and c: "c < SCHED_MAX_CPUS" and t: "t = cpu_task s c" "4 \<le> t"
    and run: "tk_state (tasks s t) = RUNNING" "\<not> kill_pending (tasks s t)" "\<not> wake_pending (tasks s t)"
    and load: "Q c \<noteq> []" "e < SCHED_MAX_CPUS" "Q e = []"
  shows "\<exists>d r s'. d < SCHED_MAX_CPUS \<and> d \<noteq> c \<and>
    schedule_locked d (sched_unpark_task d (Some t) (snd (sched_park_task (Some t) s))) = Some (r, s') \<and>
    cpu_task s' c = t \<and> cpu_task s' d = t"
proof -
  note r = running [OF i c t(1)]
  define s1 where "s1 = upd_task t (\<lambda>k. k\<lparr>tk_state := BLOCKED\<rparr>) s"
  have id: "4 \<le> tk_id (tasks s t)" using r(8) t(2) by simp
  have park: "sched_park_task (Some t) s = (True, s1)"
    using run id by (simp add: sched_park_task_def s1_def finished_def)
  have q1: "rqs s1 Q" by (rule rqs_cong [OF q]) (simp_all add: s1_def)
  have "4 \<le> tk_id (tasks s1 t)" "\<not> on_rq (tasks s1 t)" using id r(4) by (simp_all add: s1_def)
  then obtain d Q2 where d: "d < SCHED_MAX_CPUS" "rqs (sched_make_ready_locked t s1) Q2" "Q2 = Q(d := Q d @ [t])"
      "\<And>e. e < SCHED_MAX_CPUS \<Longrightarrow> length (Q d) \<le> length (Q e)"
      "sans_rq (sched_make_ready_locked t s1) = sans_rq (upd_task t (\<lambda>t. t\<lparr>tk_state := READY\<rparr>) s1)"
      "tasks (sched_make_ready_locked t s1) = (tasks s1)(t := (tasks s1 t)\<lparr>tk_state := READY, rq_cpu := d, on_rq := True\<rparr>)"
    using make_ready_rqs [OF q1 r(1)] by metis
  have qd: "Q d = []" using d(4) [OF load(2)] load(3) by simp
  then have dc: "d \<noteq> c" using load(1) by auto
  define s2 where "s2 = sched_unpark_task d (Some t) s1"
  have s2: "s2 = gic_send_ipi (other_cpus d) (sched_make_ready_locked t s1)"
    using run by (simp add: s2_def sched_unpark_task_def) (simp add: s1_def)
  have ct: "cpu_task s2 = cpu_task s" using sans_rq_fields(15) [OF d(5)] by (simp add: s2) (simp add: s1_def)
  have q2: "rqs s2 (Q(d := [t]))" by (rule rqs_cong [OF d(2) [unfolded d(3) qd, simplified]]) (simp_all add: s2)
  define p where "p = cpu_task s2 d"
  note rp = running [OF i d(1), of p, unfolded p_def ct, OF refl, folded ct, folded p_def]
  have pt: "p \<noteq> t" using r(9) [OF d(1)] dc ct by (auto simp: p_def)
  then have tp: "tasks s2 p = tasks s p" by (simp add: s2 d(6)) (simp add: s1_def)
  define Q1 where "Q1 = (if stays s2 p then (Q(d := [t]))(d := (Q(d := [t])) d @ [p]) else Q(d := [t]))"
  from schedule_choice [OF q2 d(1) p_def rp(1) _ _ _ _ Q1_def, unfolded tp, OF rp(4,8,3,6)] obtain rr s' n where
    s': "schedule_locked d s2 = Some (rr, s')" "next_choice d s2 p Q1 n" "cpu_task s' = (cpu_task s2)(d := n)"
    by (elim exE conjE)
  have "runnable s2 p t" using pt by (simp add: runnable_def s2 d(6))
  then have "n = t" using s'(2) by (simp add: next_choice_def Q1_def split: if_splits)
  then have "cpu_task s' c = t \<and> cpu_task s' d = t" using s'(3) ct dc t(1) by simp
  then show ?thesis using d(1) dc s'(1) by (intro exI [of _ d] exI [of _ rr] exI [of _ s'] conjI) (simp_all add: park s2_def)
qed

theorem early_unpark_runs_twice_witness:
  "\<exists>d r s'. d < SCHED_MAX_CPUS \<and> d \<noteq> 0 \<and>
    schedule_locked d (sched_unpark_task d (Some 4) (snd (sched_park_task (Some 4) demo))) = Some (r, s') \<and>
    cpu_task s' 0 = 4 \<and> cpu_task s' d = 4"
  by (rule early_unpark_runs_twice [OF demo_inv demo_rqs, of _ _ 1]) (simp_all add: demo_simps demo_q_def)

end
