(* ===== verification/Spec2Isabelle.thy ===== *)
theory Spec2Isabelle
  imports Mmu Ipc Sched_Safety
begin

text \<open>
  A verification library for the AArch64 teaching kernel of this repository
  (\<^verbatim>\<open>src/src/kernel\<close>, \<^verbatim>\<open>src/src/include\<close>).
\<close>

end
